theory Spec2Isabelle
  imports Main "HOL-Library.Word" "HOL-Library.Monad_Syntax"
begin

section \<open>Machine model\<close>

text \<open>
  The library is C. \<open>size_t\<close> and pointers are modelled as 64-bit words (an LP64
  platform); \<open>NULL\<close> is the address 0. Arithmetic on \<open>size_t\<close> wraps around, as
  unsigned arithmetic does in C.

  Every operation is a function from the memory to an optional result. \<open>None\<close> stands
  for an execution with no defined result: a dereference of a pointer that is not live, an
  access outside an allocation, or an allocator that hands out an address already in use.
  The error codes of the library are ordinary results (\<open>Some\<close>).
\<close>

type_synonym size_t = "64 word"
type_synonym ptr = "64 word"
type_synonym byte = "8 word"

abbreviation NULL :: ptr where
  "NULL \<equiv> 0"

text \<open>The status codes of \<open>core.h\<close>.\<close>

datatype status_t =
    SUCCESS
  | ERROR_INVALID_INPUT
  | ERROR_MEMORY_ALLOCATION
  | ERROR_INDEX_OUT_OF_BOUNDS
  | ERROR_EMPTY_CONTAINER
  | ERROR_NOT_FOUND
  | ERROR_FULL_CONTAINER

text \<open>
  The answers of \<open>malloc\<close>/\<open>realloc\<close> are not determined by the program. They are
  supplied by a plan: the list of the answers the allocator gives to the coming requests.
  An entry is the returned address (\<open>NULL\<close> for a failed request) together with the
  indeterminate bytes found in the fresh memory. When the plan is used up, requests fail.
\<close>

type_synonym alloc_plan = "(ptr \<times> byte list) list"

definition fresh_bytes :: "nat \<Rightarrow> byte list \<Rightarrow> byte list" where
  "fresh_bytes n junk = take n (junk @ replicate n 0)"

text \<open>The bytes a caller's pointer gives access to; the library reads \<open>n\<close> of them.\<close>

definition caller_bytes :: "byte list \<Rightarrow> nat \<Rightarrow> byte list option" where
  "caller_bytes e n = (if n \<le> length e then Some (take n e) else None)"

section \<open>Vector (vector.h, vector.c)\<close>

definition VECTOR_INITIAL_CAPACITY :: size_t where
  "VECTOR_INITIAL_CAPACITY = 16"

text \<open>
  \<open>capacity * VECTOR_GROWTH_FACTOR\<close> is computed in \<open>double\<close>: the capacity is
  converted to \<open>double\<close>, multiplied by the constant 1.5, and the product is converted
  back to \<open>size_t\<close>. A \<open>double\<close> is an IEEE 754 binary64 number, with a significand
  of 53 bits; conversion and multiplication round to the nearest representable number,
  to the one with an even significand in a tie; the conversion back truncates, and is
  undefined when the product does not fit \<open>size_t\<close>.
\<close>

fun bit_length :: "nat \<Rightarrow> nat" where
  "bit_length n = (if n = 0 then 0 else Suc (bit_length (n div 2)))"

declare bit_length.simps [simp del]

text \<open>A natural number rounded to 53 significant bits.\<close>

definition round_to_double :: "nat \<Rightarrow> nat" where
  "round_to_double n =
     (if n < 2 ^ 53 then n
      else let k = bit_length n - 53; q = n div 2 ^ k; r = n mod 2 ^ k; h = 2 ^ (k - 1)
           in if r < h \<or> (r = h \<and> even q) then q * 2 ^ k else (q + 1) * 2 ^ k)"

text \<open>With \<open>d\<close> the capacity as a \<open>double\<close>, the product \<open>d * 1.5\<close> is \<open>3 * d / 2\<close>
  rounded; halving is exact, so this is half of \<open>3 * d\<close> rounded, and the conversion to
  \<open>size_t\<close> drops a remaining half.\<close>

definition growth_product :: "size_t \<Rightarrow> size_t option" where
  "growth_product c =
     (let d = round_to_double (unat c); p = round_to_double (3 * d)
      in if p div 2 < 2 ^ 64 then Some (word_of_nat (p div 2)) else None)"

record vector_t =
  v_data :: ptr
  v_size :: size_t
  v_capacity :: size_t
  v_element_size :: size_t

text \<open>
  The memory the vector module works on: the \<open>vector_t\<close> structures, the data buffers
  (each a sequence of bytes), and the allocator's plan.
\<close>

record vmem =
  vecs :: "ptr \<rightharpoonup> vector_t"
  bufs :: "ptr \<rightharpoonup> byte list"
  vplan :: alloc_plan

subsection \<open>Memory primitives (core.c)\<close>

definition mem_alloc :: "size_t \<Rightarrow> vmem \<Rightarrow> (ptr \<times> vmem) option" where
  "mem_alloc n m =
     (if n = 0 then Some (NULL, m)
      else case vplan m of
        [] \<Rightarrow> Some (NULL, m)
      | (p, junk) # rest \<Rightarrow>
          if p = NULL then Some (NULL, m\<lparr>vplan := rest\<rparr>)
          else if bufs m p \<noteq> None then None
          else Some (p, m\<lparr>bufs := (bufs m)(p \<mapsto> fresh_bytes (unat n) junk),
                           vplan := rest\<rparr>))"

definition mem_realloc :: "ptr \<Rightarrow> size_t \<Rightarrow> vmem \<Rightarrow> (ptr \<times> vmem) option" where
  "mem_realloc p n m =
     (if n = 0 then Some (NULL, m)
      else if p = NULL then mem_alloc n m
      else case bufs m p of
        None \<Rightarrow> None
      | Some old \<Rightarrow>
          (case vplan m of
             [] \<Rightarrow> Some (NULL, m)
           | (q, junk) # rest \<Rightarrow>
               if q = NULL then Some (NULL, m\<lparr>vplan := rest\<rparr>)
               else if q \<noteq> p \<and> bufs m q \<noteq> None then None
               else Some (q, m\<lparr>bufs := ((bufs m)(p := None))
                                           (q \<mapsto> take (unat n) (old @ fresh_bytes (unat n) junk)),
                                vplan := rest\<rparr>)))"

text \<open>\<open>mem_free(&p)\<close>: nothing for \<open>NULL\<close>; the caller's variable is set to \<open>NULL\<close>.\<close>

definition mem_free :: "ptr \<Rightarrow> vmem \<Rightarrow> vmem option" where
  "mem_free p m =
     (if p = NULL then Some m
      else if bufs m p = None then None
      else Some (m\<lparr>bufs := (bufs m)(p := None)\<rparr>))"

text \<open>Reading and writing \<open>n\<close> bytes at byte offset \<open>off\<close> of the allocation at \<open>p\<close>.
  A count of 0 returns at once (\<open>mem_copy\<close>, \<open>mem_move\<close>).\<close>

definition mem_read :: "ptr \<Rightarrow> nat \<Rightarrow> nat \<Rightarrow> vmem \<Rightarrow> byte list option" where
  "mem_read p off n m =
     (if n = 0 then Some []
      else case bufs m p of
        None \<Rightarrow> None
      | Some buf \<Rightarrow> if off + n \<le> length buf then Some (take n (drop off buf)) else None)"

definition mem_write :: "ptr \<Rightarrow> nat \<Rightarrow> byte list \<Rightarrow> vmem \<Rightarrow> vmem option" where
  "mem_write p off bs m =
     (if bs = [] then Some m
      else case bufs m p of
        None \<Rightarrow> None
      | Some buf \<Rightarrow>
          if off + length bs \<le> length buf
          then Some (m\<lparr>bufs := (bufs m)(p \<mapsto> take off buf @ bs @ drop (off + length bs) buf)\<rparr>)
          else None)"

text \<open>\<open>mem_move\<close> within one allocation: overlap-safe, so the source bytes are read
  before any byte is written.\<close>

definition mem_move :: "ptr \<Rightarrow> nat \<Rightarrow> nat \<Rightarrow> nat \<Rightarrow> vmem \<Rightarrow> vmem option" where
  "mem_move p dest_off src_off n m =
     do { bs \<leftarrow> mem_read p src_off n m; mem_write p dest_off bs m }"

subsection \<open>Private helpers\<close>

definition vector_reserve :: "ptr \<Rightarrow> size_t \<Rightarrow> vmem \<Rightarrow> (status_t \<times> vmem) option" where
  "vector_reserve vector new_capacity m =
     (if vector = NULL then Some (ERROR_INVALID_INPUT, m)
      else do {
        v \<leftarrow> vecs m vector;
        if new_capacity \<le> v_capacity v then Some (SUCCESS, m)
        else do {
          (new_data, m1) \<leftarrow> mem_realloc (v_data v) (new_capacity * v_element_size v) m;
          if new_data = NULL then Some (ERROR_MEMORY_ALLOCATION, m1)
          else Some (SUCCESS,
                 m1\<lparr>vecs := (vecs m1)(vector \<mapsto> v\<lparr>v_data := new_data,
                                                    v_capacity := new_capacity\<rparr>)\<rparr>)
        }
      })"

definition grown_capacity :: "size_t \<Rightarrow> size_t option" where
  "grown_capacity cap =
     do {
       new_capacity \<leftarrow> growth_product cap;
       let new_capacity =
             (if new_capacity < VECTOR_INITIAL_CAPACITY then VECTOR_INITIAL_CAPACITY
              else new_capacity);
       let new_capacity = (if new_capacity \<le> cap then cap + 1 else new_capacity);
       Some new_capacity
     }"

definition vector_check_grow :: "ptr \<Rightarrow> vmem \<Rightarrow> (status_t \<times> vmem) option" where
  "vector_check_grow vector m =
     do {
       v \<leftarrow> vecs m vector;
       if v_size v \<ge> v_capacity v then do {
         new_capacity \<leftarrow> grown_capacity (v_capacity v);
         vector_reserve vector new_capacity m
       }
       else Some (SUCCESS, m)
     }"

definition vector_check_index :: "vector_t \<Rightarrow> size_t \<Rightarrow> status_t" where
  "vector_check_index v index =
     (if index \<ge> v_size v then ERROR_INDEX_OUT_OF_BOUNDS else SUCCESS)"

subsection \<open>Creation and destruction\<close>

text \<open>The structure itself is allocated by \<open>mem_alloc(sizeof(vector_t))\<close>; structures
  live in their own store, so only the freshness of the address in that store matters.\<close>

definition vector_struct_alloc :: "vmem \<Rightarrow> (ptr \<times> vmem) option" where
  "vector_struct_alloc m =
     (case vplan m of
        [] \<Rightarrow> Some (NULL, m)
      | (p, junk) # rest \<Rightarrow>
          if p = NULL then Some (NULL, m\<lparr>vplan := rest\<rparr>)
          else if vecs m p \<noteq> None then None
          else Some (p, m\<lparr>vplan := rest\<rparr>))"

definition vector_create_with_capacity ::
  "size_t \<Rightarrow> size_t \<Rightarrow> vmem \<Rightarrow> (ptr \<times> vmem) option" where
  "vector_create_with_capacity element_size initial_capacity m =
     (if element_size = 0 then Some (NULL, m)
      else do {
        let initial_capacity =
              (if initial_capacity = 0 then VECTOR_INITIAL_CAPACITY else initial_capacity);
        (vector, m1) \<leftarrow> vector_struct_alloc m;
        if vector = NULL then Some (NULL, m1)
        else do {
          (d, m2) \<leftarrow> mem_alloc (element_size * initial_capacity) m1;
          if d = NULL then Some (NULL, m2)
          else Some (vector,
                 m2\<lparr>vecs := (vecs m2)(vector \<mapsto>
                       \<lparr>v_data = d, v_size = 0, v_capacity = initial_capacity,
                        v_element_size = element_size\<rparr>)\<rparr>)
        }
      })"

definition vector_create :: "size_t \<Rightarrow> vmem \<Rightarrow> (ptr \<times> vmem) option" where
  "vector_create element_size m =
     (if element_size = 0 then Some (NULL, m)
      else vector_create_with_capacity element_size VECTOR_INITIAL_CAPACITY m)"

definition vector_destroy :: "ptr \<Rightarrow> vmem \<Rightarrow> vmem option" where
  "vector_destroy vector m =
     (if vector = NULL then Some m
      else do {
        v \<leftarrow> vecs m vector;
        m1 \<leftarrow> mem_free (v_data v) m;
        Some (m1\<lparr>vecs := (vecs m1)(vector := None)\<rparr>)
      })"

subsection \<open>Basic operations\<close>

text \<open>An element argument is \<open>None\<close> for a \<open>NULL\<close> pointer, and otherwise the bytes the
  pointer gives access to.\<close>

definition vector_push_back ::
  "ptr \<Rightarrow> byte list option \<Rightarrow> vmem \<Rightarrow> (status_t \<times> vmem) option" where
  "vector_push_back vector element m =
     (case element of
        None \<Rightarrow> Some (ERROR_INVALID_INPUT, m)
      | Some e \<Rightarrow>
          if vector = NULL then Some (ERROR_INVALID_INPUT, m)
          else do {
            (result, m1) \<leftarrow> vector_check_grow vector m;
            if result \<noteq> SUCCESS then Some (result, m1)
            else do {
              v \<leftarrow> vecs m1 vector;
              src \<leftarrow> caller_bytes e (unat (v_element_size v));
              m2 \<leftarrow> mem_write (v_data v) (unat (v_size v * v_element_size v)) src m1;
              Some (SUCCESS, m2\<lparr>vecs := (vecs m2)(vector \<mapsto> v\<lparr>v_size := v_size v + 1\<rparr>)\<rparr>)
            }
          })"

text \<open>An output argument is \<open>True\<close> for a non-\<open>NULL\<close> pointer; the bytes copied to it
  are part of the result.\<close>

definition vector_pop_back ::
  "ptr \<Rightarrow> bool \<Rightarrow> vmem \<Rightarrow> (status_t \<times> byte list option \<times> vmem) option" where
  "vector_pop_back vector output m =
     (if vector = NULL then Some (ERROR_INVALID_INPUT, None, m)
      else do {
        v \<leftarrow> vecs m vector;
        if v_size v = 0 then Some (ERROR_EMPTY_CONTAINER, None, m)
        else do {
          out \<leftarrow> (if output
                  then map_option Some
                         (mem_read (v_data v) (unat ((v_size v - 1) * v_element_size v))
                            (unat (v_element_size v)) m)
                  else Some None);
          Some (SUCCESS, out, m\<lparr>vecs := (vecs m)(vector \<mapsto> v\<lparr>v_size := v_size v - 1\<rparr>)\<rparr>)
        }
      })"

definition vector_insert ::
  "ptr \<Rightarrow> size_t \<Rightarrow> byte list option \<Rightarrow> vmem \<Rightarrow> (status_t \<times> vmem) option" where
  "vector_insert vector index element m =
     (case element of
        None \<Rightarrow> Some (ERROR_INVALID_INPUT, m)
      | Some e \<Rightarrow>
          if vector = NULL then Some (ERROR_INVALID_INPUT, m)
          else do {
            v0 \<leftarrow> vecs m vector;
            if index > v_size v0 then Some (ERROR_INDEX_OUT_OF_BOUNDS, m)
            else do {
              (result, m1) \<leftarrow> vector_check_grow vector m;
              if result \<noteq> SUCCESS then Some (result, m1)
              else do {
                v \<leftarrow> vecs m1 vector;
                if index = v_size v then vector_push_back vector element m1
                else do {
                  m2 \<leftarrow> mem_move (v_data v)
                          (unat ((index + 1) * v_element_size v))
                          (unat (index * v_element_size v))
                          (unat ((v_size v - index) * v_element_size v)) m1;
                  src \<leftarrow> caller_bytes e (unat (v_element_size v));
                  m3 \<leftarrow> mem_write (v_data v) (unat (index * v_element_size v)) src m2;
                  Some (SUCCESS,
                    m3\<lparr>vecs := (vecs m3)(vector \<mapsto> v\<lparr>v_size := v_size v + 1\<rparr>)\<rparr>)
                }
              }
            }
          })"

definition vector_remove :: "ptr \<Rightarrow> size_t \<Rightarrow> vmem \<Rightarrow> (status_t \<times> vmem) option" where
  "vector_remove vector index m =
     (if vector = NULL then Some (ERROR_INVALID_INPUT, m)
      else do {
        v \<leftarrow> vecs m vector;
        let result = vector_check_index v index;
        if result \<noteq> SUCCESS then Some (result, m)
        else if index = v_size v - 1
        then map_option (\<lambda>(st, out, m'). (st, m')) (vector_pop_back vector False m)
        else do {
          m1 \<leftarrow> mem_move (v_data v)
                  (unat (index * v_element_size v))
                  (unat ((index + 1) * v_element_size v))
                  (unat ((v_size v - index - 1) * v_element_size v)) m;
          Some (SUCCESS, m1\<lparr>vecs := (vecs m1)(vector \<mapsto> v\<lparr>v_size := v_size v - 1\<rparr>)\<rparr>)
        }
      })"

definition vector_clear :: "ptr \<Rightarrow> vmem \<Rightarrow> vmem option" where
  "vector_clear vector m =
     (if vector = NULL then Some m
      else do {
        v \<leftarrow> vecs m vector;
        Some (m\<lparr>vecs := (vecs m)(vector \<mapsto> v\<lparr>v_size := 0\<rparr>)\<rparr>)
      })"

subsection \<open>Element access\<close>

definition vector_get ::
  "ptr \<Rightarrow> size_t \<Rightarrow> bool \<Rightarrow> vmem \<Rightarrow> (status_t \<times> byte list option) option" where
  "vector_get vector index output m =
     (if vector = NULL \<or> \<not> output then Some (ERROR_INVALID_INPUT, None)
      else do {
        v \<leftarrow> vecs m vector;
        let result = vector_check_index v index;
        if result \<noteq> SUCCESS then Some (result, None)
        else do {
          bs \<leftarrow> mem_read (v_data v) (unat (index * v_element_size v))
                  (unat (v_element_size v)) m;
          Some (SUCCESS, Some bs)
        }
      })"

definition vector_set ::
  "ptr \<Rightarrow> size_t \<Rightarrow> byte list option \<Rightarrow> vmem \<Rightarrow> (status_t \<times> vmem) option" where
  "vector_set vector index element m =
     (case element of
        None \<Rightarrow> Some (ERROR_INVALID_INPUT, m)
      | Some e \<Rightarrow>
          if vector = NULL then Some (ERROR_INVALID_INPUT, m)
          else do {
            v \<leftarrow> vecs m vector;
            let result = vector_check_index v index;
            if result \<noteq> SUCCESS then Some (result, m)
            else do {
              src \<leftarrow> caller_bytes e (unat (v_element_size v));
              m1 \<leftarrow> mem_write (v_data v) (unat (index * v_element_size v)) src m;
              Some (SUCCESS, m1)
            }
          })"

subsection \<open>Capacity management\<close>

definition vector_size :: "ptr \<Rightarrow> vmem \<Rightarrow> size_t option" where
  "vector_size vector m =
     (if vector = NULL then Some 0 else map_option v_size (vecs m vector))"

definition vector_capacity :: "ptr \<Rightarrow> vmem \<Rightarrow> size_t option" where
  "vector_capacity vector m =
     (if vector = NULL then Some 0 else map_option v_capacity (vecs m vector))"

definition vector_empty :: "ptr \<Rightarrow> vmem \<Rightarrow> bool option" where
  "vector_empty vector m =
     (if vector = NULL then Some True else map_option (\<lambda>v. v_size v = 0) (vecs m vector))"

definition vector_shrink_to_fit :: "ptr \<Rightarrow> vmem \<Rightarrow> (status_t \<times> vmem) option" where
  "vector_shrink_to_fit vector m =
     (if vector = NULL then Some (ERROR_INVALID_INPUT, m)
      else do {
        v \<leftarrow> vecs m vector;
        if v_size v = v_capacity v then Some (SUCCESS, m)
        else if v_size v = 0 then do {
          m1 \<leftarrow> mem_free (v_data v) m;
          Some (SUCCESS,
            m1\<lparr>vecs := (vecs m1)(vector \<mapsto> v\<lparr>v_data := NULL, v_capacity := 0\<rparr>)\<rparr>)
        }
        else do {
          (new_data, m1) \<leftarrow> mem_realloc (v_data v) (v_size v * v_element_size v) m;
          if new_data = NULL then Some (ERROR_MEMORY_ALLOCATION, m1)
          else Some (SUCCESS,
                 m1\<lparr>vecs := (vecs m1)(vector \<mapsto> v\<lparr>v_data := new_data,
                                                    v_capacity := v_size v\<rparr>)\<rparr>)
        }
      })"

subsection \<open>Copy and swap\<close>

text \<open>The loop of \<open>vector_copy\<close>: \<open>k\<close> iterations remain, \<open>i\<close> is the loop counter.
  The result is \<open>False\<close> when a \<open>push_back\<close> failed.\<close>

fun vector_copy_loop :: "nat \<Rightarrow> size_t \<Rightarrow> ptr \<Rightarrow> ptr \<Rightarrow> vmem \<Rightarrow> (bool \<times> vmem) option" where
  "vector_copy_loop 0 i src dest m = Some (True, m)"
| "vector_copy_loop (Suc k) i src dest m =
     do {
       s \<leftarrow> vecs m src;
       element \<leftarrow> mem_read (v_data s) (unat (i * v_element_size s))
                    (unat (v_element_size s)) m;
       (result, m1) \<leftarrow> vector_push_back dest (Some element) m;
       if result \<noteq> SUCCESS then Some (False, m1)
       else vector_copy_loop k (i + 1) src dest m1
     }"

definition vector_copy :: "ptr \<Rightarrow> vmem \<Rightarrow> (ptr \<times> vmem) option" where
  "vector_copy src m =
     (if src = NULL then Some (NULL, m)
      else do {
        s \<leftarrow> vecs m src;
        (dest, m1) \<leftarrow> vector_create_with_capacity (v_element_size s) (v_capacity s) m;
        if dest = NULL then Some (NULL, m1)
        else do {
          (ok, m2) \<leftarrow> vector_copy_loop (unat (v_size s)) 0 src dest m1;
          if ok then Some (dest, m2)
          else do { m3 \<leftarrow> vector_destroy dest m2; Some (NULL, m3) }
        }
      })"

definition vector_swap :: "ptr \<Rightarrow> ptr \<Rightarrow> vmem \<Rightarrow> vmem option" where
  "vector_swap a b m =
     (if a = NULL \<or> b = NULL then Some m
      else do {
        va \<leftarrow> vecs m a;
        vb \<leftarrow> vecs m b;
        let m1 = m\<lparr>vecs := (vecs m)(a \<mapsto> vb)\<rparr>;
        Some (m1\<lparr>vecs := (vecs m1)(b \<mapsto> va)\<rparr>)
      })"

section \<open>Singly linked list (singly_list.h, singly_list.c)\<close>

text \<open>
  A node owns its element: the node structure and its data block are allocated together in
  \<open>create_node\<close> and released together in \<open>destroy_node\<close>, and no operation shares
  or replaces the data block. The model keeps the bytes of the data block inside the node.
\<close>

record singly_node_t =
  sn_data :: "byte list"
  sn_next :: ptr

record singly_list_t =
  sl_head :: ptr
  sl_tail :: ptr
  sl_size :: size_t
  sl_element_size :: size_t

record singly_list_iter_t =
  sit_list :: ptr
  sit_current :: ptr
  sit_position :: size_t

text \<open>The memory of the module: list structures, nodes, and the coming answers of the
  allocator (an address, or \<open>NULL\<close> for a failed request).\<close>

record smem =
  slists :: "ptr \<rightharpoonup> singly_list_t"
  snodes :: "ptr \<rightharpoonup> singly_node_t"
  splan :: "ptr list"

text \<open>\<open>mem_copy\<close> of \<open>n\<close> bytes into a data block: the block must hold that many.\<close>

definition overwrite :: "byte list \<Rightarrow> byte list \<Rightarrow> nat \<Rightarrow> byte list option" where
  "overwrite block src n =
     (if n \<le> length block \<and> n \<le> length src then Some (take n src @ drop n block) else None)"

subsection \<open>Private helpers\<close>

text \<open>\<open>create_node\<close> asks the allocator twice: for the node, then for the data block
  (\<open>mem_alloc\<close> refuses a size of 0 without asking). If the second request fails the
  node is released again.\<close>

definition create_node :: "byte list \<Rightarrow> size_t \<Rightarrow> smem \<Rightarrow> (ptr \<times> smem) option" where
  "create_node dat element_size m =
     (case splan m of
        [] \<Rightarrow> Some (NULL, m)
      | node # rest \<Rightarrow>
          if node = NULL then Some (NULL, m\<lparr>splan := rest\<rparr>)
          else if snodes m node \<noteq> None then None
          else if element_size = 0 then Some (NULL, m\<lparr>splan := rest\<rparr>)
          else (case rest of
                  [] \<Rightarrow> Some (NULL, m\<lparr>splan := []\<rparr>)
                | d # rest' \<Rightarrow>
                    if d = NULL then Some (NULL, m\<lparr>splan := rest'\<rparr>)
                    else do {
                      bytes \<leftarrow> caller_bytes dat (unat element_size);
                      Some (node, m\<lparr>snodes := (snodes m)(node \<mapsto>
                                         \<lparr>sn_data = bytes, sn_next = NULL\<rparr>),
                                      splan := rest'\<rparr>)
                    }))"

definition destroy_node :: "ptr \<Rightarrow> smem \<Rightarrow> smem option" where
  "destroy_node node m =
     (if node = NULL then Some m
      else if snodes m node = None then None
      else Some (m\<lparr>snodes := (snodes m)(node := None)\<rparr>))"

text \<open>The loop of \<open>get_node_at\<close>: \<open>k\<close> steps remain; it stops early at \<open>NULL\<close>.\<close>

fun walk_next :: "(ptr \<rightharpoonup> singly_node_t) \<Rightarrow> nat \<Rightarrow> ptr \<Rightarrow> ptr option" where
  "walk_next h 0 current = Some current"
| "walk_next h (Suc k) current =
     (if current = NULL then Some NULL
      else case h current of
        None \<Rightarrow> None
      | Some n \<Rightarrow> walk_next h k (sn_next n))"

definition get_node_at :: "ptr \<Rightarrow> size_t \<Rightarrow> smem \<Rightarrow> ptr option" where
  "get_node_at list index m =
     (if list = NULL then Some NULL
      else do {
        L \<leftarrow> slists m list;
        if index \<ge> sl_size L then Some NULL
        else walk_next (snodes m) (unat index) (sl_head L)
      })"

subsection \<open>Creation and destruction\<close>

definition singly_list_create :: "size_t \<Rightarrow> smem \<Rightarrow> (ptr \<times> smem) option" where
  "singly_list_create element_size m =
     (if element_size = 0 then Some (NULL, m)
      else case splan m of
        [] \<Rightarrow> Some (NULL, m)
      | list # rest \<Rightarrow>
          if list = NULL then Some (NULL, m\<lparr>splan := rest\<rparr>)
          else if slists m list \<noteq> None then None
          else Some (list, m\<lparr>slists := (slists m)(list \<mapsto>
                               \<lparr>sl_head = NULL, sl_tail = NULL, sl_size = 0,
                                sl_element_size = element_size\<rparr>),
                             splan := rest\<rparr>))"

text \<open>The loop of \<open>singly_list_clear\<close>: it releases node after node until \<open>NULL\<close>.\<close>

partial_function (option) singly_list_clear_loop :: "ptr \<Rightarrow> smem \<Rightarrow> smem option" where
  "singly_list_clear_loop current m =
     (if current = NULL then Some m
      else case snodes m current of
        None \<Rightarrow> None
      | Some n \<Rightarrow>
          (case destroy_node current m of
             None \<Rightarrow> None
           | Some m1 \<Rightarrow> singly_list_clear_loop (sn_next n) m1))"

definition singly_list_clear :: "ptr \<Rightarrow> smem \<Rightarrow> smem option" where
  "singly_list_clear list m =
     (if list = NULL then Some m
      else do {
        L \<leftarrow> slists m list;
        m1 \<leftarrow> singly_list_clear_loop (sl_head L) m;
        Some (m1\<lparr>slists := (slists m1)(list \<mapsto> L\<lparr>sl_head := NULL, sl_tail := NULL,
                                                  sl_size := 0\<rparr>)\<rparr>)
      })"

definition singly_list_destroy :: "ptr \<Rightarrow> smem \<Rightarrow> smem option" where
  "singly_list_destroy list m =
     (if list = NULL then Some m
      else do {
        m1 \<leftarrow> singly_list_clear list m;
        Some (m1\<lparr>slists := (slists m1)(list := None)\<rparr>)
      })"

subsection \<open>Basic operations\<close>

definition singly_list_push_front ::
  "ptr \<Rightarrow> byte list option \<Rightarrow> smem \<Rightarrow> (status_t \<times> smem) option" where
  "singly_list_push_front list element m =
     (case element of
        None \<Rightarrow> Some (ERROR_INVALID_INPUT, m)
      | Some e \<Rightarrow>
          if list = NULL then Some (ERROR_INVALID_INPUT, m)
          else do {
            L \<leftarrow> slists m list;
            (new_node, m1) \<leftarrow> create_node e (sl_element_size L) m;
            if new_node = NULL then Some (ERROR_MEMORY_ALLOCATION, m1)
            else do {
              n \<leftarrow> snodes m1 new_node;
              let m2 = m1\<lparr>snodes := (snodes m1)(new_node \<mapsto> n\<lparr>sn_next := sl_head L\<rparr>)\<rparr>;
              let L1 = L\<lparr>sl_head := new_node\<rparr>;
              let L2 = (if sl_tail L1 = NULL then L1\<lparr>sl_tail := new_node\<rparr> else L1);
              Some (SUCCESS,
                m2\<lparr>slists := (slists m2)(list \<mapsto> L2\<lparr>sl_size := sl_size L2 + 1\<rparr>)\<rparr>)
            }
          })"

definition singly_list_push_back ::
  "ptr \<Rightarrow> byte list option \<Rightarrow> smem \<Rightarrow> (status_t \<times> smem) option" where
  "singly_list_push_back list element m =
     (case element of
        None \<Rightarrow> Some (ERROR_INVALID_INPUT, m)
      | Some e \<Rightarrow>
          if list = NULL then Some (ERROR_INVALID_INPUT, m)
          else do {
            L \<leftarrow> slists m list;
            (new_node, m1) \<leftarrow> create_node e (sl_element_size L) m;
            if new_node = NULL then Some (ERROR_MEMORY_ALLOCATION, m1)
            else if sl_tail L = NULL then
              Some (SUCCESS,
                m1\<lparr>slists := (slists m1)(list \<mapsto>
                      L\<lparr>sl_head := new_node, sl_tail := new_node, sl_size := sl_size L + 1\<rparr>)\<rparr>)
            else do {
              t \<leftarrow> snodes m1 (sl_tail L);
              let m2 = m1\<lparr>snodes := (snodes m1)(sl_tail L \<mapsto> t\<lparr>sn_next := new_node\<rparr>)\<rparr>;
              Some (SUCCESS,
                m2\<lparr>slists := (slists m2)(list \<mapsto>
                      L\<lparr>sl_tail := new_node, sl_size := sl_size L + 1\<rparr>)\<rparr>)
            }
          })"

definition singly_list_pop_front ::
  "ptr \<Rightarrow> bool \<Rightarrow> smem \<Rightarrow> (status_t \<times> byte list option \<times> smem) option" where
  "singly_list_pop_front list output m =
     (if list = NULL then Some (ERROR_INVALID_INPUT, None, m)
      else do {
        L \<leftarrow> slists m list;
        if sl_head L = NULL then Some (ERROR_EMPTY_CONTAINER, None, m)
        else do {
          old_head \<leftarrow> snodes m (sl_head L);
          out \<leftarrow> (if output
                  then map_option Some (caller_bytes (sn_data old_head) (unat (sl_element_size L)))
                  else Some None);
          let L1 = L\<lparr>sl_head := sn_next old_head\<rparr>;
          let L2 = (if sl_head L1 = NULL then L1\<lparr>sl_tail := NULL\<rparr> else L1);
          m1 \<leftarrow> destroy_node (sl_head L) m;
          Some (SUCCESS, out,
            m1\<lparr>slists := (slists m1)(list \<mapsto> L2\<lparr>sl_size := sl_size L2 - 1\<rparr>)\<rparr>)
        }
      })"

text \<open>The loop of \<open>singly_list_pop_back\<close> that looks for the node before the tail.\<close>

partial_function (option) node_before ::
  "(ptr \<rightharpoonup> singly_node_t) \<Rightarrow> ptr \<Rightarrow> ptr \<Rightarrow> ptr option" where
  "node_before h tail current =
     (case h current of
        None \<Rightarrow> None
      | Some n \<Rightarrow> if sn_next n = tail then Some current else node_before h tail (sn_next n))"

definition singly_list_pop_back ::
  "ptr \<Rightarrow> bool \<Rightarrow> smem \<Rightarrow> (status_t \<times> byte list option \<times> smem) option" where
  "singly_list_pop_back list output m =
     (if list = NULL then Some (ERROR_INVALID_INPUT, None, m)
      else do {
        L \<leftarrow> slists m list;
        if sl_head L = NULL then Some (ERROR_EMPTY_CONTAINER, None, m)
        else do {
          out \<leftarrow> (if output \<and> sl_tail L \<noteq> NULL
                  then do {
                    t \<leftarrow> snodes m (sl_tail L);
                    map_option Some (caller_bytes (sn_data t) (unat (sl_element_size L)))
                  }
                  else Some None);
          if sl_head L = sl_tail L then do {
            m1 \<leftarrow> destroy_node (sl_head L) m;
            Some (SUCCESS, out,
              m1\<lparr>slists := (slists m1)(list \<mapsto>
                    L\<lparr>sl_head := NULL, sl_tail := NULL, sl_size := sl_size L - 1\<rparr>)\<rparr>)
          }
          else do {
            current \<leftarrow> node_before (snodes m) (sl_tail L) (sl_head L);
            m1 \<leftarrow> destroy_node (sl_tail L) m;
            c \<leftarrow> snodes m1 current;
            let m2 = m1\<lparr>snodes := (snodes m1)(current \<mapsto> c\<lparr>sn_next := NULL\<rparr>)\<rparr>;
            Some (SUCCESS, out,
              m2\<lparr>slists := (slists m2)(list \<mapsto>
                    L\<lparr>sl_tail := current, sl_size := sl_size L - 1\<rparr>)\<rparr>)
          }
        }
      })"

definition singly_list_insert ::
  "ptr \<Rightarrow> size_t \<Rightarrow> byte list option \<Rightarrow> smem \<Rightarrow> (status_t \<times> smem) option" where
  "singly_list_insert list index element m =
     (case element of
        None \<Rightarrow> Some (ERROR_INVALID_INPUT, m)
      | Some e \<Rightarrow>
          if list = NULL then Some (ERROR_INVALID_INPUT, m)
          else do {
            L \<leftarrow> slists m list;
            if index > sl_size L then Some (ERROR_INDEX_OUT_OF_BOUNDS, m)
            else if index = 0 then singly_list_push_front list element m
            else if index = sl_size L then singly_list_push_back list element m
            else do {
              prev \<leftarrow> get_node_at list (index - 1) m;
              if prev = NULL then Some (ERROR_INDEX_OUT_OF_BOUNDS, m)
              else do {
                (new_node, m1) \<leftarrow> create_node e (sl_element_size L) m;
                if new_node = NULL then Some (ERROR_MEMORY_ALLOCATION, m1)
                else do {
                  n \<leftarrow> snodes m1 new_node;
                  p \<leftarrow> snodes m1 prev;
                  let m2 = m1\<lparr>snodes := (snodes m1)(new_node \<mapsto> n\<lparr>sn_next := sn_next p\<rparr>)\<rparr>;
                  let m3 = m2\<lparr>snodes := (snodes m2)(prev \<mapsto> p\<lparr>sn_next := new_node\<rparr>)\<rparr>;
                  Some (SUCCESS,
                    m3\<lparr>slists := (slists m3)(list \<mapsto> L\<lparr>sl_size := sl_size L + 1\<rparr>)\<rparr>)
                }
              }
            }
          })"

definition singly_list_remove :: "ptr \<Rightarrow> size_t \<Rightarrow> smem \<Rightarrow> (status_t \<times> smem) option" where
  "singly_list_remove list index m =
     (if list = NULL then Some (ERROR_INVALID_INPUT, m)
      else do {
        L \<leftarrow> slists m list;
        if index \<ge> sl_size L then Some (ERROR_INDEX_OUT_OF_BOUNDS, m)
        else if index = 0
        then map_option (\<lambda>(st, out, m'). (st, m')) (singly_list_pop_front list False m)
        else do {
          prev \<leftarrow> get_node_at list (index - 1) m;
          if prev = NULL then Some (ERROR_INDEX_OUT_OF_BOUNDS, m)
          else do {
            p \<leftarrow> snodes m prev;
            if sn_next p = NULL then Some (ERROR_INDEX_OUT_OF_BOUNDS, m)
            else do {
              to_remove \<leftarrow> snodes m (sn_next p);
              let m1 = m\<lparr>snodes := (snodes m)(prev \<mapsto> p\<lparr>sn_next := sn_next to_remove\<rparr>)\<rparr>;
              let L1 = (if sn_next p = sl_tail L then L\<lparr>sl_tail := prev\<rparr> else L);
              m2 \<leftarrow> destroy_node (sn_next p) m1;
              Some (SUCCESS,
                m2\<lparr>slists := (slists m2)(list \<mapsto> L1\<lparr>sl_size := sl_size L1 - 1\<rparr>)\<rparr>)
            }
          }
        }
      })"

subsection \<open>Element access\<close>

definition singly_list_get ::
  "ptr \<Rightarrow> size_t \<Rightarrow> bool \<Rightarrow> smem \<Rightarrow> (status_t \<times> byte list option) option" where
  "singly_list_get list index output m =
     (if list = NULL \<or> \<not> output then Some (ERROR_INVALID_INPUT, None)
      else do {
        node \<leftarrow> get_node_at list index m;
        if node = NULL then Some (ERROR_INDEX_OUT_OF_BOUNDS, None)
        else do {
          L \<leftarrow> slists m list;
          n \<leftarrow> snodes m node;
          bs \<leftarrow> caller_bytes (sn_data n) (unat (sl_element_size L));
          Some (SUCCESS, Some bs)
        }
      })"

definition singly_list_set ::
  "ptr \<Rightarrow> size_t \<Rightarrow> byte list option \<Rightarrow> smem \<Rightarrow> (status_t \<times> smem) option" where
  "singly_list_set list index element m =
     (case element of
        None \<Rightarrow> Some (ERROR_INVALID_INPUT, m)
      | Some e \<Rightarrow>
          if list = NULL then Some (ERROR_INVALID_INPUT, m)
          else do {
            node \<leftarrow> get_node_at list index m;
            if node = NULL then Some (ERROR_INDEX_OUT_OF_BOUNDS, m)
            else do {
              L \<leftarrow> slists m list;
              n \<leftarrow> snodes m node;
              d \<leftarrow> overwrite (sn_data n) e (unat (sl_element_size L));
              Some (SUCCESS, m\<lparr>snodes := (snodes m)(node \<mapsto> n\<lparr>sn_data := d\<rparr>)\<rparr>)
            }
          })"

definition singly_list_size :: "ptr \<Rightarrow> smem \<Rightarrow> size_t option" where
  "singly_list_size list m =
     (if list = NULL then Some 0 else map_option sl_size (slists m list))"

definition singly_list_empty :: "ptr \<Rightarrow> smem \<Rightarrow> bool option" where
  "singly_list_empty list m =
     (if list = NULL then Some True else map_option (\<lambda>L. sl_size L = 0) (slists m list))"

subsection \<open>Copy, reverse, swap\<close>

text \<open>The loop of \<open>singly_list_copy\<close>; the result is \<open>False\<close> when a \<open>push_back\<close>
  failed.\<close>

partial_function (option) singly_list_copy_loop ::
  "ptr \<Rightarrow> ptr \<Rightarrow> smem \<Rightarrow> (bool \<times> smem) option" where
  "singly_list_copy_loop current dest m =
     (if current = NULL then Some (True, m)
      else case snodes m current of
        None \<Rightarrow> None
      | Some n \<Rightarrow>
          (case singly_list_push_back dest (Some (sn_data n)) m of
             None \<Rightarrow> None
           | Some (result, m1) \<Rightarrow>
               if result \<noteq> SUCCESS then Some (False, m1)
               else (case snodes m1 current of
                       None \<Rightarrow> None
                     | Some n1 \<Rightarrow> singly_list_copy_loop (sn_next n1) dest m1)))"

definition singly_list_copy :: "ptr \<Rightarrow> smem \<Rightarrow> (ptr \<times> smem) option" where
  "singly_list_copy src m =
     (if src = NULL then Some (NULL, m)
      else do {
        S \<leftarrow> slists m src;
        (dest, m1) \<leftarrow> singly_list_create (sl_element_size S) m;
        if dest = NULL then Some (NULL, m1)
        else do {
          S1 \<leftarrow> slists m1 src;
          (ok, m2) \<leftarrow> singly_list_copy_loop (sl_head S1) dest m1;
          if ok then Some (dest, m2)
          else do { m3 \<leftarrow> singly_list_destroy dest m2; Some (NULL, m3) }
        }
      })"

text \<open>The loop of \<open>singly_list_reverse\<close>; it returns the last value of \<open>prev\<close>.\<close>

partial_function (option) singly_list_reverse_loop ::
  "ptr \<Rightarrow> ptr \<Rightarrow> smem \<Rightarrow> (ptr \<times> smem) option" where
  "singly_list_reverse_loop prev current m =
     (if current = NULL then Some (prev, m)
      else case snodes m current of
        None \<Rightarrow> None
      | Some n \<Rightarrow>
          singly_list_reverse_loop current (sn_next n)
            (m\<lparr>snodes := (snodes m)(current \<mapsto> n\<lparr>sn_next := prev\<rparr>)\<rparr>))"

definition singly_list_reverse :: "ptr \<Rightarrow> smem \<Rightarrow> (status_t \<times> smem) option" where
  "singly_list_reverse list m =
     (if list = NULL then Some (ERROR_INVALID_INPUT, m)
      else do {
        L \<leftarrow> slists m list;
        if sl_size L \<le> 1 then Some (SUCCESS, m)
        else do {
          (prev, m1) \<leftarrow> singly_list_reverse_loop NULL (sl_head L) m;
          Some (SUCCESS,
            m1\<lparr>slists := (slists m1)(list \<mapsto> L\<lparr>sl_tail := sl_head L, sl_head := prev\<rparr>)\<rparr>)
        }
      })"

definition singly_list_swap :: "ptr \<Rightarrow> ptr \<Rightarrow> smem \<Rightarrow> smem option" where
  "singly_list_swap a b m =
     (if a = NULL \<or> b = NULL then Some m
      else do {
        la \<leftarrow> slists m a;
        lb \<leftarrow> slists m b;
        let m1 = m\<lparr>slists := (slists m)(a \<mapsto> lb)\<rparr>;
        Some (m1\<lparr>slists := (slists m1)(b \<mapsto> la)\<rparr>)
      })"

subsection \<open>Iteration\<close>

text \<open>An iterator argument is \<open>None\<close> for a \<open>NULL\<close> pointer. The iterator is returned by
  value from \<open>iter_create\<close> and updated in place by \<open>iter_next\<close>; the model returns the
  updated iterator.\<close>

definition singly_list_iter_create :: "ptr \<Rightarrow> smem \<Rightarrow> singly_list_iter_t option" where
  "singly_list_iter_create list m =
     (if list = NULL
      then Some \<lparr>sit_list = list, sit_current = NULL, sit_position = 0\<rparr>
      else do {
        L \<leftarrow> slists m list;
        Some \<lparr>sit_list = list, sit_current = sl_head L, sit_position = 0\<rparr>
      })"

definition singly_list_iter_has_next :: "singly_list_iter_t option \<Rightarrow> bool" where
  "singly_list_iter_has_next iter =
     (case iter of None \<Rightarrow> False | Some it \<Rightarrow> sit_current it \<noteq> NULL)"

definition singly_list_iter_next ::
  "singly_list_iter_t option \<Rightarrow> bool \<Rightarrow> smem
     \<Rightarrow> (status_t \<times> byte list option \<times> singly_list_iter_t option) option" where
  "singly_list_iter_next iter output m =
     (case iter of
        None \<Rightarrow> Some (ERROR_INVALID_INPUT, None, iter)
      | Some it \<Rightarrow>
          if sit_current it = NULL then Some (ERROR_INVALID_INPUT, None, iter)
          else do {
            n \<leftarrow> snodes m (sit_current it);
            out \<leftarrow> (if output
                    then do {
                      L \<leftarrow> slists m (sit_list it);
                      map_option Some (caller_bytes (sn_data n) (unat (sl_element_size L)))
                    }
                    else Some None);
            Some (SUCCESS, out,
              Some (it\<lparr>sit_current := sn_next n, sit_position := sit_position it + 1\<rparr>))
          })"

definition singly_list_iter_remove ::
  "singly_list_iter_t option \<Rightarrow> smem \<Rightarrow> (status_t \<times> smem) option" where
  "singly_list_iter_remove iter m =
     (case iter of
        None \<Rightarrow> Some (ERROR_INVALID_INPUT, m)
      | Some it \<Rightarrow>
          if sit_list it = NULL then Some (ERROR_INVALID_INPUT, m)
          else if sit_position it = 0 then Some (ERROR_INVALID_INPUT, m)
          else singly_list_remove (sit_list it) (sit_position it - 1) m)"

section \<open>Doubly linked list (doubly_list.h, doubly_list.c)\<close>

record doubly_node_t =
  dn_data :: "byte list"
  dn_next :: ptr
  dn_prev :: ptr

record doubly_list_t =
  dl_head :: ptr
  dl_tail :: ptr
  dl_size :: size_t
  dl_element_size :: size_t

record doubly_list_iter_t =
  dit_list :: ptr
  dit_current :: ptr
  dit_position :: size_t

record dmem =
  dlists :: "ptr \<rightharpoonup> doubly_list_t"
  dnodes :: "ptr \<rightharpoonup> doubly_node_t"
  dplan :: "ptr list"

subsection \<open>Private helpers\<close>

definition create_doubly_node :: "byte list \<Rightarrow> size_t \<Rightarrow> dmem \<Rightarrow> (ptr \<times> dmem) option" where
  "create_doubly_node dat element_size m =
     (case dplan m of
        [] \<Rightarrow> Some (NULL, m)
      | node # rest \<Rightarrow>
          if node = NULL then Some (NULL, m\<lparr>dplan := rest\<rparr>)
          else if dnodes m node \<noteq> None then None
          else if element_size = 0 then Some (NULL, m\<lparr>dplan := rest\<rparr>)
          else (case rest of
                  [] \<Rightarrow> Some (NULL, m\<lparr>dplan := []\<rparr>)
                | d # rest' \<Rightarrow>
                    if d = NULL then Some (NULL, m\<lparr>dplan := rest'\<rparr>)
                    else do {
                      bytes \<leftarrow> caller_bytes dat (unat element_size);
                      Some (node, m\<lparr>dnodes := (dnodes m)(node \<mapsto>
                                         \<lparr>dn_data = bytes, dn_next = NULL, dn_prev = NULL\<rparr>),
                                      dplan := rest'\<rparr>)
                    }))"

definition destroy_doubly_node :: "ptr \<Rightarrow> dmem \<Rightarrow> dmem option" where
  "destroy_doubly_node node m =
     (if node = NULL then Some m
      else if dnodes m node = None then None
      else Some (m\<lparr>dnodes := (dnodes m)(node := None)\<rparr>))"

text \<open>The two loops of \<open>get_doubly_node_at\<close>: \<open>k\<close> steps remain; each stops early at
  \<open>NULL\<close>.\<close>

fun walk_dnext :: "(ptr \<rightharpoonup> doubly_node_t) \<Rightarrow> nat \<Rightarrow> ptr \<Rightarrow> ptr option" where
  "walk_dnext h 0 current = Some current"
| "walk_dnext h (Suc k) current =
     (if current = NULL then Some NULL
      else case h current of
        None \<Rightarrow> None
      | Some n \<Rightarrow> walk_dnext h k (dn_next n))"

fun walk_dprev :: "(ptr \<rightharpoonup> doubly_node_t) \<Rightarrow> nat \<Rightarrow> ptr \<Rightarrow> ptr option" where
  "walk_dprev h 0 current = Some current"
| "walk_dprev h (Suc k) current =
     (if current = NULL then Some NULL
      else case h current of
        None \<Rightarrow> None
      | Some n \<Rightarrow> walk_dprev h k (dn_prev n))"

text \<open>The backward loop starts with \<open>i = size - 1\<close> and runs while \<open>i > index\<close>, that is
  \<open>size - 1 - index\<close> times.\<close>

definition get_doubly_node_at :: "ptr \<Rightarrow> size_t \<Rightarrow> dmem \<Rightarrow> ptr option" where
  "get_doubly_node_at list index m =
     (if list = NULL then Some NULL
      else do {
        L \<leftarrow> dlists m list;
        if index \<ge> dl_size L then Some NULL
        else if index < dl_size L div 2
        then walk_dnext (dnodes m) (unat index) (dl_head L)
        else walk_dprev (dnodes m) (unat (dl_size L - 1) - unat index) (dl_tail L)
      })"

subsection \<open>Creation and destruction\<close>

definition doubly_list_create :: "size_t \<Rightarrow> dmem \<Rightarrow> (ptr \<times> dmem) option" where
  "doubly_list_create element_size m =
     (if element_size = 0 then Some (NULL, m)
      else case dplan m of
        [] \<Rightarrow> Some (NULL, m)
      | list # rest \<Rightarrow>
          if list = NULL then Some (NULL, m\<lparr>dplan := rest\<rparr>)
          else if dlists m list \<noteq> None then None
          else Some (list, m\<lparr>dlists := (dlists m)(list \<mapsto>
                               \<lparr>dl_head = NULL, dl_tail = NULL, dl_size = 0,
                                dl_element_size = element_size\<rparr>),
                             dplan := rest\<rparr>))"

partial_function (option) doubly_list_clear_loop :: "ptr \<Rightarrow> dmem \<Rightarrow> dmem option" where
  "doubly_list_clear_loop current m =
     (if current = NULL then Some m
      else case dnodes m current of
        None \<Rightarrow> None
      | Some n \<Rightarrow>
          (case destroy_doubly_node current m of
             None \<Rightarrow> None
           | Some m1 \<Rightarrow> doubly_list_clear_loop (dn_next n) m1))"

definition doubly_list_clear :: "ptr \<Rightarrow> dmem \<Rightarrow> dmem option" where
  "doubly_list_clear list m =
     (if list = NULL then Some m
      else do {
        L \<leftarrow> dlists m list;
        m1 \<leftarrow> doubly_list_clear_loop (dl_head L) m;
        Some (m1\<lparr>dlists := (dlists m1)(list \<mapsto> L\<lparr>dl_head := NULL, dl_tail := NULL,
                                                  dl_size := 0\<rparr>)\<rparr>)
      })"

definition doubly_list_destroy :: "ptr \<Rightarrow> dmem \<Rightarrow> dmem option" where
  "doubly_list_destroy list m =
     (if list = NULL then Some m
      else do {
        m1 \<leftarrow> doubly_list_clear list m;
        Some (m1\<lparr>dlists := (dlists m1)(list := None)\<rparr>)
      })"

subsection \<open>Basic operations\<close>

definition doubly_list_push_front ::
  "ptr \<Rightarrow> byte list option \<Rightarrow> dmem \<Rightarrow> (status_t \<times> dmem) option" where
  "doubly_list_push_front list element m =
     (case element of
        None \<Rightarrow> Some (ERROR_INVALID_INPUT, m)
      | Some e \<Rightarrow>
          if list = NULL then Some (ERROR_INVALID_INPUT, m)
          else do {
            L \<leftarrow> dlists m list;
            (new_node, m1) \<leftarrow> create_doubly_node e (dl_element_size L) m;
            if new_node = NULL then Some (ERROR_MEMORY_ALLOCATION, m1)
            else do {
              n \<leftarrow> dnodes m1 new_node;
              let m2 = m1\<lparr>dnodes := (dnodes m1)(new_node \<mapsto> n\<lparr>dn_next := dl_head L\<rparr>)\<rparr>;
              m3 \<leftarrow> (if dl_head L \<noteq> NULL
                     then do {
                       h \<leftarrow> dnodes m2 (dl_head L);
                       Some (m2\<lparr>dnodes := (dnodes m2)(dl_head L \<mapsto> h\<lparr>dn_prev := new_node\<rparr>)\<rparr>)
                     }
                     else Some m2);
              let L1 = L\<lparr>dl_head := new_node\<rparr>;
              let L2 = (if dl_tail L1 = NULL then L1\<lparr>dl_tail := new_node\<rparr> else L1);
              Some (SUCCESS,
                m3\<lparr>dlists := (dlists m3)(list \<mapsto> L2\<lparr>dl_size := dl_size L2 + 1\<rparr>)\<rparr>)
            }
          })"

definition doubly_list_push_back ::
  "ptr \<Rightarrow> byte list option \<Rightarrow> dmem \<Rightarrow> (status_t \<times> dmem) option" where
  "doubly_list_push_back list element m =
     (case element of
        None \<Rightarrow> Some (ERROR_INVALID_INPUT, m)
      | Some e \<Rightarrow>
          if list = NULL then Some (ERROR_INVALID_INPUT, m)
          else do {
            L \<leftarrow> dlists m list;
            (new_node, m1) \<leftarrow> create_doubly_node e (dl_element_size L) m;
            if new_node = NULL then Some (ERROR_MEMORY_ALLOCATION, m1)
            else do {
              n \<leftarrow> dnodes m1 new_node;
              let m2 = m1\<lparr>dnodes := (dnodes m1)(new_node \<mapsto> n\<lparr>dn_prev := dl_tail L\<rparr>)\<rparr>;
              m3 \<leftarrow> (if dl_tail L \<noteq> NULL
                     then do {
                       t \<leftarrow> dnodes m2 (dl_tail L);
                       Some (m2\<lparr>dnodes := (dnodes m2)(dl_tail L \<mapsto> t\<lparr>dn_next := new_node\<rparr>)\<rparr>)
                     }
                     else Some m2);
              let L1 = L\<lparr>dl_tail := new_node\<rparr>;
              let L2 = (if dl_head L1 = NULL then L1\<lparr>dl_head := new_node\<rparr> else L1);
              Some (SUCCESS,
                m3\<lparr>dlists := (dlists m3)(list \<mapsto> L2\<lparr>dl_size := dl_size L2 + 1\<rparr>)\<rparr>)
            }
          })"

definition doubly_list_pop_front ::
  "ptr \<Rightarrow> bool \<Rightarrow> dmem \<Rightarrow> (status_t \<times> byte list option \<times> dmem) option" where
  "doubly_list_pop_front list output m =
     (if list = NULL then Some (ERROR_INVALID_INPUT, None, m)
      else do {
        L \<leftarrow> dlists m list;
        if dl_head L = NULL then Some (ERROR_EMPTY_CONTAINER, None, m)
        else do {
          old_head \<leftarrow> dnodes m (dl_head L);
          out \<leftarrow> (if output
                  then map_option Some (caller_bytes (dn_data old_head) (unat (dl_element_size L)))
                  else Some None);
          let L1 = L\<lparr>dl_head := dn_next old_head\<rparr>;
          (L2, m1) \<leftarrow> (if dl_head L1 \<noteq> NULL
                       then do {
                         h \<leftarrow> dnodes m (dl_head L1);
                         Some (L1, m\<lparr>dnodes := (dnodes m)(dl_head L1 \<mapsto> h\<lparr>dn_prev := NULL\<rparr>)\<rparr>)
                       }
                       else Some (L1\<lparr>dl_tail := NULL\<rparr>, m));
          m2 \<leftarrow> destroy_doubly_node (dl_head L) m1;
          Some (SUCCESS, out,
            m2\<lparr>dlists := (dlists m2)(list \<mapsto> L2\<lparr>dl_size := dl_size L2 - 1\<rparr>)\<rparr>)
        }
      })"

definition doubly_list_pop_back ::
  "ptr \<Rightarrow> bool \<Rightarrow> dmem \<Rightarrow> (status_t \<times> byte list option \<times> dmem) option" where
  "doubly_list_pop_back list output m =
     (if list = NULL then Some (ERROR_INVALID_INPUT, None, m)
      else do {
        L \<leftarrow> dlists m list;
        if dl_tail L = NULL then Some (ERROR_EMPTY_CONTAINER, None, m)
        else do {
          old_tail \<leftarrow> dnodes m (dl_tail L);
          out \<leftarrow> (if output
                  then map_option Some (caller_bytes (dn_data old_tail) (unat (dl_element_size L)))
                  else Some None);
          let L1 = L\<lparr>dl_tail := dn_prev old_tail\<rparr>;
          (L2, m1) \<leftarrow> (if dl_tail L1 \<noteq> NULL
                       then do {
                         t \<leftarrow> dnodes m (dl_tail L1);
                         Some (L1, m\<lparr>dnodes := (dnodes m)(dl_tail L1 \<mapsto> t\<lparr>dn_next := NULL\<rparr>)\<rparr>)
                       }
                       else Some (L1\<lparr>dl_head := NULL\<rparr>, m));
          m2 \<leftarrow> destroy_doubly_node (dl_tail L) m1;
          Some (SUCCESS, out,
            m2\<lparr>dlists := (dlists m2)(list \<mapsto> L2\<lparr>dl_size := dl_size L2 - 1\<rparr>)\<rparr>)
        }
      })"

text \<open>In the middle of the list the new node goes in front of the node at \<open>index\<close>.
  When that node has no predecessor the head is left as it is (\<open>insert_before\<close> moves
  it).\<close>

definition doubly_list_insert ::
  "ptr \<Rightarrow> size_t \<Rightarrow> byte list option \<Rightarrow> dmem \<Rightarrow> (status_t \<times> dmem) option" where
  "doubly_list_insert list index element m =
     (case element of
        None \<Rightarrow> Some (ERROR_INVALID_INPUT, m)
      | Some e \<Rightarrow>
          if list = NULL then Some (ERROR_INVALID_INPUT, m)
          else do {
            L \<leftarrow> dlists m list;
            if index > dl_size L then Some (ERROR_INDEX_OUT_OF_BOUNDS, m)
            else if index = 0 then doubly_list_push_front list element m
            else if index = dl_size L then doubly_list_push_back list element m
            else do {
              current \<leftarrow> get_doubly_node_at list index m;
              if current = NULL then Some (ERROR_INDEX_OUT_OF_BOUNDS, m)
              else do {
                (new_node, m1) \<leftarrow> create_doubly_node e (dl_element_size L) m;
                if new_node = NULL then Some (ERROR_MEMORY_ALLOCATION, m1)
                else do {
                  n \<leftarrow> dnodes m1 new_node;
                  c \<leftarrow> dnodes m1 current;
                  let m2 = m1\<lparr>dnodes := (dnodes m1)(new_node \<mapsto>
                                  n\<lparr>dn_prev := dn_prev c, dn_next := current\<rparr>)\<rparr>;
                  m3 \<leftarrow> (if dn_prev c \<noteq> NULL
                         then do {
                           p \<leftarrow> dnodes m2 (dn_prev c);
                           Some (m2\<lparr>dnodes := (dnodes m2)(dn_prev c \<mapsto> p\<lparr>dn_next := new_node\<rparr>)\<rparr>)
                         }
                         else Some m2);
                  c3 \<leftarrow> dnodes m3 current;
                  let m4 = m3\<lparr>dnodes := (dnodes m3)(current \<mapsto> c3\<lparr>dn_prev := new_node\<rparr>)\<rparr>;
                  Some (SUCCESS,
                    m4\<lparr>dlists := (dlists m4)(list \<mapsto> L\<lparr>dl_size := dl_size L + 1\<rparr>)\<rparr>)
                }
              }
            }
          })"

definition doubly_list_remove :: "ptr \<Rightarrow> size_t \<Rightarrow> dmem \<Rightarrow> (status_t \<times> dmem) option" where
  "doubly_list_remove list index m =
     (if list = NULL then Some (ERROR_INVALID_INPUT, m)
      else do {
        L \<leftarrow> dlists m list;
        if index \<ge> dl_size L then Some (ERROR_INDEX_OUT_OF_BOUNDS, m)
        else if index = 0
        then map_option (\<lambda>(st, out, m'). (st, m')) (doubly_list_pop_front list False m)
        else if index = dl_size L - 1
        then map_option (\<lambda>(st, out, m'). (st, m')) (doubly_list_pop_back list False m)
        else do {
          to_remove \<leftarrow> get_doubly_node_at list index m;
          if to_remove = NULL then Some (ERROR_INDEX_OUT_OF_BOUNDS, m)
          else do {
            r \<leftarrow> dnodes m to_remove;
            m1 \<leftarrow> (if dn_prev r \<noteq> NULL
                   then do {
                     p \<leftarrow> dnodes m (dn_prev r);
                     Some (m\<lparr>dnodes := (dnodes m)(dn_prev r \<mapsto> p\<lparr>dn_next := dn_next r\<rparr>)\<rparr>)
                   }
                   else Some m);
            r1 \<leftarrow> dnodes m1 to_remove;
            m2 \<leftarrow> (if dn_next r1 \<noteq> NULL
                   then do {
                     x \<leftarrow> dnodes m1 (dn_next r1);
                     Some (m1\<lparr>dnodes := (dnodes m1)(dn_next r1 \<mapsto> x\<lparr>dn_prev := dn_prev r1\<rparr>)\<rparr>)
                   }
                   else Some m1);
            m3 \<leftarrow> destroy_doubly_node to_remove m2;
            Some (SUCCESS,
              m3\<lparr>dlists := (dlists m3)(list \<mapsto> L\<lparr>dl_size := dl_size L - 1\<rparr>)\<rparr>)
          }
        }
      })"

subsection \<open>Element access\<close>

definition doubly_list_get ::
  "ptr \<Rightarrow> size_t \<Rightarrow> bool \<Rightarrow> dmem \<Rightarrow> (status_t \<times> byte list option) option" where
  "doubly_list_get list index output m =
     (if list = NULL \<or> \<not> output then Some (ERROR_INVALID_INPUT, None)
      else do {
        node \<leftarrow> get_doubly_node_at list index m;
        if node = NULL then Some (ERROR_INDEX_OUT_OF_BOUNDS, None)
        else do {
          L \<leftarrow> dlists m list;
          n \<leftarrow> dnodes m node;
          bs \<leftarrow> caller_bytes (dn_data n) (unat (dl_element_size L));
          Some (SUCCESS, Some bs)
        }
      })"

definition doubly_list_set ::
  "ptr \<Rightarrow> size_t \<Rightarrow> byte list option \<Rightarrow> dmem \<Rightarrow> (status_t \<times> dmem) option" where
  "doubly_list_set list index element m =
     (case element of
        None \<Rightarrow> Some (ERROR_INVALID_INPUT, m)
      | Some e \<Rightarrow>
          if list = NULL then Some (ERROR_INVALID_INPUT, m)
          else do {
            node \<leftarrow> get_doubly_node_at list index m;
            if node = NULL then Some (ERROR_INDEX_OUT_OF_BOUNDS, m)
            else do {
              L \<leftarrow> dlists m list;
              n \<leftarrow> dnodes m node;
              d \<leftarrow> overwrite (dn_data n) e (unat (dl_element_size L));
              Some (SUCCESS, m\<lparr>dnodes := (dnodes m)(node \<mapsto> n\<lparr>dn_data := d\<rparr>)\<rparr>)
            }
          })"

definition doubly_list_size :: "ptr \<Rightarrow> dmem \<Rightarrow> size_t option" where
  "doubly_list_size list m =
     (if list = NULL then Some 0 else map_option dl_size (dlists m list))"

definition doubly_list_empty :: "ptr \<Rightarrow> dmem \<Rightarrow> bool option" where
  "doubly_list_empty list m =
     (if list = NULL then Some True else map_option (\<lambda>L. dl_size L = 0) (dlists m list))"

subsection \<open>Bidirectional operations\<close>

text \<open>The node argument is a pointer the caller holds; it must be a node of the list.\<close>

definition doubly_list_insert_before ::
  "ptr \<Rightarrow> ptr \<Rightarrow> byte list option \<Rightarrow> dmem \<Rightarrow> (status_t \<times> dmem) option" where
  "doubly_list_insert_before list node element m =
     (case element of
        None \<Rightarrow> Some (ERROR_INVALID_INPUT, m)
      | Some e \<Rightarrow>
          if list = NULL \<or> node = NULL then Some (ERROR_INVALID_INPUT, m)
          else do {
            L \<leftarrow> dlists m list;
            (new_node, m1) \<leftarrow> create_doubly_node e (dl_element_size L) m;
            if new_node = NULL then Some (ERROR_MEMORY_ALLOCATION, m1)
            else do {
              n \<leftarrow> dnodes m1 new_node;
              c \<leftarrow> dnodes m1 node;
              let m2 = m1\<lparr>dnodes := (dnodes m1)(new_node \<mapsto>
                              n\<lparr>dn_prev := dn_prev c, dn_next := node\<rparr>)\<rparr>;
              (L1, m3) \<leftarrow> (if dn_prev c \<noteq> NULL
                           then do {
                             p \<leftarrow> dnodes m2 (dn_prev c);
                             Some (L, m2\<lparr>dnodes := (dnodes m2)(dn_prev c \<mapsto>
                                                p\<lparr>dn_next := new_node\<rparr>)\<rparr>)
                           }
                           else Some (L\<lparr>dl_head := new_node\<rparr>, m2));
              c3 \<leftarrow> dnodes m3 node;
              let m4 = m3\<lparr>dnodes := (dnodes m3)(node \<mapsto> c3\<lparr>dn_prev := new_node\<rparr>)\<rparr>;
              Some (SUCCESS,
                m4\<lparr>dlists := (dlists m4)(list \<mapsto> L1\<lparr>dl_size := dl_size L1 + 1\<rparr>)\<rparr>)
            }
          })"

definition doubly_list_insert_after ::
  "ptr \<Rightarrow> ptr \<Rightarrow> byte list option \<Rightarrow> dmem \<Rightarrow> (status_t \<times> dmem) option" where
  "doubly_list_insert_after list node element m =
     (case element of
        None \<Rightarrow> Some (ERROR_INVALID_INPUT, m)
      | Some e \<Rightarrow>
          if list = NULL \<or> node = NULL then Some (ERROR_INVALID_INPUT, m)
          else do {
            L \<leftarrow> dlists m list;
            (new_node, m1) \<leftarrow> create_doubly_node e (dl_element_size L) m;
            if new_node = NULL then Some (ERROR_MEMORY_ALLOCATION, m1)
            else do {
              n \<leftarrow> dnodes m1 new_node;
              c \<leftarrow> dnodes m1 node;
              let m2 = m1\<lparr>dnodes := (dnodes m1)(new_node \<mapsto>
                              n\<lparr>dn_prev := node, dn_next := dn_next c\<rparr>)\<rparr>;
              (L1, m3) \<leftarrow> (if dn_next c \<noteq> NULL
                           then do {
                             x \<leftarrow> dnodes m2 (dn_next c);
                             Some (L, m2\<lparr>dnodes := (dnodes m2)(dn_next c \<mapsto>
                                                x\<lparr>dn_prev := new_node\<rparr>)\<rparr>)
                           }
                           else Some (L\<lparr>dl_tail := new_node\<rparr>, m2));
              c3 \<leftarrow> dnodes m3 node;
              let m4 = m3\<lparr>dnodes := (dnodes m3)(node \<mapsto> c3\<lparr>dn_next := new_node\<rparr>)\<rparr>;
              Some (SUCCESS,
                m4\<lparr>dlists := (dlists m4)(list \<mapsto> L1\<lparr>dl_size := dl_size L1 + 1\<rparr>)\<rparr>)
            }
          })"

subsection \<open>Copy, reverse, swap\<close>

partial_function (option) doubly_list_copy_loop ::
  "ptr \<Rightarrow> ptr \<Rightarrow> dmem \<Rightarrow> (bool \<times> dmem) option" where
  "doubly_list_copy_loop current dest m =
     (if current = NULL then Some (True, m)
      else case dnodes m current of
        None \<Rightarrow> None
      | Some n \<Rightarrow>
          (case doubly_list_push_back dest (Some (dn_data n)) m of
             None \<Rightarrow> None
           | Some (result, m1) \<Rightarrow>
               if result \<noteq> SUCCESS then Some (False, m1)
               else (case dnodes m1 current of
                       None \<Rightarrow> None
                     | Some n1 \<Rightarrow> doubly_list_copy_loop (dn_next n1) dest m1)))"

definition doubly_list_copy :: "ptr \<Rightarrow> dmem \<Rightarrow> (ptr \<times> dmem) option" where
  "doubly_list_copy src m =
     (if src = NULL then Some (NULL, m)
      else do {
        S \<leftarrow> dlists m src;
        (dest, m1) \<leftarrow> doubly_list_create (dl_element_size S) m;
        if dest = NULL then Some (NULL, m1)
        else do {
          S1 \<leftarrow> dlists m1 src;
          (ok, m2) \<leftarrow> doubly_list_copy_loop (dl_head S1) dest m1;
          if ok then Some (dest, m2)
          else do { m3 \<leftarrow> doubly_list_destroy dest m2; Some (NULL, m3) }
        }
      })"

text \<open>The loop of \<open>doubly_list_reverse\<close>: it exchanges the two links of a node and moves
  on along the new \<open>prev\<close> link, the old \<open>next\<close>.\<close>

partial_function (option) doubly_list_reverse_loop :: "ptr \<Rightarrow> dmem \<Rightarrow> dmem option" where
  "doubly_list_reverse_loop current m =
     (if current = NULL then Some m
      else case dnodes m current of
        None \<Rightarrow> None
      | Some n \<Rightarrow>
          doubly_list_reverse_loop (dn_next n)
            (m\<lparr>dnodes := (dnodes m)(current \<mapsto> n\<lparr>dn_prev := dn_next n, dn_next := dn_prev n\<rparr>)\<rparr>))"

definition doubly_list_reverse :: "ptr \<Rightarrow> dmem \<Rightarrow> (status_t \<times> dmem) option" where
  "doubly_list_reverse list m =
     (if list = NULL then Some (ERROR_INVALID_INPUT, m)
      else do {
        L \<leftarrow> dlists m list;
        if dl_size L \<le> 1 then Some (SUCCESS, m)
        else do {
          let m1 = m\<lparr>dlists := (dlists m)(list \<mapsto> L\<lparr>dl_head := dl_tail L, dl_tail := dl_head L\<rparr>)\<rparr>;
          m2 \<leftarrow> doubly_list_reverse_loop (dl_head L) m1;
          Some (SUCCESS, m2)
        }
      })"

definition doubly_list_swap :: "ptr \<Rightarrow> ptr \<Rightarrow> dmem \<Rightarrow> dmem option" where
  "doubly_list_swap a b m =
     (if a = NULL \<or> b = NULL then Some m
      else do {
        la \<leftarrow> dlists m a;
        lb \<leftarrow> dlists m b;
        let m1 = m\<lparr>dlists := (dlists m)(a \<mapsto> lb)\<rparr>;
        Some (m1\<lparr>dlists := (dlists m1)(b \<mapsto> la)\<rparr>)
      })"

subsection \<open>Iteration\<close>

definition doubly_list_iter_create :: "ptr \<Rightarrow> dmem \<Rightarrow> doubly_list_iter_t option" where
  "doubly_list_iter_create list m =
     (if list = NULL
      then Some \<lparr>dit_list = list, dit_current = NULL, dit_position = 0\<rparr>
      else do {
        L \<leftarrow> dlists m list;
        Some \<lparr>dit_list = list, dit_current = dl_head L, dit_position = 0\<rparr>
      })"

definition doubly_list_iter_create_reverse :: "ptr \<Rightarrow> dmem \<Rightarrow> doubly_list_iter_t option" where
  "doubly_list_iter_create_reverse list m =
     (if list = NULL
      then Some \<lparr>dit_list = list, dit_current = NULL, dit_position = 0\<rparr>
      else do {
        L \<leftarrow> dlists m list;
        Some \<lparr>dit_list = list, dit_current = dl_tail L, dit_position = dl_size L - 1\<rparr>
      })"

definition doubly_list_iter_has_next :: "doubly_list_iter_t option \<Rightarrow> bool" where
  "doubly_list_iter_has_next iter =
     (case iter of None \<Rightarrow> False | Some it \<Rightarrow> dit_current it \<noteq> NULL)"

definition doubly_list_iter_has_prev :: "doubly_list_iter_t option \<Rightarrow> bool" where
  "doubly_list_iter_has_prev iter =
     (case iter of None \<Rightarrow> False | Some it \<Rightarrow> dit_current it \<noteq> NULL)"

definition doubly_list_iter_next ::
  "doubly_list_iter_t option \<Rightarrow> bool \<Rightarrow> dmem
     \<Rightarrow> (status_t \<times> byte list option \<times> doubly_list_iter_t option) option" where
  "doubly_list_iter_next iter output m =
     (case iter of
        None \<Rightarrow> Some (ERROR_INVALID_INPUT, None, iter)
      | Some it \<Rightarrow>
          if dit_current it = NULL then Some (ERROR_INVALID_INPUT, None, iter)
          else do {
            n \<leftarrow> dnodes m (dit_current it);
            out \<leftarrow> (if output
                    then do {
                      L \<leftarrow> dlists m (dit_list it);
                      map_option Some (caller_bytes (dn_data n) (unat (dl_element_size L)))
                    }
                    else Some None);
            Some (SUCCESS, out,
              Some (it\<lparr>dit_current := dn_next n, dit_position := dit_position it + 1\<rparr>))
          })"

definition doubly_list_iter_prev ::
  "doubly_list_iter_t option \<Rightarrow> bool \<Rightarrow> dmem
     \<Rightarrow> (status_t \<times> byte list option \<times> doubly_list_iter_t option) option" where
  "doubly_list_iter_prev iter output m =
     (case iter of
        None \<Rightarrow> Some (ERROR_INVALID_INPUT, None, iter)
      | Some it \<Rightarrow>
          if dit_current it = NULL then Some (ERROR_INVALID_INPUT, None, iter)
          else do {
            n \<leftarrow> dnodes m (dit_current it);
            out \<leftarrow> (if output
                    then do {
                      L \<leftarrow> dlists m (dit_list it);
                      map_option Some (caller_bytes (dn_data n) (unat (dl_element_size L)))
                    }
                    else Some None);
            Some (SUCCESS, out,
              Some (it\<lparr>dit_current := dn_prev n, dit_position := dit_position it - 1\<rparr>))
          })"

text \<open>\<open>doubly_list_iter_remove\<close> unlinks the node the iterator stands on
  (\<open>iter->current\<close>) and moves the iterator to its successor.\<close>

definition doubly_list_iter_remove ::
  "doubly_list_iter_t option \<Rightarrow> dmem \<Rightarrow> (status_t \<times> doubly_list_iter_t option \<times> dmem) option" where
  "doubly_list_iter_remove iter m =
     (case iter of
        None \<Rightarrow> Some (ERROR_INVALID_INPUT, iter, m)
      | Some it \<Rightarrow>
          if dit_list it = NULL \<or> dit_current it = NULL then Some (ERROR_INVALID_INPUT, iter, m)
          else do {
            let to_remove = dit_current it;
            r \<leftarrow> dnodes m to_remove;
            let next = dn_next r;
            m1 \<leftarrow> (if dn_prev r \<noteq> NULL
                   then do {
                     p \<leftarrow> dnodes m (dn_prev r);
                     Some (m\<lparr>dnodes := (dnodes m)(dn_prev r \<mapsto> p\<lparr>dn_next := dn_next r\<rparr>)\<rparr>)
                   }
                   else do {
                     L \<leftarrow> dlists m (dit_list it);
                     Some (m\<lparr>dlists := (dlists m)(dit_list it \<mapsto> L\<lparr>dl_head := dn_next r\<rparr>)\<rparr>)
                   });
            r1 \<leftarrow> dnodes m1 to_remove;
            m2 \<leftarrow> (if dn_next r1 \<noteq> NULL
                   then do {
                     x \<leftarrow> dnodes m1 (dn_next r1);
                     Some (m1\<lparr>dnodes := (dnodes m1)(dn_next r1 \<mapsto> x\<lparr>dn_prev := dn_prev r1\<rparr>)\<rparr>)
                   }
                   else do {
                     L \<leftarrow> dlists m1 (dit_list it);
                     Some (m1\<lparr>dlists := (dlists m1)(dit_list it \<mapsto> L\<lparr>dl_tail := dn_prev r1\<rparr>)\<rparr>)
                   });
            L2 \<leftarrow> dlists m2 (dit_list it);
            let m3 = m2\<lparr>dlists := (dlists m2)(dit_list it \<mapsto> L2\<lparr>dl_size := dl_size L2 - 1\<rparr>)\<rparr>;
            m4 \<leftarrow> destroy_doubly_node to_remove m3;
            Some (SUCCESS, Some (it\<lparr>dit_current := next\<rparr>), m4)
          })"

section \<open>Vector: data-model invariant, contents, operations as data\<close>

text \<open>
  The invariant of the data model: the size does not exceed the capacity, and the buffer
  holds \<open>capacity * element_size\<close> bytes, a product that fits \<open>size_t\<close>. After
  \<open>shrink_to_fit\<close> on an empty vector the capacity is 0 and there is no buffer.
\<close>

definition v_wf :: "vmem \<Rightarrow> ptr \<Rightarrow> bool" where
  "v_wf m vector =
     (case vecs m vector of
        None \<Rightarrow> False
      | Some v \<Rightarrow>
          vector \<noteq> NULL \<and> v_element_size v \<noteq> 0 \<and> v_size v \<le> v_capacity v \<and>
          unat (v_capacity v) * unat (v_element_size v) < 2 ^ 64 \<and>
          (if v_capacity v = 0 then v_data v = NULL
           else v_data v \<noteq> NULL \<and>
                (case bufs m (v_data v) of
                   None \<Rightarrow> False
                 | Some buf \<Rightarrow> length buf = unat (v_capacity v) * unat (v_element_size v))))"

text \<open>The live bytes of a vector: the first \<open>size * element_size\<close> bytes of its buffer.\<close>

definition v_bytes :: "vmem \<Rightarrow> vector_t \<Rightarrow> byte list" where
  "v_bytes m v =
     (case bufs m (v_data v) of
        None \<Rightarrow> []
      | Some buf \<Rightarrow> take (unat (v_size v) * unat (v_element_size v)) buf)"

text \<open>The buffer the next growth of the vector asks for fits \<open>size_t\<close>.\<close>

definition growth_fits :: "vector_t \<Rightarrow> bool" where
  "growth_fits v =
     (v_size v < v_capacity v \<or>
      (case grown_capacity (v_capacity v) of
         None \<Rightarrow> False
       | Some nc \<Rightarrow> unat nc * unat (v_element_size v) < 2 ^ 64))"

text \<open>No other vector structure refers to the buffer of the vector at \<open>vector\<close>.\<close>

definition owns_buffer :: "vmem \<Rightarrow> ptr \<Rightarrow> bool" where
  "owns_buffer m vector =
     (\<forall>p w v. p \<noteq> vector \<and> vecs m p = Some w \<and> vecs m vector = Some v
        \<longrightarrow> v_data w \<noteq> v_data v)"

text \<open>
  The footprint of an operation on the vector at \<open>p\<close>: it rewrites the structure at
  \<open>p\<close> (from \<open>v\<close> to \<open>v'\<close>) and nothing else in the store of structures, it keeps the
  element size, a buffer it installs is the old one or sits at an address that was free, and
  every other live buffer keeps its contents.
\<close>

definition vec_step :: "vmem \<Rightarrow> vmem \<Rightarrow> ptr \<Rightarrow> vector_t \<Rightarrow> vector_t \<Rightarrow> bool" where
  "vec_step m m' p v v' \<longleftrightarrow>
     vecs m' = (vecs m)(p \<mapsto> v') \<and>
     v_element_size v' = v_element_size v \<and>
     (v_data v' = v_data v \<or> v_data v' = NULL \<or> bufs m (v_data v') = None) \<and>
     (\<forall>b. b \<noteq> v_data v \<longrightarrow> b \<noteq> NULL \<longrightarrow> bufs m b \<noteq> None \<longrightarrow> bufs m' b = bufs m b)"

text \<open>The operations of the module as data, each with its arguments.\<close>

datatype vector_op =
    Create size_t
  | CreateWithCapacity size_t size_t
  | Destroy ptr
  | Copy ptr
  | PushBack ptr "byte list option"
  | PopBack ptr bool
  | Insert ptr size_t "byte list option"
  | Remove ptr size_t
  | Clear ptr
  | Get ptr size_t bool
  | Set ptr size_t "byte list option"
  | Size ptr
  | Capacity ptr
  | Empty ptr
  | Reserve ptr size_t
  | ShrinkToFit ptr
  | Swap ptr ptr

text \<open>Running an operation gives the status code, for the operations that return one, and
  the memory afterwards.\<close>

fun vector_run :: "vector_op \<Rightarrow> vmem \<Rightarrow> (status_t option \<times> vmem) option" where
  "vector_run (Create es) m = map_option (\<lambda>(p, m'). (None, m')) (vector_create es m)"
| "vector_run (CreateWithCapacity es n) m =
     map_option (\<lambda>(p, m'). (None, m')) (vector_create_with_capacity es n m)"
| "vector_run (Destroy p) m = map_option (Pair None) (vector_destroy p m)"
| "vector_run (Copy p) m = map_option (\<lambda>(q, m'). (None, m')) (vector_copy p m)"
| "vector_run (PushBack p e) m =
     map_option (\<lambda>(st, m'). (Some st, m')) (vector_push_back p e m)"
| "vector_run (PopBack p out) m =
     map_option (\<lambda>(st, bs, m'). (Some st, m')) (vector_pop_back p out m)"
| "vector_run (Insert p i e) m =
     map_option (\<lambda>(st, m'). (Some st, m')) (vector_insert p i e m)"
| "vector_run (Remove p i) m = map_option (\<lambda>(st, m'). (Some st, m')) (vector_remove p i m)"
| "vector_run (Clear p) m = map_option (Pair None) (vector_clear p m)"
| "vector_run (Get p i out) m = map_option (\<lambda>(st, bs). (Some st, m)) (vector_get p i out m)"
| "vector_run (Set p i e) m = map_option (\<lambda>(st, m'). (Some st, m')) (vector_set p i e m)"
| "vector_run (Size p) m = map_option (\<lambda>n. (None, m)) (vector_size p m)"
| "vector_run (Capacity p) m = map_option (\<lambda>n. (None, m)) (vector_capacity p m)"
| "vector_run (Empty p) m = map_option (\<lambda>b. (None, m)) (vector_empty p m)"
| "vector_run (Reserve p n) m =
     map_option (\<lambda>(st, m'). (Some st, m')) (vector_reserve p n m)"
| "vector_run (ShrinkToFit p) m =
     map_option (\<lambda>(st, m'). (Some st, m')) (vector_shrink_to_fit p m)"
| "vector_run (Swap a b) m = map_option (Pair None) (vector_swap a b m)"

fun vector_run_all :: "vector_op list \<Rightarrow> vmem \<Rightarrow> vmem option" where
  "vector_run_all [] m = Some m"
| "vector_run_all (op # ops) m =
     (case vector_run op m of None \<Rightarrow> None | Some (r, m') \<Rightarrow> vector_run_all ops m')"

text \<open>The vector structures an operation is applied to.\<close>

fun op_args :: "vector_op \<Rightarrow> ptr list" where
  "op_args (Create es) = []"
| "op_args (CreateWithCapacity es n) = []"
| "op_args (Destroy p) = [p]"
| "op_args (Copy p) = [p]"
| "op_args (PushBack p e) = [p]"
| "op_args (PopBack p out) = [p]"
| "op_args (Insert p i e) = [p]"
| "op_args (Remove p i) = [p]"
| "op_args (Clear p) = [p]"
| "op_args (Get p i out) = [p]"
| "op_args (Set p i e) = [p]"
| "op_args (Size p) = [p]"
| "op_args (Capacity p) = [p]"
| "op_args (Empty p) = [p]"
| "op_args (Reserve p n) = [p]"
| "op_args (ShrinkToFit p) = [p]"
| "op_args (Swap a b) = [a, b]"

text \<open>The operations that may lower the capacity of the vector at \<open>vector\<close>, or end its
  life: \<open>shrink_to_fit\<close>, \<open>swap\<close> and \<open>destroy\<close> applied to it.\<close>

fun lowers_capacity :: "ptr \<Rightarrow> vector_op \<Rightarrow> bool" where
  "lowers_capacity vector (ShrinkToFit p) = (p = vector)"
| "lowers_capacity vector (Swap a b) = (a = vector \<or> b = vector)"
| "lowers_capacity vector (Destroy p) = (p = vector)"
| "lowers_capacity vector _ = False"

fun is_shrink_to_fit :: "vector_op \<Rightarrow> bool" where
  "is_shrink_to_fit (ShrinkToFit p) = True"
| "is_shrink_to_fit _ = False"


text \<open>The capacity \<open>vector_capacity\<close> reports after a sequence of operations.\<close>

definition capacity_after :: "vector_op list \<Rightarrow> ptr \<Rightarrow> vmem \<Rightarrow> size_t option" where
  "capacity_after ops vector m =
     (case vector_run_all ops m of
        None \<Rightarrow> None
      | Some m' \<Rightarrow> vector_capacity vector m')"

section \<open>Linked lists: structural invariant and contents\<close>

subsection \<open>Singly linked list\<close>

text \<open>Following \<open>next\<close> links \<open>n\<close> times from \<open>p\<close>: the nodes passed, each live and not
  \<open>NULL\<close>, and the pointer reached.\<close>

fun sl_path :: "(ptr \<rightharpoonup> singly_node_t) \<Rightarrow> nat \<Rightarrow> ptr \<Rightarrow> (ptr list \<times> ptr) option" where
  "sl_path h 0 p = Some ([], p)"
| "sl_path h (Suc n) p =
     (if p = NULL then None
      else case h p of
        None \<Rightarrow> None
      | Some nd \<Rightarrow>
          (case sl_path h n (sn_next nd) of
             None \<Rightarrow> None
           | Some (as, q) \<Rightarrow> Some (p # as, q)))"

text \<open>
  The invariant of the data model: the chain from \<open>head\<close> following \<open>next\<close> exactly
  \<open>size\<close> times passes \<open>size\<close> nodes and then terminates at \<open>NULL\<close>, and \<open>tail\<close> is
  the last node passed (\<open>NULL\<close> when there is none). It follows that \<open>head\<close> is \<open>NULL\<close>
  iff \<open>size\<close> is 0 iff \<open>tail\<close> is \<open>NULL\<close>, and that the \<open>next\<close> link of \<open>tail\<close> is \<open>NULL\<close>.
\<close>

definition sl_inv :: "smem \<Rightarrow> ptr \<Rightarrow> bool" where
  "sl_inv m list =
     (case slists m list of
        None \<Rightarrow> False
      | Some L \<Rightarrow>
          list \<noteq> NULL \<and>
          (case sl_path (snodes m) (unat (sl_size L)) (sl_head L) of
             None \<Rightarrow> False
           | Some (as, q) \<Rightarrow> q = NULL \<and> sl_tail L = (if as = [] then NULL else last as)))"

text \<open>The nodes of a list in order, and the element bytes they hold.\<close>

definition sl_nodes :: "smem \<Rightarrow> ptr \<Rightarrow> ptr list" where
  "sl_nodes m list =
     (case slists m list of
        None \<Rightarrow> []
      | Some L \<Rightarrow>
          (case sl_path (snodes m) (unat (sl_size L)) (sl_head L) of
             None \<Rightarrow> []
           | Some (as, q) \<Rightarrow> as))"

definition sl_contents :: "smem \<Rightarrow> ptr \<Rightarrow> byte list list" where
  "sl_contents m list =
     map (\<lambda>a. case snodes m a of None \<Rightarrow> [] | Some n \<Rightarrow> sn_data n) (sl_nodes m list)"

text \<open>The same chain as a relation: \<open>as\<close> are the nodes from \<open>p\<close> up to, not including,
  \<open>q\<close>.\<close>

primrec sl_chain :: "(ptr \<rightharpoonup> singly_node_t) \<Rightarrow> ptr \<Rightarrow> ptr list \<Rightarrow> ptr \<Rightarrow> bool" where
  "sl_chain h p [] q = (p = q)"
| "sl_chain h p (a # as) q =
     (p = a \<and> a \<noteq> NULL \<and> (case h a of None \<Rightarrow> False | Some n \<Rightarrow> sl_chain h (sn_next n) as q))"

subsection \<open>Doubly linked list\<close>

text \<open>As \<open>sl_path\<close>, and every node passed has its \<open>prev\<close> link on the node passed
  before it (\<open>pv\<close> for the first).\<close>

fun dl_path ::
  "(ptr \<rightharpoonup> doubly_node_t) \<Rightarrow> nat \<Rightarrow> ptr \<Rightarrow> ptr \<Rightarrow> (ptr list \<times> ptr) option" where
  "dl_path h 0 pv p = Some ([], p)"
| "dl_path h (Suc n) pv p =
     (if p = NULL then None
      else case h p of
        None \<Rightarrow> None
      | Some nd \<Rightarrow>
          if dn_prev nd \<noteq> pv then None
          else (case dl_path h n p (dn_next nd) of
                  None \<Rightarrow> None
                | Some (as, q) \<Rightarrow> Some (p # as, q)))"

text \<open>
  The invariant of the doubly linked list: that of the singly linked list, and in addition
  the \<open>prev\<close> link of \<open>head\<close> is \<open>NULL\<close> and every node \<open>n\<close> with \<open>n.next = m\<close> has
  \<open>m.prev = n\<close>.
\<close>

definition dl_inv :: "dmem \<Rightarrow> ptr \<Rightarrow> bool" where
  "dl_inv m list =
     (case dlists m list of
        None \<Rightarrow> False
      | Some L \<Rightarrow>
          list \<noteq> NULL \<and>
          (case dl_path (dnodes m) (unat (dl_size L)) NULL (dl_head L) of
             None \<Rightarrow> False
           | Some (as, q) \<Rightarrow> q = NULL \<and> dl_tail L = (if as = [] then NULL else last as)))"

definition dl_nodes :: "dmem \<Rightarrow> ptr \<Rightarrow> ptr list" where
  "dl_nodes m list =
     (case dlists m list of
        None \<Rightarrow> []
      | Some L \<Rightarrow>
          (case dl_path (dnodes m) (unat (dl_size L)) NULL (dl_head L) of
             None \<Rightarrow> []
           | Some (as, q) \<Rightarrow> as))"

definition dl_contents :: "dmem \<Rightarrow> ptr \<Rightarrow> byte list list" where
  "dl_contents m list =
     map (\<lambda>a. case dnodes m a of None \<Rightarrow> [] | Some n \<Rightarrow> dn_data n) (dl_nodes m list)"

primrec dl_chain ::
  "(ptr \<rightharpoonup> doubly_node_t) \<Rightarrow> ptr \<Rightarrow> ptr \<Rightarrow> ptr list \<Rightarrow> ptr \<Rightarrow> bool" where
  "dl_chain h pv p [] q = (p = q)"
| "dl_chain h pv p (a # as) q =
     (p = a \<and> a \<noteq> NULL \<and>
      (case h a of
         None \<Rightarrow> False
       | Some n \<Rightarrow> dn_prev n = pv \<and> dl_chain h a (dn_next n) as q))"

text \<open>A list structure together with the nodes of its chain, as the invariant relates
  them.\<close>

definition sl_abs :: "smem \<Rightarrow> ptr \<Rightarrow> singly_list_t \<Rightarrow> ptr list \<Rightarrow> bool" where
  "sl_abs m list L as \<longleftrightarrow>
     slists m list = Some L \<and> list \<noteq> NULL \<and>
     sl_chain (snodes m) (sl_head L) as NULL \<and>
     unat (sl_size L) = length as \<and>
     sl_tail L = (if as = [] then NULL else last as)"

definition dl_abs :: "dmem \<Rightarrow> ptr \<Rightarrow> doubly_list_t \<Rightarrow> ptr list \<Rightarrow> bool" where
  "dl_abs m list L as \<longleftrightarrow>
     dlists m list = Some L \<and> list \<noteq> NULL \<and>
     dl_chain (dnodes m) NULL (dl_head L) as NULL \<and>
     unat (dl_size L) = length as \<and>
     dl_tail L = (if as = [] then NULL else last as)"

text \<open>The element bytes held by the nodes \<open>as\<close>.\<close>

definition sl_data :: "smem \<Rightarrow> ptr list \<Rightarrow> byte list list" where
  "sl_data m as = map (\<lambda>a. case snodes m a of None \<Rightarrow> [] | Some n \<Rightarrow> sn_data n) as"

definition dl_data :: "dmem \<Rightarrow> ptr list \<Rightarrow> byte list list" where
  "dl_data m as = map (\<lambda>a. case dnodes m a of None \<Rightarrow> [] | Some n \<Rightarrow> dn_data n) as"

text \<open>The node store after the node \<open>c\<close> has been unlinked from its two neighbours and
  released, and after a node \<open>new\<close> has been linked in between \<open>P\<close> and \<open>N\<close>. The
  operations of the module that remove or add a node arrive at these stores.\<close>

definition dl_unlink :: "(ptr \<rightharpoonup> doubly_node_t) \<Rightarrow> ptr \<Rightarrow> (ptr \<rightharpoonup> doubly_node_t)" where
  "dl_unlink h c =
     (case h c of
        None \<Rightarrow> h
      | Some r \<Rightarrow>
          (let h1 = (if dn_prev r \<noteq> NULL
                     then (case h (dn_prev r) of
                             None \<Rightarrow> h
                           | Some p \<Rightarrow> h(dn_prev r \<mapsto> p\<lparr>dn_next := dn_next r\<rparr>))
                     else h);
               h2 = (if dn_next r \<noteq> NULL
                     then (case h1 (dn_next r) of
                             None \<Rightarrow> h1
                           | Some x \<Rightarrow> h1(dn_next r \<mapsto> x\<lparr>dn_prev := dn_prev r\<rparr>))
                     else h1)
           in h2(c := None)))"

definition dl_link ::
  "(ptr \<rightharpoonup> doubly_node_t) \<Rightarrow> ptr \<Rightarrow> byte list \<Rightarrow> ptr \<Rightarrow> ptr \<Rightarrow> (ptr \<rightharpoonup> doubly_node_t)" where
  "dl_link h new bytes P N =
     (let h1 = h(new \<mapsto> \<lparr>dn_data = bytes, dn_next = N, dn_prev = P\<rparr>);
          h2 = (if P \<noteq> NULL
                then (case h1 P of None \<Rightarrow> h1 | Some p \<Rightarrow> h1(P \<mapsto> p\<lparr>dn_next := new\<rparr>))
                else h1);
          h3 = (if N \<noteq> NULL
                then (case h2 N of None \<Rightarrow> h2 | Some x \<Rightarrow> h2(N \<mapsto> x\<lparr>dn_prev := new\<rparr>))
                else h2)
      in h3)"

section \<open>Concrete memories used as test inputs\<close>

definition wm0 :: vmem where
  "wm0 = \<lparr>vecs = [1 \<mapsto> \<lparr>v_data = 2, v_size = 2, v_capacity = 2, v_element_size = 1\<rparr>],
          bufs = [2 \<mapsto> [7, 8]], vplan = [(3, [])]\<rparr>"

text \<open>A full vector of capacity 1.\<close>

definition wm1 :: vmem where
  "wm1 = \<lparr>vecs = [1 \<mapsto> \<lparr>v_data = 2, v_size = 1, v_capacity = 1, v_element_size = 1\<rparr>],
          bufs = [2 \<mapsto> [7]], vplan = [(3, [])]\<rparr>"

text \<open>Two vectors of one-byte elements: one of capacity 2 holding 7 and 8, and an
  empty one of capacity 1.\<close>

definition wm2 :: vmem where
  "wm2 = \<lparr>vecs = [1 \<mapsto> \<lparr>v_data = 2, v_size = 2, v_capacity = 2, v_element_size = 1\<rparr>,
                  4 \<mapsto> \<lparr>v_data = 5, v_size = 0, v_capacity = 1, v_element_size = 1\<rparr>],
          bufs = [2 \<mapsto> [7, 8], 5 \<mapsto> [0]], vplan = [(6, []), (7, [])]\<rparr>"



text \<open>A vector of one 8-byte element is copied, and the copy is given a \<open>reserve\<close>
  whose byte count \<open>(2^61 + 1) * 8\<close> wraps around to 8: the status of the \<open>reserve\<close>,
  the capacity and the length of the buffer of the copy afterwards, and whether the
  \<open>push_back\<close> on the copy that follows is undefined.\<close>

definition wm8 :: vmem where
  "wm8 = \<lparr>vecs = [1 \<mapsto> \<lparr>v_data = 2, v_size = 1, v_capacity = 1, v_element_size = 8\<rparr>],
          bufs = [2 \<mapsto> replicate 8 0], vplan = [(3, []), (4, []), (5, [])]\<rparr>"

definition wrapping_reserve :: "(status_t \<times> size_t option \<times> nat option \<times> bool) option" where
  "wrapping_reserve =
     (case vector_copy 1 wm8 of
        None \<Rightarrow> None
      | Some (d, m1) \<Rightarrow>
          if d = NULL then None
          else (case vector_reserve d (2 ^ 61 + 1) m1 of
                  None \<Rightarrow> None
                | Some (st, m2) \<Rightarrow>
                    Some (st, vector_capacity d m2,
                          (case vecs m2 d of
                             None \<Rightarrow> None
                           | Some v \<Rightarrow> map_option length (bufs m2 (v_data v))),
                          (case vector_push_back d (Some (replicate 8 1)) m2 of
                             None \<Rightarrow> True
                           | Some r \<Rightarrow> False))))"


text \<open>A doubly linked list of the three one-byte elements 10, 20, 30 at the nodes 11, 12,
  13, and an empty one.\<close>

definition dm3 :: dmem where
  "dm3 = \<lparr>dlists = [1 \<mapsto> \<lparr>dl_head = 11, dl_tail = 13, dl_size = 3, dl_element_size = 1\<rparr>],
          dnodes = [11 \<mapsto> \<lparr>dn_data = [10], dn_next = 12, dn_prev = NULL\<rparr>,
                    12 \<mapsto> \<lparr>dn_data = [20], dn_next = 13, dn_prev = 11\<rparr>,
                    13 \<mapsto> \<lparr>dn_data = [30], dn_next = NULL, dn_prev = 12\<rparr>],
          dplan = []\<rparr>"

definition dm0 :: dmem where
  "dm0 = \<lparr>dlists = [1 \<mapsto> \<lparr>dl_head = NULL, dl_tail = NULL, dl_size = 0, dl_element_size = 1\<rparr>],
          dnodes = Map.empty, dplan = []\<rparr>"

text \<open>A forward iterator on the list of \<open>dm3\<close> yields one element and then removes: the
  element yielded, the status of the removal, and the contents of the list afterwards.\<close>

definition next_then_remove :: "(byte list option \<times> status_t \<times> byte list list) option" where
  "next_then_remove =
     (case doubly_list_iter_create 1 dm3 of
        None \<Rightarrow> None
      | Some it \<Rightarrow>
          (case doubly_list_iter_next (Some it) True dm3 of
             None \<Rightarrow> None
           | Some (st, out, it') \<Rightarrow>
               (case doubly_list_iter_remove it' dm3 of
                  None \<Rightarrow> None
                | Some (st', it'', m') \<Rightarrow> Some (out, st', dl_contents m' 1))))"

text \<open>A singly linked list with the same three elements.\<close>

definition sm3 :: smem where
  "sm3 = \<lparr>slists = [1 \<mapsto> \<lparr>sl_head = 21, sl_tail = 23, sl_size = 3, sl_element_size = 1\<rparr>],
          snodes = [21 \<mapsto> \<lparr>sn_data = [10], sn_next = 22\<rparr>,
                    22 \<mapsto> \<lparr>sn_data = [20], sn_next = 23\<rparr>,
                    23 \<mapsto> \<lparr>sn_data = [30], sn_next = NULL\<rparr>],
          splan = []\<rparr>"

text \<open>The same steps on the singly linked list: a forward iterator yields one element and
  then removes.\<close>

definition singly_next_then_remove ::
  "(byte list option \<times> status_t \<times> byte list list) option" where
  "singly_next_then_remove =
     (case singly_list_iter_create 1 sm3 of
        None \<Rightarrow> None
      | Some it \<Rightarrow>
          (case singly_list_iter_next (Some it) True sm3 of
             None \<Rightarrow> None
           | Some (st, out, it') \<Rightarrow>
               (case singly_list_iter_remove it' sm3 of
                  None \<Rightarrow> None
                | Some (st', m') \<Rightarrow> Some (out, st', sl_contents m' 1))))"

text \<open>On the list of \<open>dm3\<close>: a removal through a new iterator, before any element has
  been yielded; and a removal after the iterator has yielded all three elements (the last of
  them is reported).\<close>

definition remove_before_next :: "(status_t \<times> byte list list) option" where
  "remove_before_next =
     (case doubly_list_iter_create 1 dm3 of
        None \<Rightarrow> None
      | Some it \<Rightarrow>
          (case doubly_list_iter_remove (Some it) dm3 of
             None \<Rightarrow> None
           | Some (st, it', m') \<Rightarrow> Some (st, dl_contents m' 1)))"

definition drain_then_remove :: "(byte list option \<times> status_t \<times> byte list list) option" where
  "drain_then_remove =
     (case doubly_list_iter_create 1 dm3 of
        None \<Rightarrow> None
      | Some it0 \<Rightarrow>
          (case doubly_list_iter_next (Some it0) True dm3 of
             None \<Rightarrow> None
           | Some (st1, out1, it1) \<Rightarrow>
               (case doubly_list_iter_next it1 True dm3 of
                  None \<Rightarrow> None
                | Some (st2, out2, it2) \<Rightarrow>
                    (case doubly_list_iter_next it2 True dm3 of
                       None \<Rightarrow> None
                     | Some (st3, out3, it3) \<Rightarrow>
                         (case doubly_list_iter_remove it3 dm3 of
                            None \<Rightarrow> None
                          | Some (st, it', m') \<Rightarrow> Some (out3, st, dl_contents m' 1))))))"
section \<open>Properties of the vector\<close>

subsection \<open>Growth\<close>

lemma bit_length_bounds: "n \<noteq> 0 \<Longrightarrow> 2 ^ (bit_length n - 1) \<le> n \<and> n < 2 ^ bit_length n"
proof (induction n rule: bit_length.induct)
  case (1 n)
  show ?case
  proof (cases "n div 2 = 0")
    case True
    with 1 have "n = 1" by (cases n) auto
    then show ?thesis by (simp add: bit_length.simps)
  next
    case False
    from 1(1)[OF 1(2) False] have a: "2 ^ (bit_length (n div 2) - 1) \<le> n div 2"
      and b: "n div 2 < 2 ^ bit_length (n div 2)" by simp_all
    have bl: "bit_length n = Suc (bit_length (n div 2))" using 1(2) by (simp add: bit_length.simps)
    have pos: "bit_length (n div 2) \<noteq> 0" using False by (simp add: bit_length.simps)
    then obtain j where j: "bit_length (n div 2) = Suc j" by (cases "bit_length (n div 2)") auto
    from a j have "2 ^ j \<le> n div 2" by simp
    then have "2 * 2 ^ j \<le> n" by simp
    moreover from b have "n < 2 * 2 ^ bit_length (n div 2)" by simp
    ultimately show ?thesis using bl j by simp
  qed
qed

text \<open>Rounding to 53 bits loses less than one part in \<open>2^53\<close>.\<close>

lemma round_to_double_lower: "n * 2 ^ 53 \<le> round_to_double n * 2 ^ 53 + n"
proof (cases "n < 2 ^ 53")
  case True
  then show ?thesis by (simp add: round_to_double_def)
next
  case False
  define k where "k = bit_length n - 53"
  define q where "q = n div 2 ^ k"
  define r where "r = n mod 2 ^ k"
  have n0: "n \<noteq> 0" using False by auto
  note bb = bit_length_bounds[OF n0]
  have "(2::nat) ^ 53 < 2 ^ bit_length n" using False bb by simp
  then have bl: "53 < bit_length n" by (simp only: power_strict_increasing_iff)
  have kk: "bit_length n - 1 = (k - 1) + 53" using bl by (simp add: k_def)
  have h: "(2::nat) ^ (k - 1) * 2 ^ 53 \<le> n" using bb kk by (simp add: power_add)
  have n: "n = q * 2 ^ k + r" unfolding q_def r_def by (rule div_mult_mod_eq[symmetric])
  have rlt: "r < 2 ^ k" by (simp add: r_def)
  have "n \<le> round_to_double n + 2 ^ (k - 1)"
  proof (cases "r < 2 ^ (k - 1) \<or> (r = 2 ^ (k - 1) \<and> even q)")
    case True
    with False have "round_to_double n = q * 2 ^ k"
      by (simp add: round_to_double_def Let_def k_def q_def r_def)
    with n True show ?thesis by auto
  next
    case nr: False
    with False have "round_to_double n = (q + 1) * 2 ^ k"
      by (simp add: round_to_double_def Let_def k_def q_def r_def)
    with n rlt show ?thesis by simp
  qed
  then have "n * 2 ^ 53 \<le> (round_to_double n + 2 ^ (k - 1)) * 2 ^ 53" by (rule mult_le_mono1)
  also have "\<dots> = round_to_double n * 2 ^ 53 + 2 ^ (k - 1) * 2 ^ 53" by (simp add: add_mult_distrib)
  finally show ?thesis using h by simp
qed

text \<open>From 2 on, the product with 1.5 exceeds the capacity.\<close>

lemma growth_exceeds:
  assumes "2 \<le> c"
  shows "c < round_to_double (3 * round_to_double c) div 2"
proof (cases "c < 2 ^ 51")
  case True
  then have "round_to_double c = c" by (simp add: round_to_double_def)
  moreover have "3 * c < 2 ^ 53" using True by simp
  then have "round_to_double (3 * c) = 3 * c" by (simp add: round_to_double_def)
  ultimately show ?thesis using assms by simp
next
  case False
  define d where "d = round_to_double c"
  define p where "p = round_to_double (3 * d)"
  from round_to_double_lower[of c] have A: "c * 2 ^ 53 \<le> d * 2 ^ 53 + c" by (simp add: d_def)
  from round_to_double_lower[of "3 * d"] have B: "3 * d * 2 ^ 53 \<le> p * 2 ^ 53 + 3 * d"
    by (simp add: p_def)
  from False have C: "(2::nat) ^ 51 \<le> c" by simp
  from A B C have "2 * c + 2 \<le> p" by simp
  then show ?thesis by (simp add: d_def p_def)
qed

text \<open>Below \<open>2^51\<close> nothing is rounded: the product is \<open>3 * capacity div 2\<close>.\<close>

lemma growth_product_small:
  assumes "unat c < 2 ^ 51"
  shows "growth_product c = Some (word_of_nat (unat c * 3 div 2))"
proof -
  have a: "round_to_double (unat c) = unat c" using assms by (simp add: round_to_double_def)
  have "3 * unat c < 2 ^ 53" using assms by simp
  then have b: "round_to_double (3 * unat c) = 3 * unat c" by (simp add: round_to_double_def)
  have "3 * unat c div 2 < 2 ^ 64" using assms by simp
  with a b show ?thesis by (simp add: growth_product_def Let_def mult.commute)
qed

lemma growth_product_unat:
  assumes "growth_product c = Some g"
  shows "unat g = round_to_double (3 * round_to_double (unat c)) div 2"
proof -
  let ?p = "round_to_double (3 * round_to_double (unat c)) div 2"
  from assms have lt: "?p < 2 ^ 64" and g: "g = word_of_nat ?p"
    by (auto simp: growth_product_def Let_def split: if_splits)
  from lt show ?thesis unfolding g by (simp add: unat_of_nat)
qed

text \<open>The test for the fallback comes after the clamp to \<open>VECTOR_INITIAL_CAPACITY\<close>, and
  the clamped product always exceeds the capacity: the fallback is never taken.\<close>

lemma grown_capacity_max:
  assumes "grown_capacity c = Some nc"
  shows "\<exists>g. growth_product c = Some g \<and> nc = max g 16 \<and> c < nc"
proof -
  from assms obtain g where g: "growth_product c = Some g"
    by (auto simp: grown_capacity_def split: Option.bind_splits)
  note u = growth_product_unat[OF g]
  have lt: "c < max g 16"
  proof (cases "unat c < 2")
    case True
    then have "unat c < unat (16 :: size_t)" by simp
    then have "c < 16" by (simp only: word_less_nat_alt)
    then show ?thesis by (simp only: less_max_iff_disj) simp
  next
    case False
    then have "2 \<le> unat c" by simp
    from growth_exceeds[OF this] u have "unat c < unat g" by simp
    then have "c < g" by (simp only: word_less_nat_alt)
    then show ?thesis by (simp only: less_max_iff_disj) simp
  qed
  then have nle: "\<not> max g 16 \<le> c" by (simp only: not_le)
  have m: "(if g < VECTOR_INITIAL_CAPACITY then VECTOR_INITIAL_CAPACITY else g) = max g 16"
    by (auto simp: max_def VECTOR_INITIAL_CAPACITY_def)
  have "grown_capacity c = Some (if max g 16 \<le> c then c + 1 else max g 16)"
    by (simp only: grown_capacity_def g Option.bind.bind_lunit Let_def m)
  also have "(if max g 16 \<le> c then c + 1 else max g 16) = max g 16"
    using nle by (simp only: if_False)
  finally have "nc = max g 16" using assms by simp
  with g lt show ?thesis by simp
qed

lemma grown_capacity_total:
  assumes "growth_product c = Some g"
  shows "grown_capacity c = Some (max g 16)"
proof -
  have "\<exists>nc. grown_capacity c = Some nc"
    using assms by (simp add: grown_capacity_def Let_def)
  then obtain nc where nc: "grown_capacity c = Some nc" by blast
  from grown_capacity_max[OF nc] assms nc show ?thesis by simp
qed

lemma grown_capacity_eq:
  assumes "unat c < 2 ^ 51"
  shows "grown_capacity c = Some (word_of_nat (max (unat c * 3 div 2) 16))"
    and "unat (word_of_nat (max (unat c * 3 div 2) 16) :: size_t) = max (unat c * 3 div 2) 16"
    and "c < word_of_nat (max (unat c * 3 div 2) 16)"
proof -
  let ?g = "unat c * 3 div 2"
  have g: "?g < 2 ^ 64" using assms by simp
  have ug: "unat (word_of_nat ?g :: size_t) = ?g"
    using g by (simp add: unat_of_nat)
  have m: "max ?g 16 < 2 ^ 64" using g by simp
  show um: "unat (word_of_nat (max ?g 16) :: size_t) = max ?g 16"
    using m by (simp add: unat_of_nat)
  have lt: "unat c < max ?g 16" using assms by (cases "unat c < 16") auto
  show "c < word_of_nat (max ?g 16)"
    using lt um by (simp add: word_less_nat_alt)
  have "max (word_of_nat ?g :: size_t) 16 = word_of_nat (max ?g 16)"
  proof (rule word_unat_eq_iff[THEN iffD2])
    have "unat (max (word_of_nat ?g :: size_t) 16) = max ?g 16"
      using ug by (simp add: max_def word_le_nat_alt)
    with um show "unat (max (word_of_nat ?g :: size_t) 16) = unat (word_of_nat (max ?g 16) :: size_t)"
      by simp
  qed
  with grown_capacity_total[OF growth_product_small[OF assms]]
  show "grown_capacity c = Some (word_of_nat (max ?g 16))" by simp
qed

lemma grown_capacity_greater:
  assumes "grown_capacity c = Some nc"
  shows "c < nc"
  using grown_capacity_max[OF assms] by blast

lemma mem_alloc_vecs: "mem_alloc n m = Some (p, m') \<Longrightarrow> vecs m' = vecs m"
  by (auto simp: mem_alloc_def split: if_splits list.splits prod.splits)

lemma mem_alloc_fail: "mem_alloc n m = Some (NULL, m') \<Longrightarrow> bufs m' = bufs m"
  by (auto simp: mem_alloc_def split: if_splits list.splits prod.splits)

lemma mem_realloc_vecs: "mem_realloc p n m = Some (q, m') \<Longrightarrow> vecs m' = vecs m"
  by (auto simp: mem_realloc_def mem_alloc_def split: if_splits list.splits prod.splits option.splits)

lemma mem_realloc_fail: "mem_realloc p n m = Some (NULL, m') \<Longrightarrow> bufs m' = bufs m"
  by (auto simp: mem_realloc_def mem_alloc_def split: if_splits list.splits prod.splits option.splits)

lemma mem_free_vecs: "mem_free p m = Some m' \<Longrightarrow> vecs m' = vecs m"
  by (auto simp: mem_free_def split: if_splits)

lemma mem_write_vecs: "mem_write p off bs m = Some m' \<Longrightarrow> vecs m' = vecs m"
  by (auto simp: mem_write_def split: if_splits option.splits)

lemma mem_move_vecs: "mem_move p d s n m = Some m' \<Longrightarrow> vecs m' = vecs m"
  by (auto simp: mem_move_def mem_write_vecs split: Option.bind_splits)

text \<open>What the growth functions do to the structure.\<close>

lemma vector_reserve_effect:
  assumes "vector_reserve vector nc m = Some (st, m')"
    and "vecs m vector = Some v" and "vector \<noteq> NULL"
  shows "st = SUCCESS \<or> st = ERROR_MEMORY_ALLOCATION"
    and "st \<noteq> SUCCESS \<Longrightarrow> vecs m' = vecs m \<and> bufs m' = bufs m"
    and "st = SUCCESS \<Longrightarrow> nc \<le> v_capacity v \<Longrightarrow> m' = m"
    and "st = SUCCESS \<Longrightarrow> v_capacity v < nc \<Longrightarrow>
           \<exists>d. vecs m' = (vecs m)(vector \<mapsto> v\<lparr>v_data := d, v_capacity := nc\<rparr>)"
proof -
  have A: "(st = SUCCESS \<or> st = ERROR_MEMORY_ALLOCATION)
     \<and> (st \<noteq> SUCCESS \<longrightarrow> vecs m' = vecs m \<and> bufs m' = bufs m)
     \<and> (st = SUCCESS \<longrightarrow> nc \<le> v_capacity v \<longrightarrow> m' = m)
     \<and> (st = SUCCESS \<longrightarrow> v_capacity v < nc \<longrightarrow>
           (\<exists>d. vecs m' = (vecs m)(vector \<mapsto> v\<lparr>v_data := d, v_capacity := nc\<rparr>)))"
  proof (cases "nc \<le> v_capacity v")
    case True
    then have "\<not> v_capacity v < nc" by simp
    with True assms show ?thesis by (simp add: vector_reserve_def)
  next
    case False
    with assms obtain nd m1 where r: "mem_realloc (v_data v) (nc * v_element_size v) m = Some (nd, m1)"
      and k: "(if nd = NULL then Some (ERROR_MEMORY_ALLOCATION, m1)
          else Some (SUCCESS, m1\<lparr>vecs := (vecs m1)(vector \<mapsto> v\<lparr>v_data := nd, v_capacity := nc\<rparr>)\<rparr>))
          = Some (st, m')"
      by (simp add: vector_reserve_def split: Option.bind_splits prod.splits)
    show ?thesis
    proof (cases "nd = NULL")
      case True
      with k r mem_realloc_vecs[OF r] mem_realloc_fail[of "v_data v" _ m m1] show ?thesis by simp
    next
      case nn: False
      with k mem_realloc_vecs[OF r] False show ?thesis by auto
    qed
  qed
  show "st = SUCCESS \<or> st = ERROR_MEMORY_ALLOCATION"
    and "st \<noteq> SUCCESS \<Longrightarrow> vecs m' = vecs m \<and> bufs m' = bufs m"
    and "st = SUCCESS \<Longrightarrow> nc \<le> v_capacity v \<Longrightarrow> m' = m"
    and "st = SUCCESS \<Longrightarrow> v_capacity v < nc \<Longrightarrow>
           \<exists>d. vecs m' = (vecs m)(vector \<mapsto> v\<lparr>v_data := d, v_capacity := nc\<rparr>)"
    using A by simp_all
qed

lemma vector_check_grow_effect:
  assumes "vector_check_grow vector m = Some (st, m')"
    and "vecs m vector = Some v" and "vector \<noteq> NULL"
  shows "st = SUCCESS \<or> st = ERROR_MEMORY_ALLOCATION"
    and "st \<noteq> SUCCESS \<Longrightarrow> vecs m' = vecs m \<and> bufs m' = bufs m"
    and "st = SUCCESS \<Longrightarrow> v_size v < v_capacity v \<Longrightarrow> m' = m"
    and "st = SUCCESS \<Longrightarrow> v_capacity v \<le> v_size v \<Longrightarrow>
           \<exists>d nc. grown_capacity (v_capacity v) = Some nc \<and>
               vecs m' = (vecs m)(vector \<mapsto> v\<lparr>v_data := d, v_capacity := nc\<rparr>)"
proof -
  have A: "(st = SUCCESS \<or> st = ERROR_MEMORY_ALLOCATION)
    \<and> (st \<noteq> SUCCESS \<longrightarrow> vecs m' = vecs m \<and> bufs m' = bufs m)
    \<and> (st = SUCCESS \<longrightarrow> v_size v < v_capacity v \<longrightarrow> m' = m)
    \<and> (st = SUCCESS \<longrightarrow> v_capacity v \<le> v_size v \<longrightarrow>
           (\<exists>d nc. grown_capacity (v_capacity v) = Some nc \<and>
               vecs m' = (vecs m)(vector \<mapsto> v\<lparr>v_data := d, v_capacity := nc\<rparr>)))"
  proof (cases "v_capacity v \<le> v_size v")
    case False
    with assms show ?thesis by (auto simp: vector_check_grow_def)
  next
    case True
    with assms obtain nc where nc: "grown_capacity (v_capacity v) = Some nc"
      and r: "vector_reserve vector nc m = Some (st, m')"
      by (auto simp: vector_check_grow_def split: Option.bind_splits)
    from grown_capacity_greater[OF nc] have lt: "v_capacity v < nc" .
    from vector_reserve_effect(1,2)[OF r assms(2,3)] vector_reserve_effect(4)[OF r assms(2,3) _ lt]
      nc True show ?thesis by auto
  qed
  show "st = SUCCESS \<or> st = ERROR_MEMORY_ALLOCATION"
    and "st \<noteq> SUCCESS \<Longrightarrow> vecs m' = vecs m \<and> bufs m' = bufs m"
    and "st = SUCCESS \<Longrightarrow> v_size v < v_capacity v \<Longrightarrow> m' = m"
    and "st = SUCCESS \<Longrightarrow> v_capacity v \<le> v_size v \<Longrightarrow>
           \<exists>d nc. grown_capacity (v_capacity v) = Some nc \<and>
               vecs m' = (vecs m)(vector \<mapsto> v\<lparr>v_data := d, v_capacity := nc\<rparr>)"
    using A by simp_all
qed

text \<open>After a successful growth check the structure differs at most in its buffer and its
  capacity, which is the old one or the grown one.\<close>

lemma vector_check_grow_success:
  assumes "vector_check_grow vector m = Some (SUCCESS, m')"
    and "vecs m vector = Some v" and "vector \<noteq> NULL"
  shows "\<exists>d c. vecs m' = (vecs m)(vector \<mapsto> v\<lparr>v_data := d, v_capacity := c\<rparr>) \<and>
           (if v_size v < v_capacity v then c = v_capacity v \<and> d = v_data v
            else grown_capacity (v_capacity v) = Some c)"
proof (cases "v_size v < v_capacity v")
  case True
  from vector_check_grow_effect(3)[OF assms refl True] have "m' = m" .
  then have "vecs m' = (vecs m)(vector \<mapsto> v\<lparr>v_data := v_data v, v_capacity := v_capacity v\<rparr>)"
    using assms(2) by (simp add: fun_upd_idem)
  with True show ?thesis by auto
next
  case False
  then have "v_capacity v \<le> v_size v" by simp
  from vector_check_grow_effect(4)[OF assms refl this] False show ?thesis by auto
qed

lemma vector_push_back_effect:
  assumes "vector_push_back vector (Some e) m = Some (st, m')"
    and "vecs m vector = Some v" and "vector \<noteq> NULL"
  shows "st = SUCCESS \<or> st = ERROR_MEMORY_ALLOCATION"
    and "st \<noteq> SUCCESS \<Longrightarrow> vecs m' = vecs m \<and> bufs m' = bufs m"
    and "st = SUCCESS \<Longrightarrow>
           \<exists>d c. vecs m' = (vecs m)(vector \<mapsto> v\<lparr>v_data := d, v_capacity := c,
                                                  v_size := v_size v + 1\<rparr>) \<and>
             (if v_size v < v_capacity v then c = v_capacity v \<and> d = v_data v
              else grown_capacity (v_capacity v) = Some c)"
proof -
  from assms obtain st1 m1 where g: "vector_check_grow vector m = Some (st1, m1)"
    by (auto simp: vector_push_back_def split: Option.bind_splits)
  note ge = vector_check_grow_effect[OF g assms(2,3)]
  have A: "(st = SUCCESS \<or> st = ERROR_MEMORY_ALLOCATION)
    \<and> (st \<noteq> SUCCESS \<longrightarrow> vecs m' = vecs m \<and> bufs m' = bufs m)
    \<and> (st = SUCCESS \<longrightarrow>
           (\<exists>d c. vecs m' = (vecs m)(vector \<mapsto> v\<lparr>v_data := d, v_capacity := c,
                                                  v_size := v_size v + 1\<rparr>) \<and>
             (if v_size v < v_capacity v then c = v_capacity v \<and> d = v_data v
              else grown_capacity (v_capacity v) = Some c)))"
  proof (cases "st1 = SUCCESS")
    case False
    with assms g have "st = st1" "m' = m1" by (auto simp: vector_push_back_def)
    with ge(1,2) False show ?thesis by auto
  next
    case True
    with assms g obtain v1 src m2 where v1: "vecs m1 vector = Some v1"
      and w: "mem_write (v_data v1) (unat (v_size v1 * v_element_size v1)) src m1 = Some m2"
      and st: "st = SUCCESS" and m': "m' = m2\<lparr>vecs := (vecs m2)(vector \<mapsto> v1\<lparr>v_size := v_size v1 + 1\<rparr>)\<rparr>"
      by (auto simp: vector_push_back_def split: Option.bind_splits)
    from mem_write_vecs[OF w] have e2: "vecs m2 = vecs m1" .
    from vector_check_grow_success[OF g[unfolded True] assms(2,3)]
    obtain d c where dc: "vecs m1 = (vecs m)(vector \<mapsto> v\<lparr>v_data := d, v_capacity := c\<rparr>)"
      and c: "if v_size v < v_capacity v then c = v_capacity v \<and> d = v_data v
            else grown_capacity (v_capacity v) = Some c" by blast
    from dc v1 have v1': "v1 = v\<lparr>v_data := d, v_capacity := c\<rparr>" by simp
    have "vecs m' = (vecs m)(vector \<mapsto> v\<lparr>v_data := d, v_capacity := c, v_size := v_size v + 1\<rparr>)"
      using m' e2 dc v1' by simp
    with c st show ?thesis by blast
  qed
  show "st = SUCCESS \<or> st = ERROR_MEMORY_ALLOCATION"
    and "st \<noteq> SUCCESS \<Longrightarrow> vecs m' = vecs m \<and> bufs m' = bufs m"
    and "st = SUCCESS \<Longrightarrow>
           \<exists>d c. vecs m' = (vecs m)(vector \<mapsto> v\<lparr>v_data := d, v_capacity := c,
                                                  v_size := v_size v + 1\<rparr>) \<and>
             (if v_size v < v_capacity v then c = v_capacity v \<and> d = v_data v
              else grown_capacity (v_capacity v) = Some c)"
    using A by simp_all
qed

lemma vector_insert_effect:
  assumes "vector_insert vector index (Some e) m = Some (st, m')"
    and "vecs m vector = Some v" and "vector \<noteq> NULL" and "v_size v \<le> v_capacity v"
  shows "st = SUCCESS \<or> st = ERROR_MEMORY_ALLOCATION \<or> st = ERROR_INDEX_OUT_OF_BOUNDS"
    and "st = ERROR_INDEX_OUT_OF_BOUNDS \<longleftrightarrow> v_size v < index"
    and "st \<noteq> SUCCESS \<Longrightarrow> vecs m' = vecs m \<and> bufs m' = bufs m"
    and "st = SUCCESS \<Longrightarrow>
           \<exists>d c. vecs m' = (vecs m)(vector \<mapsto> v\<lparr>v_data := d, v_capacity := c,
                                                  v_size := v_size v + 1\<rparr>) \<and>
             (if v_size v < v_capacity v then c = v_capacity v \<and> d = v_data v
              else grown_capacity (v_capacity v) = Some c)"
proof -
  let ?post = "\<lambda>st m'. (st = SUCCESS \<or> st = ERROR_MEMORY_ALLOCATION \<or> st = ERROR_INDEX_OUT_OF_BOUNDS)
     \<and> (st = ERROR_INDEX_OUT_OF_BOUNDS \<longleftrightarrow> v_size v < index)
     \<and> (st \<noteq> SUCCESS \<longrightarrow> vecs m' = vecs m \<and> bufs m' = bufs m)
     \<and> (st = SUCCESS \<longrightarrow>
           (\<exists>d c. vecs m' = (vecs m)(vector \<mapsto> v\<lparr>v_data := d, v_capacity := c,
                                                  v_size := v_size v + 1\<rparr>) \<and>
             (if v_size v < v_capacity v then c = v_capacity v \<and> d = v_data v
              else grown_capacity (v_capacity v) = Some c)))"
  have A: "?post st m'"
  proof (cases "v_size v < index")
    case True
    with assms show ?thesis by (simp add: vector_insert_def)
  next
    case le: False
    with assms obtain st1 m1 where g: "vector_check_grow vector m = Some (st1, m1)"
      by (auto simp: vector_insert_def split: Option.bind_splits)
    note ge = vector_check_grow_effect[OF g assms(2,3)]
    show ?thesis
    proof (cases "st1 = SUCCESS")
      case False
      with assms g le have "st = st1" "m' = m1" by (auto simp: vector_insert_def)
      with ge(1,2) False le show ?thesis by auto
    next
      case True
      from vector_check_grow_success[OF g[unfolded True] assms(2,3)]
      obtain d c where dc: "vecs m1 = (vecs m)(vector \<mapsto> v\<lparr>v_data := d, v_capacity := c\<rparr>)"
        and c: "if v_size v < v_capacity v then c = v_capacity v \<and> d = v_data v
              else grown_capacity (v_capacity v) = Some c" by blast
      let ?v1 = "v\<lparr>v_data := d, v_capacity := c\<rparr>"
      have v1: "vecs m1 vector = Some ?v1" using dc by simp
      have szc: "v_size v < c"
      proof (cases "v_size v < v_capacity v")
        case True with c show ?thesis by simp
      next
        case False
        with c have "grown_capacity (v_capacity v) = Some c" by simp
        from grown_capacity_greater[OF this] assms(4) show ?thesis by simp
      qed
      show ?thesis
      proof (cases "index = v_size v")
        case True
        with assms g le \<open>st1 = SUCCESS\<close> v1
        have pb: "vector_push_back vector (Some e) m1 = Some (st, m')"
          by (simp add: vector_insert_def)
        note pe = vector_push_back_effect[OF pb v1 assms(3)]
        have "st = SUCCESS \<or> st = ERROR_MEMORY_ALLOCATION" by (rule pe(1))
        then show ?thesis
        proof
          assume s: "st = SUCCESS"
          from pe(3)[OF s] szc obtain d' c' where
            "vecs m' = (vecs m1)(vector \<mapsto> ?v1\<lparr>v_data := d', v_capacity := c', v_size := v_size ?v1 + 1\<rparr>)"
            and "c' = c \<and> d' = d" by auto
          then have "vecs m' = (vecs m)(vector \<mapsto> v\<lparr>v_data := d, v_capacity := c, v_size := v_size v + 1\<rparr>)"
            using dc by simp
          then have E: "\<exists>d c. vecs m' = (vecs m)(vector \<mapsto> v\<lparr>v_data := d, v_capacity := c,
                                                  v_size := v_size v + 1\<rparr>) \<and>
             (if v_size v < v_capacity v then c = v_capacity v \<and> d = v_data v
              else grown_capacity (v_capacity v) = Some c)"
            using c by blast
          with s True show ?thesis by simp
        next
          assume s: "st = ERROR_MEMORY_ALLOCATION"
          from pb have False
            using v1 szc s assms(3)
            by (auto simp: vector_push_back_def vector_check_grow_def
                     split: Option.bind_splits if_splits)
          then show ?thesis ..
        qed
      next
        case ne: False
        with assms g le True v1 obtain m3 where
          st: "st = SUCCESS" and m': "m' = m3\<lparr>vecs := (vecs m3)(vector \<mapsto> ?v1\<lparr>v_size := v_size ?v1 + 1\<rparr>)\<rparr>"
          and "vecs m3 = vecs m1"
          by (auto simp: vector_insert_def mem_move_vecs mem_write_vecs
                   split: Option.bind_splits)
        then have "vecs m' = (vecs m)(vector \<mapsto> v\<lparr>v_data := d, v_capacity := c, v_size := v_size v + 1\<rparr>)"
          using dc by simp
        then have E: "\<exists>d c. vecs m' = (vecs m)(vector \<mapsto> v\<lparr>v_data := d, v_capacity := c,
                                                  v_size := v_size v + 1\<rparr>) \<and>
             (if v_size v < v_capacity v then c = v_capacity v \<and> d = v_data v
              else grown_capacity (v_capacity v) = Some c)"
            using c by blast
        with st le show ?thesis by simp
      qed
    qed
  qed
  show "st = SUCCESS \<or> st = ERROR_MEMORY_ALLOCATION \<or> st = ERROR_INDEX_OUT_OF_BOUNDS"
    and "st = ERROR_INDEX_OUT_OF_BOUNDS \<longleftrightarrow> v_size v < index"
    and "st \<noteq> SUCCESS \<Longrightarrow> vecs m' = vecs m \<and> bufs m' = bufs m"
    and "st = SUCCESS \<Longrightarrow>
           \<exists>d c. vecs m' = (vecs m)(vector \<mapsto> v\<lparr>v_data := d, v_capacity := c,
                                                  v_size := v_size v + 1\<rparr>) \<and>
             (if v_size v < v_capacity v then c = v_capacity v \<and> d = v_data v
              else grown_capacity (v_capacity v) = Some c)"
    using A by blast+
qed

subsection \<open>Footprints\<close>

lemma mem_alloc_frame:
  assumes "mem_alloc n m = Some (q, m')"
  shows "q = NULL \<or> bufs m q = None"
    and "bufs m b \<noteq> None \<Longrightarrow> bufs m' b = bufs m b"
  using assms by (auto simp: mem_alloc_def split: if_splits list.splits)

lemma mem_realloc_frame:
  assumes "mem_realloc p n m = Some (q, m')"
  shows "q = NULL \<or> q = p \<or> bufs m q = None"
    and "b \<noteq> p \<Longrightarrow> bufs m b \<noteq> None \<Longrightarrow> bufs m' b = bufs m b"
proof -
  show "q = NULL \<or> q = p \<or> bufs m q = None"
  proof (cases "p = NULL \<and> n \<noteq> 0")
    case True
    with assms have "mem_alloc n m = Some (q, m')" by (simp add: mem_realloc_def)
    from mem_alloc_frame(1)[OF this] show ?thesis by auto
  next
    case False
    with assms show ?thesis
      by (auto simp: mem_realloc_def split: if_splits list.splits option.splits)
  qed
  show "b \<noteq> p \<Longrightarrow> bufs m b \<noteq> None \<Longrightarrow> bufs m' b = bufs m b"
  proof (cases "p = NULL \<and> n \<noteq> 0")
    case True
    with assms have "mem_alloc n m = Some (q, m')" by (simp add: mem_realloc_def)
    from mem_alloc_frame(2)[OF this] show "bufs m b \<noteq> None \<Longrightarrow> bufs m' b = bufs m b" .
  next
    case False
    assume "b \<noteq> p" "bufs m b \<noteq> None"
    with False assms show "bufs m' b = bufs m b"
      by (auto simp: mem_realloc_def split: if_splits list.splits option.splits)
  qed
qed

lemma mem_free_frame: "mem_free p m = Some m' \<Longrightarrow> b \<noteq> p \<Longrightarrow> bufs m' b = bufs m b"
  by (auto simp: mem_free_def split: if_splits)

lemma mem_write_frame: "mem_write p off bs m = Some m' \<Longrightarrow> b \<noteq> p \<Longrightarrow> bufs m' b = bufs m b"
  by (auto simp: mem_write_def split: if_splits option.splits)

lemma mem_move_frame: "mem_move p d s n m = Some m' \<Longrightarrow> b \<noteq> p \<Longrightarrow> bufs m' b = bufs m b"
  by (auto simp: mem_move_def mem_write_frame split: Option.bind_splits)

lemma mem_write_plan: "mem_write p off bs m = Some m' \<Longrightarrow> vplan m' = vplan m"
  by (auto simp: mem_write_def split: if_splits option.splits)

lemma vec_step_same:
  assumes "vecs m p = Some v" and "vecs m' = vecs m" and "bufs m' = bufs m"
  shows "vec_step m m' p v v"
  using assms by (simp add: vec_step_def map_upd_triv)

lemma vec_step_fields:
  assumes "vecs m p = Some v" and "vecs m' = (vecs m)(p \<mapsto> v')" and "bufs m' = bufs m"
    and "v_element_size v' = v_element_size v" and "v_data v' = v_data v"
  shows "vec_step m m' p v v'"
  using assms by (simp add: vec_step_def)

lemma vec_step_trans:
  assumes 1: "vec_step m m1 p v v1" and 2: "vec_step m1 m2 p v1 v2"
  shows "vec_step m m2 p v v2"
proof -
  have a: "vecs m2 = (vecs m)(p \<mapsto> v2)" using 1 2 by (simp add: vec_step_def)
  have b: "v_element_size v2 = v_element_size v" using 1 2 by (simp add: vec_step_def)
  have fr1: "\<And>b. b \<noteq> v_data v \<Longrightarrow> b \<noteq> NULL \<Longrightarrow> bufs m b \<noteq> None \<Longrightarrow> bufs m1 b = bufs m b"
    using 1 by (simp add: vec_step_def)
  have fr2: "\<And>b. b \<noteq> v_data v1 \<Longrightarrow> b \<noteq> NULL \<Longrightarrow> bufs m1 b \<noteq> None \<Longrightarrow> bufs m2 b = bufs m1 b"
    using 2 by (simp add: vec_step_def)
  have d1: "v_data v1 = v_data v \<or> v_data v1 = NULL \<or> bufs m (v_data v1) = None"
    using 1 by (simp add: vec_step_def)
  have d2: "v_data v2 = v_data v1 \<or> v_data v2 = NULL \<or> bufs m1 (v_data v2) = None"
    using 2 by (simp add: vec_step_def)
  have c: "v_data v2 = v_data v \<or> v_data v2 = NULL \<or> bufs m (v_data v2) = None"
  proof (rule ccontr)
    assume n: "\<not> ?thesis"
    then have x: "v_data v2 \<noteq> v_data v" "v_data v2 \<noteq> NULL" "bufs m (v_data v2) \<noteq> None" by auto
    from fr1[OF x] x(3) have "bufs m1 (v_data v2) \<noteq> None" by simp
    with d2 x have "v_data v2 = v_data v1" by auto
    with d1 x show False by auto
  qed
  have d: "\<And>b. b \<noteq> v_data v \<Longrightarrow> b \<noteq> NULL \<Longrightarrow> bufs m b \<noteq> None \<Longrightarrow> bufs m2 b = bufs m b"
  proof -
    fix b assume x: "b \<noteq> v_data v" "b \<noteq> NULL" "bufs m b \<noteq> None"
    from fr1[OF x] have e: "bufs m1 b = bufs m b" .
    from d1 x have "b \<noteq> v_data v1" by auto
    from fr2[OF this x(2)] e x(3) show "bufs m2 b = bufs m b" by simp
  qed
  from a b c d show ?thesis unfolding vec_step_def by blast
qed

lemma vector_reserve_step:
  assumes r: "vector_reserve vector nc m = Some (st, m')"
    and v: "vecs m vector = Some v" and nn: "vector \<noteq> NULL"
  shows "\<exists>v'. vec_step m m' vector v v' \<and> v_capacity v \<le> v_capacity v' \<and> v_size v' = v_size v"
proof (cases "nc \<le> v_capacity v")
  case True
  with r v nn have "m' = m" by (simp add: vector_reserve_def)
  with vec_step_same[OF v] show ?thesis by auto
next
  case False
  with r v nn obtain nd m1 where re: "mem_realloc (v_data v) (nc * v_element_size v) m = Some (nd, m1)"
    and k: "(if nd = NULL then Some (ERROR_MEMORY_ALLOCATION, m1)
        else Some (SUCCESS, m1\<lparr>vecs := (vecs m1)(vector \<mapsto> v\<lparr>v_data := nd, v_capacity := nc\<rparr>)\<rparr>))
        = Some (st, m')"
    by (simp add: vector_reserve_def split: Option.bind_splits prod.splits)
  show ?thesis
  proof (cases "nd = NULL")
    case True
    with k have "m' = m1" by simp
    with mem_realloc_vecs[OF re] mem_realloc_fail[of "v_data v" _ m m1] re True
    have "vecs m' = vecs m" "bufs m' = bufs m" by simp_all
    from vec_step_same[OF v this] show ?thesis by auto
  next
    case nz: False
    let ?v' = "v\<lparr>v_data := nd, v_capacity := nc\<rparr>"
    from k nz have m': "m' = m1\<lparr>vecs := (vecs m1)(vector \<mapsto> ?v')\<rparr>" by simp
    have a: "vecs m' = (vecs m)(vector \<mapsto> ?v')" using m' mem_realloc_vecs[OF re] by simp
    have b: "bufs m' = bufs m1" using m' by simp
    have c: "v_data ?v' = v_data v \<or> v_data ?v' = NULL \<or> bufs m (v_data ?v') = None"
      using mem_realloc_frame(1)[OF re] by auto
    have d: "\<forall>b. b \<noteq> v_data v \<longrightarrow> b \<noteq> NULL \<longrightarrow> bufs m b \<noteq> None \<longrightarrow> bufs m' b = bufs m b"
      using mem_realloc_frame(2)[OF re] b by simp
    have "vec_step m m' vector v ?v'" unfolding vec_step_def using a c d by simp
    moreover have "v_capacity v \<le> v_capacity ?v'" using False by simp
    ultimately show ?thesis by auto
  qed
qed

lemma vector_check_grow_step:
  assumes r: "vector_check_grow vector m = Some (st, m')"
    and v: "vecs m vector = Some v" and nn: "vector \<noteq> NULL"
  shows "\<exists>v'. vec_step m m' vector v v' \<and> v_capacity v \<le> v_capacity v' \<and> v_size v' = v_size v"
proof (cases "v_capacity v \<le> v_size v")
  case False
  with r v have "m' = m" by (simp add: vector_check_grow_def)
  with vec_step_same[OF v] show ?thesis by auto
next
  case True
  with r v obtain nc where "vector_reserve vector nc m = Some (st, m')"
    by (auto simp: vector_check_grow_def split: Option.bind_splits)
  from vector_reserve_step[OF this v nn] show ?thesis .
qed

text \<open>Writing into the own buffer of the vector and then updating its size.\<close>

lemma vec_step_write:
  assumes v: "vecs m vector = Some v"
    and fr: "\<And>b. b \<noteq> v_data v \<Longrightarrow> bufs m1 b = bufs m b"
    and ve: "vecs m1 = vecs m"
    and m': "m' = m1\<lparr>vecs := (vecs m1)(vector \<mapsto> v\<lparr>v_size := n\<rparr>)\<rparr>"
  shows "vec_step m m' vector v (v\<lparr>v_size := n\<rparr>)"
  unfolding vec_step_def using assms by simp

lemma vector_push_back_step:
  assumes r: "vector_push_back vector e m = Some (st, m')"
    and v: "vecs m vector = Some v" and nn: "vector \<noteq> NULL"
  shows "\<exists>v'. vec_step m m' vector v v' \<and> v_capacity v \<le> v_capacity v'"
proof (cases e)
  case None
  with r have "m' = m" by (simp add: vector_push_back_def)
  with vec_step_same[OF v] show ?thesis by auto
next
  case (Some bs)
  with r nn obtain st1 m1 where g: "vector_check_grow vector m = Some (st1, m1)"
    by (auto simp: vector_push_back_def split: Option.bind_splits)
  from vector_check_grow_step[OF g v nn] obtain v1 where
    s1: "vec_step m m1 vector v v1" and c1: "v_capacity v \<le> v_capacity v1" by blast
  have v1: "vecs m1 vector = Some v1" using s1 by (simp add: vec_step_def)
  show ?thesis
  proof (cases "st1 = SUCCESS")
    case False
    with r g Some nn have "m' = m1" by (auto simp: vector_push_back_def)
    with s1 c1 show ?thesis by auto
  next
    case True
    with r g Some nn v1 obtain src m2 where
      w: "mem_write (v_data v1) (unat (v_size v1 * v_element_size v1)) src m1 = Some m2"
      and m': "m' = m2\<lparr>vecs := (vecs m2)(vector \<mapsto> v1\<lparr>v_size := v_size v1 + 1\<rparr>)\<rparr>"
      by (auto simp: vector_push_back_def split: Option.bind_splits)
    have "vec_step m1 m' vector v1 (v1\<lparr>v_size := v_size v1 + 1\<rparr>)"
      using vec_step_write[OF v1 mem_write_frame[OF w] mem_write_vecs[OF w] m'] .
    from vec_step_trans[OF s1 this] c1 show ?thesis by auto
  qed
qed

section \<open>Properties of the doubly linked list\<close>

subsection \<open>Chains\<close>

lemma distinct_ptrs_length:
  fixes xs :: "ptr list"
  assumes "distinct xs" and "NULL \<notin> set xs"
  shows "length xs < 2 ^ 64"
proof -
  have "set xs \<subseteq> UNIV - {NULL}" using assms(2) by auto
  then have "card (set xs) \<le> card (UNIV - {NULL :: ptr})"
    by (intro card_mono) auto
  also have "\<dots> = 2 ^ 64 - 1" by (simp add: card_Diff_singleton card_word)
  finally have "card (set xs) \<le> 2 ^ 64 - 1" .
  with distinct_card[OF assms(1)] show ?thesis by simp
qed

lemma dl_path_imp_chain:
  "dl_path h n pv p = Some (as, q) \<Longrightarrow> length as = n \<and> dl_chain h pv p as q"
proof (induction n arbitrary: pv p as)
  case 0
  then show ?case by simp
next
  case (Suc n)
  from Suc.prems obtain nd bs where nn: "p \<noteq> NULL" and nd: "h p = Some nd"
    and pv: "dn_prev nd = pv" and r: "dl_path h n p (dn_next nd) = Some (bs, q)"
    and as: "as = p # bs"
    by (simp split: if_splits option.splits prod.splits)
  from Suc.IH[OF r] nn nd pv as show ?case by simp
qed

lemma dl_chain_imp_path:
  "dl_chain h pv p as q \<Longrightarrow> dl_path h (length as) pv p = Some (as, q)"
proof (induction as arbitrary: pv p)
  case Nil
  then show ?case by simp
next
  case (Cons a as)
  from Cons.prems obtain nd where pa: "p = a" "a \<noteq> NULL" and nd: "h a = Some nd"
    and pv: "dn_prev nd = pv" and c: "dl_chain h a (dn_next nd) as q"
    by (simp split: option.splits)
  from Cons.IH[OF c] pa nd pv show ?case by simp
qed

lemma dl_path_chain:
  "dl_path h n pv p = Some (as, q) \<longleftrightarrow> length as = n \<and> dl_chain h pv p as q"
  using dl_path_imp_chain dl_chain_imp_path by blast

lemma dl_chain_null [simp]: "dl_chain h pv NULL as q \<longleftrightarrow> as = [] \<and> q = NULL"
  by (cases as) auto

lemma dl_chain_frame:
  "u \<notin> set as \<Longrightarrow> dl_chain (h(u := x)) pv p as q = dl_chain h pv p as q"
  by (induction as arbitrary: pv p) (auto split: option.splits)

lemma dl_chain_append:
  "dl_chain h pv p (as @ bs) q \<longleftrightarrow>
     (\<exists>r. dl_chain h pv p as r \<and> dl_chain h (if as = [] then pv else last as) r bs q)"
  by (induction as arbitrary: pv p) (auto split: option.splits)

lemma dl_chain_notnull: "dl_chain h pv p as q \<Longrightarrow> NULL \<notin> set as"
  by (induction as arbitrary: pv p) (auto split: option.splits)

lemma dl_chain_live: "dl_chain h pv p as q \<Longrightarrow> a \<in> set as \<Longrightarrow> h a \<noteq> None"
  by (induction as arbitrary: pv p) (auto split: option.splits)

lemma dl_chain_unique:
  "dl_chain h pv p as NULL \<Longrightarrow> dl_chain h pv' p bs NULL \<Longrightarrow> as = bs"
proof (induction as arbitrary: pv pv' p bs)
  case Nil
  then show ?case by (cases bs) auto
next
  case (Cons a as)
  then show ?case by (cases bs) (auto split: option.splits)
qed

lemma dl_chain_head_notin:
  assumes "dl_chain h pv a (a # as) NULL"
  shows "a \<notin> set as"
proof
  assume "a \<in> set as"
  then obtain xs ys where s: "as = xs @ a # ys" by (auto simp: in_set_conv_decomp)
  from assms obtain n where n: "h a = Some n" and c: "dl_chain h a (dn_next n) (xs @ a # ys) NULL"
    using s by (auto split: option.splits)
  from c obtain pv' where "dl_chain h pv' a (a # ys) NULL"
    by (auto simp: dl_chain_append split: option.splits)
  from dl_chain_unique[OF assms this] s show False by simp
qed

lemma dl_chain_distinct: "dl_chain h pv p as NULL \<Longrightarrow> distinct as"
proof (induction as arbitrary: pv p)
  case Nil
  then show ?case by simp
next
  case (Cons a as)
  from Cons.prems have pa: "p = a" by simp
  from Cons.prems obtain n where "h a = Some n" and "dl_chain h a (dn_next n) as NULL"
    by (auto split: option.splits)
  from Cons.IH[OF this(2)] dl_chain_head_notin[of h pv a as] Cons.prems pa
  show ?case by simp
qed

text \<open>The links of the node at position \<open>i\<close> of a chain.\<close>

lemma dl_chain_nth:
  assumes "dl_chain h pv p as q" and "i < length as"
  shows "\<exists>n. h (as ! i) = Some n \<and>
           dn_next n = (if Suc i < length as then as ! Suc i else q) \<and>
           dn_prev n = (if i = 0 then pv else as ! (i - 1))"
  using assms
proof (induction as arbitrary: pv p i)
  case Nil
  then show ?case by simp
next
  case (Cons a as)
  from Cons.prems(1) obtain n where n: "h a = Some n" "dn_prev n = pv"
    and c: "dl_chain h a (dn_next n) as q"
    by (auto split: option.splits)
  show ?case
  proof (cases i)
    case 0
    with n c show ?thesis by (cases as) auto
  next
    case (Suc j)
    with Cons.prems(2) have j: "j < length as" by simp
    from Cons.IH[OF c j] Suc show ?thesis by (cases j) auto
  qed
qed

lemma dl_chain_start: "dl_chain h pv p as q \<Longrightarrow> as \<noteq> [] \<Longrightarrow> p = hd as"
  by (cases as) auto

lemma dl_inv_abs: "dl_inv m list \<longleftrightarrow> (\<exists>L as. dl_abs m list L as)"
proof
  assume "dl_inv m list"
  then obtain L as q where L: "dlists m list = Some L" "list \<noteq> NULL"
    and p: "dl_path (dnodes m) (unat (dl_size L)) NULL (dl_head L) = Some (as, q)"
    and q: "q = NULL" "dl_tail L = (if as = [] then NULL else last as)"
    by (auto simp: dl_inv_def split: option.splits)
  from p have "length as = unat (dl_size L)" "dl_chain (dnodes m) NULL (dl_head L) as q"
    by (simp_all add: dl_path_chain)
  with L q have "dl_abs m list L as" by (simp add: dl_abs_def)
  then show "\<exists>L as. dl_abs m list L as" by blast
next
  assume "\<exists>L as. dl_abs m list L as"
  then obtain L as where a: "dl_abs m list L as" by blast
  then have "dl_path (dnodes m) (unat (dl_size L)) NULL (dl_head L) = Some (as, NULL)"
    by (simp add: dl_abs_def dl_path_chain)
  with a show "dl_inv m list" by (simp add: dl_inv_def dl_abs_def)
qed

lemma dl_abs_nodes: "dl_abs m list L as \<Longrightarrow> dl_nodes m list = as"
proof -
  assume a: "dl_abs m list L as"
  then have "dl_path (dnodes m) (unat (dl_size L)) NULL (dl_head L) = Some (as, NULL)"
    by (simp add: dl_abs_def dl_path_chain)
  with a show ?thesis by (simp add: dl_nodes_def dl_abs_def)
qed

lemma dl_abs_contents: "dl_abs m list L as \<Longrightarrow> dl_contents m list = dl_data m as"
  by (simp add: dl_contents_def dl_data_def dl_abs_nodes)

lemma dl_abs_unique: "dl_abs m list L as \<Longrightarrow> dl_abs m list L' bs \<Longrightarrow> L' = L \<and> bs = as"
  by (auto simp: dl_abs_def dest: dl_chain_unique)

subsection \<open>Splicing a node into and out of a chain\<close>

lemma dl_chain_cong:
  "(\<And>a. a \<in> set as \<Longrightarrow> h' a = h a) \<Longrightarrow> dl_chain h' pv p as q = dl_chain h pv p as q"
  by (induction as arbitrary: pv p) (auto split: option.splits)

lemma dl_data_cong:
  assumes "\<And>a. a \<in> set as \<Longrightarrow> map_option dn_data (dnodes m' a) = map_option dn_data (dnodes m a)"
  shows "dl_data m' as = dl_data m as"
proof -
  have "\<And>a. a \<in> set as \<Longrightarrow>
          (case dnodes m' a of None \<Rightarrow> [] | Some n \<Rightarrow> dn_data n) =
          (case dnodes m a of None \<Rightarrow> [] | Some n \<Rightarrow> dn_data n)"
  proof -
    fix a assume "a \<in> set as"
    from assms[OF this] show "(case dnodes m' a of None \<Rightarrow> [] | Some n \<Rightarrow> dn_data n) =
          (case dnodes m a of None \<Rightarrow> [] | Some n \<Rightarrow> dn_data n)"
      by (cases "dnodes m' a"; cases "dnodes m a") auto
  qed
  then show ?thesis by (simp add: dl_data_def)
qed

text \<open>A new node between the nodes \<open>xs\<close> and the nodes \<open>ys\<close> of a chain.\<close>

lemma dl_splice_in:
  assumes "dl_chain h pv p (xs @ ys) q"
    and "distinct (xs @ ys)" and "new \<notin> set (xs @ ys)" and "new \<noteq> NULL"
    and "h' new = Some n"
    and "dn_prev n = (if xs = [] then pv else last xs)"
    and "dn_next n = (if ys = [] then q else hd ys)"
    and "xs \<noteq> [] \<Longrightarrow> \<exists>old. h (last xs) = Some old \<and> h' (last xs) = Some (old\<lparr>dn_next := new\<rparr>)"
    and "ys \<noteq> [] \<Longrightarrow> \<exists>old. h (hd ys) = Some old \<and> h' (hd ys) = Some (old\<lparr>dn_prev := new\<rparr>)"
    and "\<And>a. a \<in> set (xs @ ys) \<Longrightarrow> (xs \<noteq> [] \<Longrightarrow> a \<noteq> last xs) \<Longrightarrow> (ys \<noteq> [] \<Longrightarrow> a \<noteq> hd ys)
           \<Longrightarrow> h' a = h a"
  shows "dl_chain h' pv (if xs = [] then new else p) (xs @ new # ys) q"
  using assms
proof (induction xs arbitrary: pv p)
  case Nil
  show ?case
  proof (cases ys)
    case Nil
    with Nil.prems show ?thesis by simp
  next
    case (Cons y ys')
    from Nil.prems(1) Cons obtain oy where py: "p = y" "y \<noteq> NULL" and oy: "h y = Some oy"
      and c: "dl_chain h y (dn_next oy) ys' q"
      by (auto split: option.splits)
    from Nil.prems(9) Cons oy have h'y: "h' y = Some (oy\<lparr>dn_prev := new\<rparr>)" by auto
    have "\<And>a. a \<in> set ys' \<Longrightarrow> h' a = h a"
      using Nil.prems(2,10) Cons by auto
    from dl_chain_cong[of ys' h' h, OF this] c
    have "dl_chain h' y (dn_next oy) ys' q" by simp
    with Nil.prems(4,5,6,7) Cons py h'y show ?thesis by simp
  qed
next
  case (Cons x xs')
  from Cons.prems(1) obtain ox where px: "p = x" "x \<noteq> NULL" and ox: "h x = Some ox"
    and pvx: "dn_prev ox = pv" and c: "dl_chain h x (dn_next ox) (xs' @ ys) q"
    by (auto split: option.splits)
  show ?case
  proof (cases "xs' = []")
    case True
    from Cons.prems(8) True ox have h'x: "h' x = Some (ox\<lparr>dn_next := new\<rparr>)" by auto
    have "dl_chain h' x new ([] @ new # ys) q"
    proof -
      have "dl_chain h' x (if ([]::ptr list) = [] then new else dn_next ox) ([] @ new # ys) q"
      proof (rule Cons.IH[where p="dn_next ox" and pv=x, unfolded True])
        show "dl_chain h x (dn_next ox) ([] @ ys) q" using c True by simp
        show "distinct ([] @ ys)" using Cons.prems(2) by simp
        show "new \<notin> set ([] @ ys)" using Cons.prems(3) by simp
        show "new \<noteq> NULL" by fact
        show "h' new = Some n" by fact
        show "dn_prev n = (if ([]::ptr list) = [] then x else last [])"
          using Cons.prems(6) True by simp
        show "dn_next n = (if ys = [] then q else hd ys)" by fact
        show "([]::ptr list) \<noteq> [] \<Longrightarrow> \<exists>old. h (last []) = Some old \<and> h' (last []) = Some (old\<lparr>dn_next := new\<rparr>)"
          by simp
        show "ys \<noteq> [] \<Longrightarrow> \<exists>old. h (hd ys) = Some old \<and> h' (hd ys) = Some (old\<lparr>dn_prev := new\<rparr>)"
          by fact
        show "\<And>a. a \<in> set ([] @ ys) \<Longrightarrow> (([]::ptr list) \<noteq> [] \<Longrightarrow> a \<noteq> last []) \<Longrightarrow>
                 (ys \<noteq> [] \<Longrightarrow> a \<noteq> hd ys) \<Longrightarrow> h' a = h a"
          using Cons.prems(2,10) True by auto
      qed
      then show ?thesis by simp
    qed
    with True px h'x pvx show ?thesis by simp
  next
    case False
    have xl: "x \<noteq> last xs'" using Cons.prems(2) False by auto
    have xh: "ys \<noteq> [] \<Longrightarrow> x \<noteq> hd ys" using Cons.prems(2) by (cases ys) auto
    have h'x: "h' x = h x"
      using Cons.prems(10)[of x] False xl xh by simp
    have "dl_chain h' x (if xs' = [] then new else dn_next ox) (xs' @ new # ys) q"
    proof (rule Cons.IH)
      show "dl_chain h x (dn_next ox) (xs' @ ys) q" by fact
      show "distinct (xs' @ ys)" using Cons.prems(2) by simp
      show "new \<notin> set (xs' @ ys)" using Cons.prems(3) by simp
      show "new \<noteq> NULL" by fact
      show "h' new = Some n" by fact
      show "dn_prev n = (if xs' = [] then x else last xs')" using Cons.prems(6) False by simp
      show "dn_next n = (if ys = [] then q else hd ys)" by fact
      show "xs' \<noteq> [] \<Longrightarrow> \<exists>old. h (last xs') = Some old \<and> h' (last xs') = Some (old\<lparr>dn_next := new\<rparr>)"
        using Cons.prems(8) False by simp
      show "ys \<noteq> [] \<Longrightarrow> \<exists>old. h (hd ys) = Some old \<and> h' (hd ys) = Some (old\<lparr>dn_prev := new\<rparr>)"
        by fact
      show "\<And>a. a \<in> set (xs' @ ys) \<Longrightarrow> (xs' \<noteq> [] \<Longrightarrow> a \<noteq> last xs') \<Longrightarrow>
                 (ys \<noteq> [] \<Longrightarrow> a \<noteq> hd ys) \<Longrightarrow> h' a = h a"
        using Cons.prems(10) False by auto
    qed
    with False px h'x ox pvx show ?thesis by simp
  qed
qed

text \<open>The node \<open>c\<close> between the nodes \<open>xs\<close> and the nodes \<open>ys\<close> leaves the chain.\<close>

lemma dl_splice_out:
  assumes "dl_chain h pv p (xs @ c # ys) q"
    and "distinct (xs @ c # ys)"
    and "xs \<noteq> [] \<Longrightarrow> \<exists>old. h (last xs) = Some old \<and>
            h' (last xs) = Some (old\<lparr>dn_next := (if ys = [] then q else hd ys)\<rparr>)"
    and "ys \<noteq> [] \<Longrightarrow> \<exists>old. h (hd ys) = Some old \<and>
            h' (hd ys) = Some (old\<lparr>dn_prev := (if xs = [] then pv else last xs)\<rparr>)"
    and "\<And>a. a \<in> set (xs @ ys) \<Longrightarrow> (xs \<noteq> [] \<Longrightarrow> a \<noteq> last xs) \<Longrightarrow> (ys \<noteq> [] \<Longrightarrow> a \<noteq> hd ys)
           \<Longrightarrow> h' a = h a"
  shows "dl_chain h' pv (if xs = [] then (if ys = [] then q else hd ys) else p) (xs @ ys) q"
  using assms
proof (induction xs arbitrary: pv p)
  case Nil
  from Nil.prems(1) obtain oc where oc: "h c = Some oc"
    and c: "dl_chain h c (dn_next oc) ys q"
    by (auto split: option.splits)
  show ?case
  proof (cases ys)
    case Nil
    with c show ?thesis by simp
  next
    case (Cons y ys')
    from c Cons obtain oy where y: "dn_next oc = y" "y \<noteq> NULL" and oy: "h y = Some oy"
      and cy: "dl_chain h y (dn_next oy) ys' q"
      by (auto split: option.splits)
    from Nil.prems(4) Cons oy have h'y: "h' y = Some (oy\<lparr>dn_prev := pv\<rparr>)" by auto
    have "\<And>a. a \<in> set ys' \<Longrightarrow> h' a = h a"
      using Nil.prems(2,5) Cons by auto
    from dl_chain_cong[of ys' h' h, OF this] cy
    have "dl_chain h' y (dn_next oy) ys' q" by simp
    with Cons y h'y show ?thesis by simp
  qed
next
  case (Cons x xs')
  from Cons.prems(1) obtain ox where px: "p = x" "x \<noteq> NULL" and ox: "h x = Some ox"
    and pvx: "dn_prev ox = pv" and c: "dl_chain h x (dn_next ox) (xs' @ c # ys) q"
    by (auto split: option.splits)
  have xh: "ys \<noteq> [] \<Longrightarrow> x \<noteq> hd ys" using Cons.prems(2) by (cases ys) auto
  show ?case
  proof (cases "xs' = []")
    case True
    from Cons.prems(3) True ox
    have h'x: "h' x = Some (ox\<lparr>dn_next := (if ys = [] then q else hd ys)\<rparr>)" by auto
    have "dl_chain h' x (if ([]::ptr list) = [] then (if ys = [] then q else hd ys) else dn_next ox)
            ([] @ ys) q"
    proof (rule Cons.IH[where p="dn_next ox" and pv=x, unfolded True])
      show "dl_chain h x (dn_next ox) ([] @ c # ys) q" using c True by simp
      show "distinct ([] @ c # ys)" using Cons.prems(2) by simp
      show "([]::ptr list) \<noteq> [] \<Longrightarrow> \<exists>old. h (last []) = Some old \<and>
            h' (last []) = Some (old\<lparr>dn_next := (if ys = [] then q else hd ys)\<rparr>)" by simp
      show "ys \<noteq> [] \<Longrightarrow> \<exists>old. h (hd ys) = Some old \<and>
            h' (hd ys) = Some (old\<lparr>dn_prev := (if ([]::ptr list) = [] then x else last [])\<rparr>)"
        using Cons.prems(4) True by simp
      show "\<And>a. a \<in> set ([] @ ys) \<Longrightarrow> (([]::ptr list) \<noteq> [] \<Longrightarrow> a \<noteq> last []) \<Longrightarrow>
              (ys \<noteq> [] \<Longrightarrow> a \<noteq> hd ys) \<Longrightarrow> h' a = h a"
        using Cons.prems(2,5) True by auto
    qed
    then have "dl_chain h' x (if ys = [] then q else hd ys) ys q" by simp
    with True px h'x pvx show ?thesis by simp
  next
    case False
    have xl: "x \<noteq> last xs'" using Cons.prems(2) False by auto
    have h'x: "h' x = h x"
      using Cons.prems(5)[of x] False xl xh by simp
    have "dl_chain h' x (if xs' = [] then (if ys = [] then q else hd ys) else dn_next ox)
            (xs' @ ys) q"
    proof (rule Cons.IH)
      show "dl_chain h x (dn_next ox) (xs' @ c # ys) q" by fact
      show "distinct (xs' @ c # ys)" using Cons.prems(2) by simp
      show "xs' \<noteq> [] \<Longrightarrow> \<exists>old. h (last xs') = Some old \<and>
            h' (last xs') = Some (old\<lparr>dn_next := (if ys = [] then q else hd ys)\<rparr>)"
        using Cons.prems(3) False by simp
      show "ys \<noteq> [] \<Longrightarrow> \<exists>old. h (hd ys) = Some old \<and>
            h' (hd ys) = Some (old\<lparr>dn_prev := (if xs' = [] then x else last xs')\<rparr>)"
        using Cons.prems(4) False by simp
      show "\<And>a. a \<in> set (xs' @ ys) \<Longrightarrow> (xs' \<noteq> [] \<Longrightarrow> a \<noteq> last xs') \<Longrightarrow>
              (ys \<noteq> [] \<Longrightarrow> a \<noteq> hd ys) \<Longrightarrow> h' a = h a"
        using Cons.prems(5) False by auto
    qed
    with False px h'x ox pvx show ?thesis by simp
  qed
qed

subsection \<open>Unlinking and linking on a well-formed chain\<close>

lemma dl_chain_split_at:
  assumes "dl_chain h pv p as q" and "k < length as"
  shows "as = take k as @ (as ! k) # drop (Suc k) as"
  using assms(2) by (simp add: id_take_nth_drop)

lemma hd_drop_Suc: "Suc k < length as \<Longrightarrow> hd (drop (Suc k) as) = as ! Suc k"
  by (simp add: hd_drop_conv_nth)

lemma last_take: "0 < k \<Longrightarrow> k \<le> length as \<Longrightarrow> last (take k as) = as ! (k - 1)"
  by (cases k) (simp_all add: last_conv_nth min_def take_Suc_conv_app_nth)

text \<open>The links of a node in the middle of a chain, in terms of the split.\<close>

lemma dl_chain_mid:
  assumes c: "dl_chain h pv p (xs @ c # ys) q"
  shows "\<exists>r. h c = Some r \<and> dn_prev r = (if xs = [] then pv else last xs) \<and>
              dn_next r = (if ys = [] then q else hd ys)"
proof -
  from c obtain r where "dl_chain h pv p xs r" and
    "dl_chain h (if xs = [] then pv else last xs) r (c # ys) q"
    by (auto simp: dl_chain_append)
  then obtain n where n: "h c = Some n" "dn_prev n = (if xs = [] then pv else last xs)"
    and t: "dl_chain h c (dn_next n) ys q"
    by (auto split: option.splits)
  from t have "dn_next n = (if ys = [] then q else hd ys)" by (cases ys) auto
  with n show ?thesis by simp
qed

lemma dl_unlink_chain:
  assumes c: "dl_chain h NULL p (xs @ c # ys) NULL"
  shows "dl_chain (dl_unlink h c) NULL (if xs = [] then (if ys = [] then NULL else hd ys) else p)
           (xs @ ys) NULL"
    and "\<And>a. a \<in> set (xs @ ys) \<Longrightarrow>
           map_option dn_data (dl_unlink h c a) = map_option dn_data (h a)"
    and "dl_unlink h c c = None"
    and "\<And>a. a \<notin> set (xs @ c # ys) \<Longrightarrow> dl_unlink h c a = h a"
proof -
  let ?P = "if xs = [] then NULL else last xs"
  let ?N = "if ys = [] then NULL else hd ys"
  from dl_chain_mid[OF c] obtain r where r: "h c = Some r" "dn_prev r = ?P" "dn_next r = ?N"
    by blast
  have d: "distinct (xs @ c # ys)" by (rule dl_chain_distinct[OF c])
  have nn: "NULL \<notin> set (xs @ c # ys)" by (rule dl_chain_notnull[OF c])
  have Pn: "xs \<noteq> [] \<Longrightarrow> last xs \<noteq> NULL \<and> last xs \<noteq> c \<and> last xs \<notin> set ys"
    using d nn by (auto simp: in_set_conv_decomp dest: last_in_set)
  have Nn: "ys \<noteq> [] \<Longrightarrow> hd ys \<noteq> NULL \<and> hd ys \<noteq> c \<and> hd ys \<notin> set xs"
    using d nn by (cases ys) auto
  have liveP: "xs \<noteq> [] \<Longrightarrow> \<exists>old. h (last xs) = Some old"
    using dl_chain_live[OF c, of "last xs"] by auto
  have liveN: "ys \<noteq> [] \<Longrightarrow> \<exists>old. h (hd ys) = Some old"
    using dl_chain_live[OF c, of "hd ys"] by (cases ys) auto
  have PN: "xs \<noteq> [] \<Longrightarrow> ys \<noteq> [] \<Longrightarrow> last xs \<noteq> hd ys"
  proof -
    assume x: "xs \<noteq> []" and y: "ys \<noteq> []"
    from x have "last xs \<in> set xs" by simp
    with Nn[OF y] show "last xs \<noteq> hd ys" by auto
  qed
  text \<open>The store pointwise.\<close>
  have atP: "xs \<noteq> [] \<Longrightarrow> \<exists>old. h (last xs) = Some old \<and>
               dl_unlink h c (last xs) = Some (old\<lparr>dn_next := ?N\<rparr>)"
  proof -
    assume x: "xs \<noteq> []"
    from liveP[OF x] obtain old where old: "h (last xs) = Some old" by blast
    show ?thesis
    proof (cases "ys = []")
      case True
      with x old r Pn[OF x] show ?thesis by (simp add: dl_unlink_def)
    next
      case False
      from liveN[OF False] obtain oN where "h (hd ys) = Some oN" by blast
      with False x old r Pn[OF x] Nn[OF False] PN[OF x False] show ?thesis
        by (simp add: dl_unlink_def)
    qed
  qed
  have atN: "ys \<noteq> [] \<Longrightarrow> \<exists>old. h (hd ys) = Some old \<and>
               dl_unlink h c (hd ys) = Some (old\<lparr>dn_prev := ?P\<rparr>)"
  proof -
    assume y: "ys \<noteq> []"
    from liveN[OF y] obtain old where old: "h (hd ys) = Some old" by blast
    show ?thesis
    proof (cases "xs = []")
      case True
      with y old r Nn[OF y] show ?thesis by (simp add: dl_unlink_def)
    next
      case False
      from liveP[OF False] obtain oP where "h (last xs) = Some oP" by blast
      with False y old r Pn[OF False] Nn[OF y] PN[OF False y] show ?thesis
        by (simp add: dl_unlink_def)
    qed
  qed
  have other: "\<And>a. a \<noteq> c \<Longrightarrow> (xs \<noteq> [] \<Longrightarrow> a \<noteq> last xs) \<Longrightarrow> (ys \<noteq> [] \<Longrightarrow> a \<noteq> hd ys)
                 \<Longrightarrow> dl_unlink h c a = h a"
  proof -
    fix a assume a: "a \<noteq> c" "xs \<noteq> [] \<Longrightarrow> a \<noteq> last xs" "ys \<noteq> [] \<Longrightarrow> a \<noteq> hd ys"
    show "dl_unlink h c a = h a"
    proof (cases "xs = []"; cases "ys = []")
      assume "xs = []" "ys = []"
      with a r show ?thesis by (simp add: dl_unlink_def)
    next
      assume e: "xs = []" "ys \<noteq> []"
      from liveN[OF e(2)] obtain oN where "h (hd ys) = Some oN" by blast
      with e a r Nn[OF e(2)] show ?thesis by (simp add: dl_unlink_def)
    next
      assume e: "xs \<noteq> []" "ys = []"
      from liveP[OF e(1)] obtain oP where "h (last xs) = Some oP" by blast
      with e a r Pn[OF e(1)] show ?thesis by (simp add: dl_unlink_def)
    next
      assume e: "xs \<noteq> []" "ys \<noteq> []"
      from liveP[OF e(1)] obtain oP where oP: "h (last xs) = Some oP" by blast
      from liveN[OF e(2)] obtain oN where "h (hd ys) = Some oN" by blast
      with oP e a r Pn[OF e(1)] Nn[OF e(2)] PN[OF e] show ?thesis by (simp add: dl_unlink_def)
    qed
  qed
  show "dl_unlink h c c = None" using r by (simp add: dl_unlink_def Let_def split: option.splits)
  show "\<And>a. a \<notin> set (xs @ c # ys) \<Longrightarrow> dl_unlink h c a = h a"
  proof -
    fix a assume "a \<notin> set (xs @ c # ys)"
    then have "a \<noteq> c" "xs \<noteq> [] \<Longrightarrow> a \<noteq> last xs" "ys \<noteq> [] \<Longrightarrow> a \<noteq> hd ys"
      by (auto dest: last_in_set hd_in_set)
    from other[OF this] show "dl_unlink h c a = h a" .
  qed
  show "\<And>a. a \<in> set (xs @ ys) \<Longrightarrow>
           map_option dn_data (dl_unlink h c a) = map_option dn_data (h a)"
  proof -
    fix a assume m: "a \<in> set (xs @ ys)"
    then have ac: "a \<noteq> c" using d by auto
    show "map_option dn_data (dl_unlink h c a) = map_option dn_data (h a)"
    proof (cases "xs \<noteq> [] \<and> a = last xs")
      case True
      with atP show ?thesis by auto
    next
      case nP: False
      show ?thesis
      proof (cases "ys \<noteq> [] \<and> a = hd ys")
        case True
        with atN show ?thesis by auto
      next
        case False
        with nP ac other[of a] show ?thesis by auto
      qed
    qed
  qed
  show "dl_chain (dl_unlink h c) NULL (if xs = [] then (if ys = [] then NULL else hd ys) else p)
           (xs @ ys) NULL"
  proof (rule dl_splice_out[OF c d])
    show "xs \<noteq> [] \<Longrightarrow> \<exists>old. h (last xs) = Some old \<and>
            dl_unlink h c (last xs) = Some (old\<lparr>dn_next := (if ys = [] then NULL else hd ys)\<rparr>)"
      by (rule atP)
    show "ys \<noteq> [] \<Longrightarrow> \<exists>old. h (hd ys) = Some old \<and>
            dl_unlink h c (hd ys) = Some (old\<lparr>dn_prev := (if xs = [] then NULL else last xs)\<rparr>)"
      by (rule atN)
    show "\<And>a. a \<in> set (xs @ ys) \<Longrightarrow> (xs \<noteq> [] \<Longrightarrow> a \<noteq> last xs) \<Longrightarrow> (ys \<noteq> [] \<Longrightarrow> a \<noteq> hd ys)
           \<Longrightarrow> dl_unlink h c a = h a"
    proof -
      fix a assume m: "a \<in> set (xs @ ys)" and o: "xs \<noteq> [] \<Longrightarrow> a \<noteq> last xs" "ys \<noteq> [] \<Longrightarrow> a \<noteq> hd ys"
      from m d have "a \<noteq> c" by auto
      from other[OF this o] show "dl_unlink h c a = h a" .
    qed
  qed
qed

subsection \<open>Removal through the iterator\<close>

lemma doubly_list_iter_remove_result:
  assumes L: "dlists m l = Some L" "l \<noteq> NULL"
    and r: "dnodes m c = Some r" "c \<noteq> NULL"
    and P: "dn_prev r \<noteq> NULL \<Longrightarrow> \<exists>p. dnodes m (dn_prev r) = Some p" "dn_prev r \<noteq> c"
    and N: "dn_next r \<noteq> NULL \<Longrightarrow> \<exists>x. dnodes m (dn_next r) = Some x" "dn_next r \<noteq> c"
    and it: "dit_list it = l" "dit_current it = c"
  shows "doubly_list_iter_remove (Some it) m =
           Some (SUCCESS, Some (it\<lparr>dit_current := dn_next r\<rparr>),
             m\<lparr>dnodes := dl_unlink (dnodes m) c,
               dlists := (dlists m)(l \<mapsto>
                 L\<lparr>dl_head := (if dn_prev r = NULL then dn_next r else dl_head L),
                   dl_tail := (if dn_next r = NULL then dn_prev r else dl_tail L),
                   dl_size := dl_size L - 1\<rparr>)\<rparr>)"
proof (cases "dn_prev r = NULL"; cases "dn_next r = NULL")
  assume e: "dn_prev r = NULL" "dn_next r = NULL"
  with L r it show ?thesis
    by (simp add: doubly_list_iter_remove_def dl_unlink_def destroy_doubly_node_def)
next
  assume e: "dn_prev r = NULL" "dn_next r \<noteq> NULL"
  from N(1)[OF e(2)] obtain x where x: "dnodes m (dn_next r) = Some x" by blast
  with e L r it N(2) show ?thesis
    by (simp add: doubly_list_iter_remove_def dl_unlink_def destroy_doubly_node_def)
next
  assume e: "dn_prev r \<noteq> NULL" "dn_next r = NULL"
  from P(1)[OF e(1)] obtain p where p: "dnodes m (dn_prev r) = Some p" by blast
  with e L r it P(2) show ?thesis
    by (simp add: doubly_list_iter_remove_def dl_unlink_def destroy_doubly_node_def)
next
  assume e: "dn_prev r \<noteq> NULL" "dn_next r \<noteq> NULL"
  from P(1)[OF e(1)] obtain p where p: "dnodes m (dn_prev r) = Some p" by blast
  from N(1)[OF e(2)] obtain x where x: "dnodes m (dn_next r) = Some x" by blast
  show ?thesis
  proof (cases "dn_next r = dn_prev r")
    case True
    with p x e L r it P(2) N(2) show ?thesis
      by (simp add: doubly_list_iter_remove_def dl_unlink_def destroy_doubly_node_def)
  next
    case False
    with p x e L r it P(2) N(2) show ?thesis
      by (simp add: doubly_list_iter_remove_def dl_unlink_def destroy_doubly_node_def)
  qed
qed

lemma dl_abs_cong:
  assumes "dl_abs m list L as" and "dlists m' = dlists m" and "dnodes m' = dnodes m"
  shows "dl_abs m' list L as"
  using assms by (simp add: dl_abs_def)

lemma dl_abs_size_pred:
  assumes "unat (s :: size_t) = length as" and "as \<noteq> []"
  shows "unat (s - 1) = length as - 1"
proof -
  from assms have "s \<noteq> 0" by (auto simp: unat_0_iff[symmetric])
  from unat_minus_one[OF this] assms(1) show ?thesis by simp
qed

text \<open>What the removal of the node at position \<open>k\<close> through an iterator standing on it
  does to the list.\<close>

lemma doubly_list_iter_remove_abs:
  assumes a: "dl_abs m l L as" and k: "k < length as"
    and it: "dit_list it = l" "dit_current it = as ! k"
  shows "\<exists>m' L'. doubly_list_iter_remove (Some it) m =
             Some (SUCCESS,
               Some (it\<lparr>dit_current := (if Suc k < length as then as ! Suc k else NULL)\<rparr>), m') \<and>
           dl_abs m' l L' (take k as @ drop (Suc k) as) \<and>
           dl_size L' = dl_size L - 1 \<and> dl_element_size L' = dl_element_size L \<and>
           dl_data m' (take k as @ drop (Suc k) as) = take k (dl_data m as) @ drop (Suc k) (dl_data m as)"
proof -
  let ?xs = "take k as" and ?c = "as ! k" and ?ys = "drop (Suc k) as"
  let ?h = "dnodes m"
  have split: "as = ?xs @ ?c # ?ys" using k by (simp add: id_take_nth_drop)
  from a have L: "dlists m l = Some L" "l \<noteq> NULL"
    and ch0: "dl_chain ?h NULL (dl_head L) as NULL"
    and sz: "unat (dl_size L) = length as"
    and tl: "dl_tail L = (if as = [] then NULL else last as)"
    by (simp_all add: dl_abs_def)
  from ch0 split have ch: "dl_chain ?h NULL (dl_head L) (?xs @ ?c # ?ys) NULL" by simp
  have d: "distinct (?xs @ ?c # ?ys)" by (rule dl_chain_distinct[OF ch])
  have nn: "NULL \<notin> set (?xs @ ?c # ?ys)" by (rule dl_chain_notnull[OF ch])
  from dl_chain_mid[OF ch] obtain r where r: "?h ?c = Some r"
    and pr: "dn_prev r = (if ?xs = [] then NULL else last ?xs)"
    and nx: "dn_next r = (if ?ys = [] then NULL else hd ?ys)" by blast
  have cn: "?c \<noteq> NULL" using nn by auto
  have xsl: "?xs \<noteq> [] \<Longrightarrow> last ?xs \<in> set ?xs" by (rule last_in_set)
  have ysh: "?ys \<noteq> [] \<Longrightarrow> hd ?ys \<in> set ?ys" by (rule hd_in_set)
  have cx: "?c \<notin> set ?xs" and cy: "?c \<notin> set ?ys" using d by simp_all
  have P1: "dn_prev r \<noteq> NULL \<Longrightarrow> \<exists>p. ?h (dn_prev r) = Some p"
  proof -
    assume "dn_prev r \<noteq> NULL"
    with pr have x: "?xs \<noteq> []" "dn_prev r = last ?xs" by (auto split: if_splits)
    with xsl have "dn_prev r \<in> set (?xs @ ?c # ?ys)" by simp
    from dl_chain_live[OF ch this] show ?thesis by auto
  qed
  have P2: "dn_prev r \<noteq> ?c"
  proof (cases "?xs = []")
    case True with pr cn show ?thesis by simp
  next
    case False
    from xsl[OF False] cx have "last ?xs \<noteq> ?c" by metis
    moreover from pr False have "dn_prev r = last ?xs" by (simp only: if_False)
    ultimately show ?thesis by simp
  qed
  have N1: "dn_next r \<noteq> NULL \<Longrightarrow> \<exists>x. ?h (dn_next r) = Some x"
  proof -
    assume "dn_next r \<noteq> NULL"
    with nx have x: "?ys \<noteq> []" "dn_next r = hd ?ys" by (auto split: if_splits)
    with ysh have "dn_next r \<in> set (?xs @ ?c # ?ys)" by simp
    from dl_chain_live[OF ch this] show ?thesis by auto
  qed
  have N2: "dn_next r \<noteq> ?c"
  proof (cases "?ys = []")
    case True with nx cn show ?thesis by simp
  next
    case False
    from ysh[OF False] cy have "hd ?ys \<noteq> ?c" by metis
    moreover from nx False have "dn_next r = hd ?ys" by (simp only: if_False)
    ultimately show ?thesis by simp
  qed
  define L' where "L' = L\<lparr>dl_head := (if dn_prev r = NULL then dn_next r else dl_head L),
                   dl_tail := (if dn_next r = NULL then dn_prev r else dl_tail L),
                   dl_size := dl_size L - 1\<rparr>"
  define m' where "m' = m\<lparr>dnodes := dl_unlink ?h ?c, dlists := (dlists m)(l \<mapsto> L')\<rparr>"
  have run: "doubly_list_iter_remove (Some it) m =
               Some (SUCCESS, Some (it\<lparr>dit_current := dn_next r\<rparr>), m')"
    unfolding m'_def L'_def
    by (rule doubly_list_iter_remove_result[OF L r cn P1 P2 N1 N2 it])
  have nxk: "dn_next r = (if Suc k < length as then as ! Suc k else NULL)"
  proof (cases "Suc k < length as")
    case True
    then have "?ys \<noteq> []" by simp
    with nx have "dn_next r = hd ?ys" by (simp only: if_False)
    also have "\<dots> = as ! Suc k" using True by (simp add: hd_drop_conv_nth)
    finally show ?thesis using True by simp
  next
    case False
    then have "?ys = []" by simp
    with nx have "dn_next r = NULL" by simp
    with False show ?thesis by simp
  qed
  have nx0: "NULL \<notin> set ?xs" and ny0: "NULL \<notin> set ?ys" using nn by simp_all
  have prN: "dn_prev r = NULL \<longleftrightarrow> ?xs = []"
  proof (cases "?xs = []")
    case True with pr show ?thesis by simp
  next
    case False
    from xsl[OF False] nx0 have "last ?xs \<noteq> NULL" by metis
    moreover from pr False have "dn_prev r = last ?xs" by (simp only: if_False)
    ultimately show ?thesis using False by simp
  qed
  have nxN: "dn_next r = NULL \<longleftrightarrow> ?ys = []"
  proof (cases "?ys = []")
    case True with nx show ?thesis by simp
  next
    case False
    from ysh[OF False] ny0 have "hd ?ys \<noteq> NULL" by metis
    moreover from nx False have "dn_next r = hd ?ys" by (simp only: if_False)
    ultimately show ?thesis using False by simp
  qed
  note u = dl_unlink_chain[OF ch]
  have hd': "dl_head L' = (if ?xs = [] then (if ?ys = [] then NULL else hd ?ys) else dl_head L)"
  proof (cases "?xs = []")
    case True
    with prN have "dn_prev r = NULL" by simp
    then have "dl_head L' = dn_next r" by (simp add: L'_def)
    with nx True show ?thesis by simp
  next
    case False
    with prN have "dn_prev r \<noteq> NULL" by simp
    then have "dl_head L' = dl_head L" by (simp add: L'_def)
    with False show ?thesis by (simp only: if_False)
  qed
  have asne: "as \<noteq> []" using k by auto
  have tl': "dl_tail L' = (if ?xs @ ?ys = [] then NULL else last (?xs @ ?ys))"
  proof (cases "?ys = []")
    case True
    with nxN have "dn_next r = NULL" by simp
    then have "dl_tail L' = dn_prev r" by (simp add: L'_def)
    with pr True show ?thesis by (cases "?xs = []") simp_all
  next
    case False
    have "last (?xs @ ?c # ?ys) = last ?ys" using False by simp
    with split have la: "last as = last ?ys" by (simp only:)
    from False nxN have "dn_next r \<noteq> NULL" by simp
    then have "dl_tail L' = dl_tail L" by (simp add: L'_def)
    also have "\<dots> = last as" using tl asne by simp
    also note la
    also have "last ?ys = last (?xs @ ?ys)" using False by simp
    finally have "dl_tail L' = last (?xs @ ?ys)" .
    moreover have "?xs @ ?ys \<noteq> []" using False by simp
    ultimately show ?thesis by (simp only: if_False)
  qed
  have len: "length (?xs @ ?ys) = length as - 1" using k by simp
  have "unat (dl_size L') = unat (dl_size L - 1)" by (simp add: L'_def)
  with dl_abs_size_pred[OF sz asne] len have sz': "unat (dl_size L') = length (?xs @ ?ys)"
    by (simp only:)
  have c1: "dlists m' l = Some L'" by (simp add: m'_def)
  have "dnodes m' = dl_unlink ?h ?c" by (simp add: m'_def)
  with u(1) hd' have c2: "dl_chain (dnodes m') NULL (dl_head L') (?xs @ ?ys) NULL"
    by (simp only:)
  have abs': "dl_abs m' l L' (?xs @ ?ys)"
    unfolding dl_abs_def using c1 L(2) c2 sz' tl' by blast
  have dd: "\<And>a. a \<in> set (?xs @ ?ys) \<Longrightarrow>
              map_option dn_data (dnodes m' a) = map_option dn_data (dnodes m a)"
    using u(2) by (simp add: m'_def)
  have "dl_data m' (?xs @ ?ys) = dl_data m (?xs @ ?ys)"
    by (rule dl_data_cong) (rule dd)
  also have "\<dots> = take k (dl_data m as) @ drop (Suc k) (dl_data m as)"
    by (simp add: dl_data_def take_map drop_map)
  finally have dat: "dl_data m' (?xs @ ?ys) = take k (dl_data m as) @ drop (Suc k) (dl_data m as)" .
  have run': "doubly_list_iter_remove (Some it) m =
             Some (SUCCESS,
               Some (it\<lparr>dit_current := (if Suc k < length as then as ! Suc k else NULL)\<rparr>), m')"
    using run nxk by (simp only:)
  have s1: "dl_size L' = dl_size L - 1" by (simp add: L'_def)
  have s2: "dl_element_size L' = dl_element_size L" by (simp add: L'_def)
  from run' abs' s1 s2 dat show ?thesis by blast
qed

section \<open>Properties of the singly linked list\<close>

subsection \<open>Chains\<close>

lemma sl_path_imp_chain:
  "sl_path h n p = Some (as, q) \<Longrightarrow> length as = n \<and> sl_chain h p as q"
proof (induction n arbitrary: p as)
  case 0
  then show ?case by simp
next
  case (Suc n)
  from Suc.prems obtain nd bs where nn: "p \<noteq> NULL" and nd: "h p = Some nd"
    and r: "sl_path h n (sn_next nd) = Some (bs, q)"
    and as: "as = p # bs"
    by (simp split: if_splits option.splits prod.splits)
  from Suc.IH[OF r] nn nd as show ?case by simp
qed

lemma sl_chain_imp_path:
  "sl_chain h p as q \<Longrightarrow> sl_path h (length as) p = Some (as, q)"
proof (induction as arbitrary: p)
  case Nil
  then show ?case by simp
next
  case (Cons a as)
  from Cons.prems obtain nd where pa: "p = a" "a \<noteq> NULL" and nd: "h a = Some nd"
    and c: "sl_chain h (sn_next nd) as q"
    by (simp split: option.splits)
  from Cons.IH[OF c] pa nd show ?case by simp
qed

lemma sl_path_chain:
  "sl_path h n p = Some (as, q) \<longleftrightarrow> length as = n \<and> sl_chain h p as q"
  using sl_path_imp_chain sl_chain_imp_path by blast

lemma sl_chain_null [simp]: "sl_chain h NULL as q \<longleftrightarrow> as = [] \<and> q = NULL"
  by (cases as) auto

lemma sl_chain_cong:
  "(\<And>a. a \<in> set as \<Longrightarrow> h' a = h a) \<Longrightarrow> sl_chain h' p as q = sl_chain h p as q"
  by (induction as arbitrary: p) (auto split: option.splits)

lemma sl_chain_frame:
  "u \<notin> set as \<Longrightarrow> sl_chain (h(u := x)) p as q = sl_chain h p as q"
  by (induction as arbitrary: p) (auto split: option.splits)

lemma sl_chain_append:
  "sl_chain h p (as @ bs) q \<longleftrightarrow> (\<exists>r. sl_chain h p as r \<and> sl_chain h r bs q)"
  by (induction as arbitrary: p) (auto split: option.splits)

lemma sl_chain_notnull: "sl_chain h p as q \<Longrightarrow> NULL \<notin> set as"
  by (induction as arbitrary: p) (auto split: option.splits)

lemma sl_chain_live: "sl_chain h p as q \<Longrightarrow> a \<in> set as \<Longrightarrow> h a \<noteq> None"
  by (induction as arbitrary: p) (auto split: option.splits)

lemma sl_chain_unique:
  "sl_chain h p as NULL \<Longrightarrow> sl_chain h p bs NULL \<Longrightarrow> as = bs"
proof (induction as arbitrary: p bs)
  case Nil
  then show ?case by (cases bs) auto
next
  case (Cons a as)
  then show ?case by (cases bs) (auto split: option.splits)
qed

lemma sl_chain_head_notin:
  assumes "sl_chain h a (a # as) NULL"
  shows "a \<notin> set as"
proof
  assume "a \<in> set as"
  then obtain xs ys where s: "as = xs @ a # ys" by (auto simp: in_set_conv_decomp)
  from assms obtain n where n: "h a = Some n" and c: "sl_chain h (sn_next n) (xs @ a # ys) NULL"
    using s by (auto split: option.splits)
  from c have "sl_chain h a (a # ys) NULL"
    by (auto simp: sl_chain_append split: option.splits)
  from sl_chain_unique[OF assms this] s show False by simp
qed

lemma sl_chain_distinct: "sl_chain h p as NULL \<Longrightarrow> distinct as"
proof (induction as arbitrary: p)
  case Nil
  then show ?case by simp
next
  case (Cons a as)
  from Cons.prems have pa: "p = a" by simp
  from Cons.prems obtain n where "h a = Some n" and "sl_chain h (sn_next n) as NULL"
    by (auto split: option.splits)
  from Cons.IH[OF this(2)] sl_chain_head_notin[of h a as] Cons.prems pa
  show ?case by simp
qed

lemma sl_chain_mid:
  assumes c: "sl_chain h p (xs @ c # ys) q"
  shows "\<exists>r. h c = Some r \<and> sn_next r = (if ys = [] then q else hd ys)"
proof -
  from c obtain r where "sl_chain h r (c # ys) q"
    by (auto simp: sl_chain_append)
  then obtain n where n: "h c = Some n" and t: "sl_chain h (sn_next n) ys q"
    by (auto split: option.splits)
  from t have "sn_next n = (if ys = [] then q else hd ys)" by (cases ys) auto
  with n show ?thesis by simp
qed

lemma sl_inv_abs: "sl_inv m list \<longleftrightarrow> (\<exists>L as. sl_abs m list L as)"
proof
  assume "sl_inv m list"
  then obtain L as q where L: "slists m list = Some L" "list \<noteq> NULL"
    and p: "sl_path (snodes m) (unat (sl_size L)) (sl_head L) = Some (as, q)"
    and q: "q = NULL" "sl_tail L = (if as = [] then NULL else last as)"
    by (auto simp: sl_inv_def split: option.splits)
  from p have "length as = unat (sl_size L)" "sl_chain (snodes m) (sl_head L) as q"
    by (simp_all add: sl_path_chain)
  with L q have "sl_abs m list L as" by (simp add: sl_abs_def)
  then show "\<exists>L as. sl_abs m list L as" by blast
next
  assume "\<exists>L as. sl_abs m list L as"
  then obtain L as where a: "sl_abs m list L as" by blast
  then have "sl_path (snodes m) (unat (sl_size L)) (sl_head L) = Some (as, NULL)"
    by (simp add: sl_abs_def sl_path_chain)
  with a show "sl_inv m list" by (simp add: sl_inv_def sl_abs_def)
qed

lemma sl_abs_nodes: "sl_abs m list L as \<Longrightarrow> sl_nodes m list = as"
proof -
  assume a: "sl_abs m list L as"
  then have "sl_path (snodes m) (unat (sl_size L)) (sl_head L) = Some (as, NULL)"
    by (simp add: sl_abs_def sl_path_chain)
  with a show ?thesis by (simp add: sl_nodes_def sl_abs_def)
qed

lemma sl_abs_contents: "sl_abs m list L as \<Longrightarrow> sl_contents m list = sl_data m as"
  by (simp add: sl_contents_def sl_data_def sl_abs_nodes)

lemma sl_abs_cong:
  assumes "sl_abs m list L as" and "slists m' = slists m" and "snodes m' = snodes m"
  shows "sl_abs m' list L as"
  using assms by (simp add: sl_abs_def)

lemma sl_data_cong:
  assumes "\<And>a. a \<in> set as \<Longrightarrow> map_option sn_data (snodes m' a) = map_option sn_data (snodes m a)"
  shows "sl_data m' as = sl_data m as"
proof -
  have "\<And>a. a \<in> set as \<Longrightarrow>
          (case snodes m' a of None \<Rightarrow> [] | Some n \<Rightarrow> sn_data n) =
          (case snodes m a of None \<Rightarrow> [] | Some n \<Rightarrow> sn_data n)"
  proof -
    fix a assume "a \<in> set as"
    from assms[OF this] show "(case snodes m' a of None \<Rightarrow> [] | Some n \<Rightarrow> sn_data n) =
          (case snodes m a of None \<Rightarrow> [] | Some n \<Rightarrow> sn_data n)"
      by (cases "snodes m' a"; cases "snodes m a") auto
  qed
  then show ?thesis by (simp add: sl_data_def)
qed

subsection \<open>Indexed access\<close>

lemma walk_next_chain:
  "sl_chain h p as q \<Longrightarrow> k < length as \<Longrightarrow> walk_next h k p = Some (as ! k)"
proof (induction k arbitrary: p as)
  case 0
  then show ?case by (cases as) auto
next
  case (Suc k)
  from Suc.prems obtain a bs where as: "as = a # bs" by (cases as) auto
  with Suc.prems obtain n where pa: "p = a" "a \<noteq> NULL" and n: "h a = Some n"
    and c: "sl_chain h (sn_next n) bs q" and k: "k < length bs"
    by (auto split: option.splits)
  from Suc.IH[OF c k] pa n as show ?case by simp
qed

lemma get_node_at_abs:
  assumes a: "sl_abs m l L as" and i: "index < sl_size L"
  shows "get_node_at l index m = Some (as ! unat index)" and "unat index < length as"
proof -
  from a have L: "slists m l = Some L" "l \<noteq> NULL"
    and ch: "sl_chain (snodes m) (sl_head L) as NULL"
    and sz: "unat (sl_size L) = length as"
    by (simp_all add: sl_abs_def)
  from i sz show k: "unat index < length as" by (simp add: word_less_nat_alt)
  from i have "\<not> sl_size L \<le> index" by simp
  with L walk_next_chain[OF ch k] show "get_node_at l index m = Some (as ! unat index)"
    by (simp add: get_node_at_def)
qed

lemma singly_list_get_abs:
  assumes a: "sl_abs m l L as" and i: "index < sl_size L"
  shows "singly_list_get l index True m =
           map_option (\<lambda>bs. (SUCCESS, Some bs))
             (caller_bytes (sl_data m as ! unat index) (unat (sl_element_size L)))"
proof -
  note g = get_node_at_abs[OF a i]
  from a have L: "slists m l = Some L" "l \<noteq> NULL"
    and ch: "sl_chain (snodes m) (sl_head L) as NULL"
    by (simp_all add: sl_abs_def)
  have mem: "as ! unat index \<in> set as" using g(2) by simp
  from sl_chain_notnull[OF ch] mem have nn: "as ! unat index \<noteq> NULL" by metis
  from sl_chain_live[OF ch mem] obtain n where n: "snodes m (as ! unat index) = Some n" by auto
  have d: "sl_data m as ! unat index = sn_data n"
    using g(2) n by (simp add: sl_data_def)
  show ?thesis
    unfolding d using g(1) L nn n
    by (cases "caller_bytes (sn_data n) (unat (sl_element_size L))")
       (simp_all add: singly_list_get_def)
qed

subsection \<open>Indexed access in the doubly linked list\<close>

lemma walk_dnext_chain:
  "dl_chain h pv p as q \<Longrightarrow> k < length as \<Longrightarrow> walk_dnext h k p = Some (as ! k)"
proof (induction k arbitrary: pv p as)
  case 0
  then show ?case by (cases as) auto
next
  case (Suc k)
  from Suc.prems obtain a bs where as: "as = a # bs" by (cases as) auto
  with Suc.prems obtain n where pa: "p = a" "a \<noteq> NULL" and n: "h a = Some n"
    and c: "dl_chain h a (dn_next n) bs q" and k: "k < length bs"
    by (auto split: option.splits)
  from Suc.IH[OF c k] pa n as show ?case by simp
qed

lemma walk_dprev_chain:
  "dl_chain h pv p as q \<Longrightarrow> j < length as \<Longrightarrow> k \<le> j \<Longrightarrow>
     walk_dprev h k (as ! j) = Some (as ! (j - k))"
proof (induction k arbitrary: j)
  case 0
  then show ?case by simp
next
  case (Suc k)
  from Suc.prems have j: "j < length as" "0 < j" "k \<le> j - 1" "j - 1 < length as" by simp_all
  from dl_chain_nth[OF Suc.prems(1) j(1)] j(2) obtain n where
    n: "h (as ! j) = Some n" "dn_prev n = as ! (j - 1)" by auto
  have "as ! j \<in> set as" using j(1) by simp
  with dl_chain_notnull[OF Suc.prems(1)] have nn: "as ! j \<noteq> NULL" by metis
  from Suc.IH[OF Suc.prems(1) j(4) j(3)] have "walk_dprev h k (as ! (j - 1)) = Some (as ! (j - 1 - k))" .
  moreover have "j - 1 - k = j - Suc k" by simp
  ultimately show ?case using n nn by simp
qed

lemma get_doubly_node_at_abs:
  assumes a: "dl_abs m l L as" and i: "index < dl_size L"
  shows "get_doubly_node_at l index m = Some (as ! unat index)" and "unat index < length as"
proof -
  from a have L: "dlists m l = Some L" "l \<noteq> NULL"
    and ch: "dl_chain (dnodes m) NULL (dl_head L) as NULL"
    and sz: "unat (dl_size L) = length as"
    and tl: "dl_tail L = (if as = [] then NULL else last as)"
    by (simp_all add: dl_abs_def)
  from i sz show k: "unat index < length as" by (simp add: word_less_nat_alt)
  from i have ni: "\<not> dl_size L \<le> index" by simp
  have asne: "as \<noteq> []" using k by auto
  show "get_doubly_node_at l index m = Some (as ! unat index)"
  proof (cases "index < dl_size L div 2")
    case True
    with L ni walk_dnext_chain[OF ch k] show ?thesis
      by (simp add: get_doubly_node_at_def)
  next
    case False
    have s1: "unat (dl_size L - 1) = length as - 1"
      by (rule dl_abs_size_pred[OF sz asne])
    have la: "last as = as ! (length as - 1)" using asne by (simp add: last_conv_nth)
    have j: "length as - 1 < length as" using asne by simp
    have kk: "length as - 1 - unat index \<le> length as - 1" by simp
    from walk_dprev_chain[OF ch j kk]
    have "walk_dprev (dnodes m) (length as - 1 - unat index) (last as) = Some (as ! unat index)"
      using k la by simp
    with L ni False tl asne s1 show ?thesis
      by (simp add: get_doubly_node_at_def)
  qed
qed

lemma doubly_list_get_abs:
  assumes a: "dl_abs m l L as" and i: "index < dl_size L"
  shows "doubly_list_get l index True m =
           map_option (\<lambda>bs. (SUCCESS, Some bs))
             (caller_bytes (dl_data m as ! unat index) (unat (dl_element_size L)))"
proof -
  note g = get_doubly_node_at_abs[OF a i]
  from a have L: "dlists m l = Some L" "l \<noteq> NULL"
    and ch: "dl_chain (dnodes m) NULL (dl_head L) as NULL"
    by (simp_all add: dl_abs_def)
  have mem: "as ! unat index \<in> set as" using g(2) by simp
  from dl_chain_notnull[OF ch] mem have nn: "as ! unat index \<noteq> NULL" by metis
  from dl_chain_live[OF ch mem] obtain n where n: "dnodes m (as ! unat index) = Some n" by auto
  have d: "dl_data m as ! unat index = dn_data n"
    using g(2) n by (simp add: dl_data_def)
  show ?thesis
    unfolding d using g(1) L nn n
    by (cases "caller_bytes (dn_data n) (unat (dl_element_size L))")
       (simp_all add: doubly_list_get_def)
qed

section \<open>Reversal\<close>

subsection \<open>Singly linked list\<close>

lemma singly_list_reverse_loop_chain:
  assumes "sl_chain (snodes m) current as NULL"
    and "sl_chain (snodes m) prev bs NULL"
    and "set as \<inter> set bs = {}"
  shows "\<exists>m'. singly_list_reverse_loop prev current m
                 = Some ((if as = [] then prev else last as), m') \<and>
              sl_chain (snodes m') (if as = [] then prev else last as) (rev as @ bs) NULL \<and>
              slists m' = slists m \<and>
              (\<forall>a \<in> set (as @ bs).
                 map_option sn_data (snodes m' a) = map_option sn_data (snodes m a))"
  using assms
proof (induction as arbitrary: prev current bs m)
  case Nil
  then have "current = NULL" by simp
  with Nil show ?case by (subst singly_list_reverse_loop.simps) simp
next
  case (Cons a as)
  from Cons.prems(1) obtain n where ca: "current = a" "a \<noteq> NULL"
    and n: "snodes m a = Some n" and c: "sl_chain (snodes m) (sn_next n) as NULL"
    by (auto split: option.splits)
  define m1 where "m1 = m\<lparr>snodes := (snodes m)(a \<mapsto> n\<lparr>sn_next := prev\<rparr>)\<rparr>"
  have d: "distinct (a # as)" by (rule sl_chain_distinct[OF Cons.prems(1)])
  have a_as: "a \<notin> set as" using d by simp
  have a_bs: "a \<notin> set bs" using Cons.prems(3) by auto
  have c1: "sl_chain (snodes m1) (sn_next n) as NULL"
    using c a_as by (simp add: m1_def sl_chain_frame)
  have "sl_chain (snodes m1) prev bs NULL"
    using Cons.prems(2) a_bs by (simp add: m1_def sl_chain_frame)
  then have c2: "sl_chain (snodes m1) a (a # bs) NULL"
    using ca by (simp add: m1_def)
  have dj: "set as \<inter> set (a # bs) = {}" using Cons.prems(3) a_as by auto
  from Cons.IH[OF c1 c2 dj] obtain m' where
    r: "singly_list_reverse_loop a (sn_next n) m1 = Some ((if as = [] then a else last as), m')"
    and ch: "sl_chain (snodes m') (if as = [] then a else last as) (rev as @ a # bs) NULL"
    and ls: "slists m' = slists m1"
    and dt: "\<forall>x \<in> set (as @ a # bs).
                 map_option sn_data (snodes m' x) = map_option sn_data (snodes m1 x)"
    by blast
  have run: "singly_list_reverse_loop prev current m = Some (last (a # as), m')"
    using ca n r by (subst singly_list_reverse_loop.simps) (simp add: m1_def)
  have ch': "sl_chain (snodes m') (last (a # as)) (rev (a # as) @ bs) NULL"
    using ch by simp
  have dt': "\<forall>x \<in> set ((a # as) @ bs).
                 map_option sn_data (snodes m' x) = map_option sn_data (snodes m x)"
  proof
    fix x assume "x \<in> set ((a # as) @ bs)"
    then have "x \<in> set (as @ a # bs)" by auto
    with dt have "map_option sn_data (snodes m' x) = map_option sn_data (snodes m1 x)" by blast
    also have "\<dots> = map_option sn_data (snodes m x)" using n by (simp add: m1_def)
    finally show "map_option sn_data (snodes m' x) = map_option sn_data (snodes m x)" .
  qed
  have ls': "slists m' = slists m" using ls by (simp add: m1_def)
  from run ch' ls' dt' show ?case by auto
qed

lemma size_le_one:
  assumes "unat (s :: size_t) = length as"
  shows "s \<le> 1 \<longleftrightarrow> length as \<le> 1"
  using assms by (simp add: word_le_nat_alt)

lemma rev_short: "length as \<le> 1 \<Longrightarrow> rev as = as"
  by (cases as) auto

lemma singly_list_reverse_abs:
  assumes a: "sl_abs m l L as"
  shows "\<exists>m' L'. singly_list_reverse l m = Some (SUCCESS, m') \<and>
           sl_abs m' l L' (rev as) \<and> sl_size L' = sl_size L \<and>
           sl_element_size L' = sl_element_size L \<and>
           sl_data m' (rev as) = rev (sl_data m as)"
proof -
  from a have L: "slists m l = Some L" "l \<noteq> NULL"
    and ch: "sl_chain (snodes m) (sl_head L) as NULL"
    and sz: "unat (sl_size L) = length as"
    and tl: "sl_tail L = (if as = [] then NULL else last as)"
    by (simp_all add: sl_abs_def)
  show ?thesis
  proof (cases "sl_size L \<le> 1")
    case True
    with L have run: "singly_list_reverse l m = Some (SUCCESS, m)"
      by (simp add: singly_list_reverse_def)
    from True size_le_one[OF sz] have r: "rev as = as" by (simp add: rev_short)
    have "sl_data m (rev as) = rev (sl_data m as)" by (simp add: sl_data_def rev_map)
    with run a r show ?thesis by auto
  next
    case False
    with size_le_one[OF sz] have ln: "1 < length as" by simp
    then have asne: "as \<noteq> []" by auto
    have b: "sl_chain (snodes m) NULL [] NULL" by simp
    from singly_list_reverse_loop_chain[OF ch b] asne obtain m1 where
      r: "singly_list_reverse_loop NULL (sl_head L) m = Some (last as, m1)"
      and c1: "sl_chain (snodes m1) (last as) (rev as) NULL"
      and l1: "slists m1 = slists m"
      and d1: "\<forall>x \<in> set as. map_option sn_data (snodes m1 x) = map_option sn_data (snodes m x)"
      by auto
    define L' where "L' = L\<lparr>sl_tail := sl_head L, sl_head := last as\<rparr>"
    define m' where "m' = m1\<lparr>slists := (slists m1)(l \<mapsto> L')\<rparr>"
    have run: "singly_list_reverse l m = Some (SUCCESS, m')"
      using L False r by (simp add: singly_list_reverse_def m'_def L'_def)
    have hd: "sl_head L = hd as" using ch asne by (cases as) auto
    have "sl_tail L' = last (rev as)" using hd asne by (simp add: L'_def last_rev)
    then have t': "sl_tail L' = (if rev as = [] then NULL else last (rev as))"
      using asne by simp
    have h': "sl_head L' = last as" by (simp add: L'_def)
    have s': "unat (sl_size L') = length (rev as)" using sz by (simp add: L'_def)
    have c': "sl_chain (snodes m') (sl_head L') (rev as) NULL"
      using c1 h' by (simp add: m'_def)
    have "slists m' l = Some L'" by (simp add: m'_def)
    with L(2) c' s' t' have abs': "sl_abs m' l L' (rev as)"
      unfolding sl_abs_def by blast
    have "sl_data m' (rev as) = sl_data m (rev as)"
      by (rule sl_data_cong) (use d1 in \<open>simp add: m'_def\<close>)
    also have "\<dots> = rev (sl_data m as)" by (simp add: sl_data_def rev_map)
    finally have dat: "sl_data m' (rev as) = rev (sl_data m as)" .
    have e1: "sl_size L' = sl_size L" and e2: "sl_element_size L' = sl_element_size L"
      by (simp_all add: L'_def)
    from run abs' e1 e2 dat show ?thesis by blast
  qed
qed

subsection \<open>Doubly linked list\<close>

lemma doubly_list_reverse_loop_chain:
  assumes "dl_chain (dnodes m) pv current as NULL"
  shows "\<exists>m'. doubly_list_reverse_loop current m = Some m' \<and>
              dlists m' = dlists m \<and>
              (\<forall>a. a \<notin> set as \<longrightarrow> dnodes m' a = dnodes m a) \<and>
              (\<forall>a \<in> set as. \<exists>n. dnodes m a = Some n \<and>
                 dnodes m' a = Some (n\<lparr>dn_prev := dn_next n, dn_next := dn_prev n\<rparr>))"
  using assms
proof (induction as arbitrary: pv current m)
  case Nil
  then have "current = NULL" by simp
  then show ?case by (subst doubly_list_reverse_loop.simps) simp
next
  case (Cons a as)
  from Cons.prems obtain n where ca: "current = a" "a \<noteq> NULL"
    and n: "dnodes m a = Some n" and c: "dl_chain (dnodes m) a (dn_next n) as NULL"
    by (auto split: option.splits)
  define m1 where
    "m1 = m\<lparr>dnodes := (dnodes m)(a \<mapsto> n\<lparr>dn_prev := dn_next n, dn_next := dn_prev n\<rparr>)\<rparr>"
  have d: "distinct (a # as)" by (rule dl_chain_distinct[OF Cons.prems])
  have a_as: "a \<notin> set as" using d by simp
  have c1: "dl_chain (dnodes m1) a (dn_next n) as NULL"
    using c a_as by (simp add: m1_def dl_chain_frame)
  from Cons.IH[OF c1] obtain m' where
    r: "doubly_list_reverse_loop (dn_next n) m1 = Some m'"
    and ls: "dlists m' = dlists m1"
    and o: "\<forall>x. x \<notin> set as \<longrightarrow> dnodes m' x = dnodes m1 x"
    and s: "\<forall>x \<in> set as. \<exists>k. dnodes m1 x = Some k \<and>
                 dnodes m' x = Some (k\<lparr>dn_prev := dn_next k, dn_next := dn_prev k\<rparr>)"
    by blast
  have run: "doubly_list_reverse_loop current m = Some m'"
    using ca n r by (subst doubly_list_reverse_loop.simps) (simp add: m1_def)
  have ls': "dlists m' = dlists m" using ls by (simp add: m1_def)
  have o': "\<forall>x. x \<notin> set (a # as) \<longrightarrow> dnodes m' x = dnodes m x"
    using o by (simp add: m1_def)
  have s': "\<forall>x \<in> set (a # as). \<exists>k. dnodes m x = Some k \<and>
                 dnodes m' x = Some (k\<lparr>dn_prev := dn_next k, dn_next := dn_prev k\<rparr>)"
  proof
    fix x assume x: "x \<in> set (a # as)"
    show "\<exists>k. dnodes m x = Some k \<and>
                 dnodes m' x = Some (k\<lparr>dn_prev := dn_next k, dn_next := dn_prev k\<rparr>)"
    proof (cases "x = a")
      case True
      with o a_as have "dnodes m' x = dnodes m1 x" by simp
      with True n show ?thesis by (simp add: m1_def)
    next
      case False
      with x have "x \<in> set as" by simp
      with s obtain k where "dnodes m1 x = Some k"
        "dnodes m' x = Some (k\<lparr>dn_prev := dn_next k, dn_next := dn_prev k\<rparr>)" by blast
      with False show ?thesis by (simp add: m1_def)
    qed
  qed
  from run ls' o' s' show ?case by blast
qed

text \<open>A chain whose nodes all have their two links exchanged is the reversed chain.\<close>

lemma dl_chain_swapped:
  assumes "dl_chain h pv p as q"
    and "\<forall>a \<in> set as. \<exists>n. h a = Some n \<and>
           h' a = Some (n\<lparr>dn_prev := dn_next n, dn_next := dn_prev n\<rparr>)"
    and "as \<noteq> []"
  shows "dl_chain h' q (last as) (rev as) pv"
  using assms
proof (induction as arbitrary: pv p)
  case Nil
  then show ?case by simp
next
  case (Cons a as)
  from Cons.prems(1) obtain n where pa: "p = a" "a \<noteq> NULL" and n: "h a = Some n"
    and pv: "dn_prev n = pv" and c: "dl_chain h a (dn_next n) as q"
    by (auto split: option.splits)
  from Cons.prems(2) n have h'a: "h' a = Some (n\<lparr>dn_prev := dn_next n, dn_next := dn_prev n\<rparr>)"
    by auto
  show ?case
  proof (cases "as = []")
    case True
    with c have "dn_next n = q" by simp
    with True pa h'a pv show ?thesis by simp
  next
    case False
    have sw: "\<forall>x \<in> set as. \<exists>k. h x = Some k \<and>
           h' x = Some (k\<lparr>dn_prev := dn_next k, dn_next := dn_prev k\<rparr>)"
      using Cons.prems(2) by simp
    from Cons.IH[OF c sw False] have i: "dl_chain h' q (last as) (rev as) a" .
    from c False have nx: "dn_next n = hd as" by (cases as) auto
    have lr: "last (rev as) = hd as" using False by (simp add: last_rev)
    have "dl_chain h' (last (rev as)) a [a] pv"
      using pa h'a pv nx lr by simp
    with i False have "dl_chain h' q (last as) (rev as @ [a]) pv"
      by (simp add: dl_chain_append)
    with False show ?thesis by simp
  qed
qed

lemma doubly_list_reverse_abs:
  assumes a: "dl_abs m l L as"
  shows "\<exists>m' L'. doubly_list_reverse l m = Some (SUCCESS, m') \<and>
           dl_abs m' l L' (rev as) \<and> dl_size L' = dl_size L \<and>
           dl_element_size L' = dl_element_size L \<and>
           dl_data m' (rev as) = rev (dl_data m as)"
proof -
  from a have L: "dlists m l = Some L" "l \<noteq> NULL"
    and ch: "dl_chain (dnodes m) NULL (dl_head L) as NULL"
    and sz: "unat (dl_size L) = length as"
    and tl: "dl_tail L = (if as = [] then NULL else last as)"
    by (simp_all add: dl_abs_def)
  show ?thesis
  proof (cases "dl_size L \<le> 1")
    case True
    with L have run: "doubly_list_reverse l m = Some (SUCCESS, m)"
      by (simp add: doubly_list_reverse_def)
    from True size_le_one[OF sz] have r: "rev as = as" by (simp add: rev_short)
    have "dl_data m (rev as) = rev (dl_data m as)" by (simp add: dl_data_def rev_map)
    with run a r show ?thesis by auto
  next
    case False
    with size_le_one[OF sz] have ln: "1 < length as" by simp
    then have asne: "as \<noteq> []" by auto
    define L' where "L' = L\<lparr>dl_head := dl_tail L, dl_tail := dl_head L\<rparr>"
    define m1 where "m1 = m\<lparr>dlists := (dlists m)(l \<mapsto> L')\<rparr>"
    have ch1: "dl_chain (dnodes m1) NULL (dl_head L) as NULL" using ch by (simp add: m1_def)
    from doubly_list_reverse_loop_chain[OF ch1] obtain m' where
      r: "doubly_list_reverse_loop (dl_head L) m1 = Some m'"
      and l1: "dlists m' = dlists m1"
      and s1: "\<forall>x \<in> set as. \<exists>n. dnodes m1 x = Some n \<and>
                 dnodes m' x = Some (n\<lparr>dn_prev := dn_next n, dn_next := dn_prev n\<rparr>)"
      by blast
    have run: "doubly_list_reverse l m = Some (SUCCESS, m')"
      using L False r by (simp add: doubly_list_reverse_def m1_def L'_def)
    have c': "dl_chain (dnodes m') NULL (last as) (rev as) NULL"
      by (rule dl_chain_swapped[OF ch1 s1 asne])
    have hd: "dl_head L = hd as" using ch asne by (cases as) auto
    have h': "dl_head L' = last as" using tl asne by (simp add: L'_def)
    have "dl_tail L' = last (rev as)" using hd asne by (simp add: L'_def last_rev)
    then have t': "dl_tail L' = (if rev as = [] then NULL else last (rev as))"
      using asne by simp
    have s': "unat (dl_size L') = length (rev as)" using sz by (simp add: L'_def)
    have ll: "dlists m' l = Some L'" using l1 by (simp add: m1_def)
    from c' h' have c'': "dl_chain (dnodes m') NULL (dl_head L') (rev as) NULL" by simp
    from ll L(2) c'' s' t' have abs': "dl_abs m' l L' (rev as)"
      unfolding dl_abs_def by blast
    have dd: "\<And>x. x \<in> set (rev as) \<Longrightarrow>
               map_option dn_data (dnodes m' x) = map_option dn_data (dnodes m x)"
    proof -
      fix x assume "x \<in> set (rev as)"
      then have "x \<in> set as" by simp
      with s1 obtain n where "dnodes m1 x = Some n"
        "dnodes m' x = Some (n\<lparr>dn_prev := dn_next n, dn_next := dn_prev n\<rparr>)" by blast
      then show "map_option dn_data (dnodes m' x) = map_option dn_data (dnodes m x)"
        by (simp add: m1_def)
    qed
    have "dl_data m' (rev as) = dl_data m (rev as)"
      by (rule dl_data_cong) (rule dd)
    also have "\<dots> = rev (dl_data m as)" by (simp add: dl_data_def rev_map)
    finally have dat: "dl_data m' (rev as) = rev (dl_data m as)" .
    have e1: "dl_size L' = dl_size L" and e2: "dl_element_size L' = dl_element_size L"
      by (simp_all add: L'_def)
    from run abs' e1 e2 dat show ?thesis by blast
  qed
qed

section \<open>The bytes of a vector\<close>

lemma unat_mult_fits:
  fixes i c e :: size_t
  assumes "unat i \<le> unat c" and "unat c * unat e < 2 ^ 64"
  shows "unat (i * e) = unat i * unat e"
proof -
  have a: "unat i * unat e \<le> unat c * unat e" using assms(1) by (rule mult_le_mono1)
  from le_less_trans[OF a assms(2)] have "unat i * unat e < 2 ^ LENGTH(64)" by simp
  then show ?thesis by (simp only: unat_mult_lem)
qed

lemma unat_succ_below:
  fixes s c :: size_t
  assumes "s < c"
  shows "unat (s + 1) = unat s + 1"
proof -
  from assms have "unat s < unat c" by (simp add: word_less_nat_alt)
  moreover have "unat c < 2 ^ 64" using unsigned_less[of c] by simp
  ultimately have "unat s + unat (1 :: size_t) < 2 ^ LENGTH(64)" by simp
  then show ?thesis by (simp only: unat_add_lem) simp
qed

lemma v_wf_D:
  assumes "v_wf m p" and "vecs m p = Some v"
  shows "p \<noteq> NULL" and "v_element_size v \<noteq> 0" and "v_size v \<le> v_capacity v"
    and "unat (v_capacity v) * unat (v_element_size v) < 2 ^ 64"
    and "v_capacity v = 0 \<Longrightarrow> v_data v = NULL"
    and "v_capacity v \<noteq> 0 \<Longrightarrow> v_data v \<noteq> NULL \<and>
           (\<exists>buf. bufs m (v_data v) = Some buf \<and>
                  length buf = unat (v_capacity v) * unat (v_element_size v))"
  using assms by (auto simp: v_wf_def split: option.splits if_splits)

lemma v_wf_I:
  assumes "vecs m p = Some v" and "p \<noteq> NULL" and "v_element_size v \<noteq> 0"
    and "v_size v \<le> v_capacity v"
    and "unat (v_capacity v) * unat (v_element_size v) < 2 ^ 64"
    and "v_capacity v \<noteq> 0" and "v_data v \<noteq> NULL"
    and "bufs m (v_data v) = Some buf"
    and "length buf = unat (v_capacity v) * unat (v_element_size v)"
  shows "v_wf m p"
  using assms by (simp add: v_wf_def)

text \<open>Reading an element of a well-formed vector.\<close>

lemma vector_get_wf:
  assumes wf: "v_wf m p" and v: "vecs m p = Some v" and i: "index < v_size v"
  shows "vector_get p index True m =
           Some (SUCCESS, Some (take (unat (v_element_size v))
                                  (drop (unat index * unat (v_element_size v)) (v_bytes m v))))"
    and "unat index * unat (v_element_size v) + unat (v_element_size v)
           \<le> unat (v_size v) * unat (v_element_size v)"
proof -
  note d = v_wf_D[OF wf v]
  let ?es = "unat (v_element_size v)"
  from i d(3) have ic: "unat index < unat (v_size v)" "unat (v_size v) \<le> unat (v_capacity v)"
    by (simp_all add: word_less_nat_alt word_le_nat_alt)
  then have "v_capacity v \<noteq> 0" by (auto simp: unat_0_iff[symmetric])
  from d(6)[OF this] obtain buf where nn: "v_data v \<noteq> NULL"
    and buf: "bufs m (v_data v) = Some buf"
    and len: "length buf = unat (v_capacity v) * ?es" by blast
  have off: "unat (index * v_element_size v) = unat index * ?es"
    using ic d(4) by (intro unat_mult_fits[of _ "v_capacity v"]) simp_all
  have "(unat index + 1) * ?es \<le> unat (v_size v) * ?es"
    using ic(1) by (intro mult_le_mono1) simp
  then show b1: "unat index * ?es + ?es \<le> unat (v_size v) * ?es" by simp
  have sc: "unat (v_size v) * ?es \<le> unat (v_capacity v) * ?es"
    using ic(2) by (rule mult_le_mono1)
  from order_trans[OF b1 sc] len have b2: "unat index * ?es + ?es \<le> length buf" by simp
  have es: "?es \<noteq> 0" using d(2) by (simp add: unat_0_iff)
  have ni: "\<not> v_size v \<le> index" using i by simp
  have rd: "mem_read (v_data v) (unat index * ?es) ?es m = Some (take ?es (drop (unat index * ?es) buf))"
    using buf b2 es by (simp add: mem_read_def)
  have "take ?es (drop (unat index * ?es) (v_bytes m v)) = take ?es (drop (unat index * ?es) buf)"
    using buf b1 by (simp add: v_bytes_def drop_take min_def)
  with rd v d(1) ni off
  show "vector_get p index True m =
           Some (SUCCESS, Some (take ?es (drop (unat index * ?es) (v_bytes m v))))"
    by (simp add: vector_get_def vector_check_index_def)
qed

lemma length_fresh_bytes [simp]: "length (fresh_bytes n junk) = n"
  by (simp add: fresh_bytes_def)

lemma mem_realloc_success:
  assumes r: "mem_realloc p n m = Some (q, m')" and q: "q \<noteq> NULL"
    and old: "if p = NULL then old = [] else bufs m p = Some old"
  shows "\<exists>junk. bufs m' q = Some (take (unat n) (old @ fresh_bytes (unat n) junk))"
proof (cases "p = NULL")
  case True
  with r q have "mem_alloc n m = Some (q, m')"
    by (simp add: mem_realloc_def split: if_splits)
  with q obtain junk where "bufs m' q = Some (fresh_bytes (unat n) junk)"
    by (auto simp: mem_alloc_def split: if_splits list.splits)
  with True old show ?thesis by auto
next
  case False
  with old have o: "bufs m p = Some old" by simp
  from r q False o obtain junk rest where pl: "vplan m = (q, junk) # rest"
    by (auto simp: mem_realloc_def split: if_splits list.splits)
  with r q False o have "bufs m' q = Some (take (unat n) (old @ fresh_bytes (unat n) junk))"
    by (auto simp: mem_realloc_def split: if_splits)
  then show ?thesis by blast
qed

lemma vector_reserve_wf:
  assumes wf: "v_wf m p" and v: "vecs m p = Some v"
    and r: "vector_reserve p nc m = Some (SUCCESS, m')"
    and gt: "v_capacity v < nc"
    and fits: "unat nc * unat (v_element_size v) < 2 ^ 64"
  shows "\<exists>d. vecs m' = (vecs m)(p \<mapsto> v\<lparr>v_data := d, v_capacity := nc\<rparr>) \<and> v_wf m' p \<and>
             v_bytes m' (v\<lparr>v_data := d, v_capacity := nc\<rparr>) = v_bytes m v"
proof -
  note d = v_wf_D[OF wf v]
  let ?es = "unat (v_element_size v)"
  let ?n = "nc * v_element_size v"
  have un: "unat ?n = unat nc * ?es"
    using fits by (intro unat_mult_fits[of nc nc]) simp_all
  have nle: "\<not> nc \<le> v_capacity v" using gt by simp
  from r v d(1) nle obtain nd m1 where
    re: "mem_realloc (v_data v) ?n m = Some (nd, m1)" and ndn: "nd \<noteq> NULL"
    and m': "m' = m1\<lparr>vecs := (vecs m1)(p \<mapsto> v\<lparr>v_data := nd, v_capacity := nc\<rparr>)\<rparr>"
    by (auto simp: vector_reserve_def split: Option.bind_splits if_splits)
  let ?v' = "v\<lparr>v_data := nd, v_capacity := nc\<rparr>"
  have ve: "vecs m' = (vecs m)(p \<mapsto> ?v')" using m' mem_realloc_vecs[OF re] by simp
  define old where
    "old = (if v_data v = NULL then [] else (case bufs m (v_data v) of None \<Rightarrow> [] | Some b \<Rightarrow> b))"
  have oldc: "if v_data v = NULL then old = [] else bufs m (v_data v) = Some old"
  proof (cases "v_data v = NULL")
    case True
    then show ?thesis by (simp add: old_def)
  next
    case False
    with d(5) have "v_capacity v \<noteq> 0" by auto
    from d(6)[OF this] False show ?thesis by (auto simp: old_def)
  qed
  from mem_realloc_success[OF re ndn oldc] obtain junk where
    nb: "bufs m1 nd = Some (take (unat ?n) (old @ fresh_bytes (unat ?n) junk))" by blast
  define new where "new = take (unat ?n) (old @ fresh_bytes (unat ?n) junk)"
  have ln: "length new = unat nc * ?es" by (simp add: new_def un)
  have b': "bufs m' nd = Some new" using nb m' by (simp add: new_def)
  have v': "vecs m' p = Some ?v'" using ve by simp
  have szc: "v_size ?v' \<le> v_capacity ?v'" using d(3) gt by simp
  have ncn: "v_capacity ?v' \<noteq> 0" using gt by (auto simp: word_less_nat_alt unat_0_iff[symmetric])
  have wf': "v_wf m' p"
    by (rule v_wf_I[OF v' d(1) _ szc _ ncn _ _ _, where buf=new])
       (use d(2) fits ndn b' ln in simp_all)
  have sl: "unat (v_size v) * ?es \<le> unat (v_capacity v) * ?es"
    using d(3) by (intro mult_le_mono1) (simp add: word_le_nat_alt)
  have cl: "unat (v_capacity v) * ?es \<le> unat nc * ?es"
    using gt by (intro mult_le_mono1) (simp add: word_less_nat_alt)
  have bytes: "v_bytes m' ?v' = v_bytes m v"
  proof (cases "v_data v = NULL")
    case True
    with d(6) have "v_capacity v = 0" by auto
    with d(3) have "v_size v = 0" by (simp add: word_le_nat_alt unat_0_iff[symmetric])
    with b' show ?thesis by (simp add: v_bytes_def split: option.splits)
  next
    case False
    with d(5) have "v_capacity v \<noteq> 0" by auto
    from d(6)[OF this] oldc False have lo: "length old = unat (v_capacity v) * ?es"
      and bo: "bufs m (v_data v) = Some old" by auto
    have "take (unat (v_size v) * ?es) new = take (unat (v_size v) * ?es) old"
      using sl cl lo by (simp add: new_def un min_def)
    with b' bo show ?thesis by (simp add: v_bytes_def)
  qed
  from ve wf' bytes show ?thesis by blast
qed

lemma vector_check_grow_wf:
  assumes wf: "v_wf m p" and v: "vecs m p = Some v" and fits: "growth_fits v"
    and r: "vector_check_grow p m = Some (SUCCESS, m')"
  shows "\<exists>v'. vecs m' = (vecs m)(p \<mapsto> v') \<and> v_wf m' p \<and>
             v_size v' = v_size v \<and> v_element_size v' = v_element_size v \<and>
             v_size v < v_capacity v' \<and> v_bytes m' v' = v_bytes m v"
proof (cases "v_size v < v_capacity v")
  case True
  then have "\<not> v_capacity v \<le> v_size v" by (simp only: not_le)
  with r v have "m' = m" by (simp add: vector_check_grow_def)
  have "vecs m = (vecs m)(p \<mapsto> v)" using v by (simp add: map_upd_triv)
  with wf True \<open>m' = m\<close> show ?thesis by blast
next
  case False
  then have ge: "v_capacity v \<le> v_size v" by simp
  note d = v_wf_D[OF wf v]
  from r v ge obtain nc where nc: "grown_capacity (v_capacity v) = Some nc"
    and re: "vector_reserve p nc m = Some (SUCCESS, m')"
    by (auto simp: vector_check_grow_def split: Option.bind_splits)
  from grown_capacity_greater[OF nc] have gt: "v_capacity v < nc" .
  from fits False nc have f: "unat nc * unat (v_element_size v) < 2 ^ 64"
    by (simp add: growth_fits_def)
  from vector_reserve_wf[OF wf v re gt f] obtain dd where
    ve: "vecs m' = (vecs m)(p \<mapsto> v\<lparr>v_data := dd, v_capacity := nc\<rparr>)"
    and wf': "v_wf m' p"
    and vb: "v_bytes m' (v\<lparr>v_data := dd, v_capacity := nc\<rparr>) = v_bytes m v" by blast
  have "v_size v < nc" using d(3) gt by simp
  with ve wf' vb show ?thesis by auto
qed

text \<open>Three facts about slices of a concatenation.\<close>

lemma slice_before: "off + k \<le> length A \<Longrightarrow> take k (drop off (A @ R)) = take k (drop off A)"
  by simp

lemma slice_at: "length A = off \<Longrightarrow> length S = k \<Longrightarrow> take k (drop off (A @ S @ R)) = S"
  by simp

lemma slice_after:
  "length A = a \<Longrightarrow> length S = k \<Longrightarrow> a + k \<le> off \<Longrightarrow>
     drop off (A @ S @ R) = drop (off - a - k) R"
  by simp

lemma vector_push_back_wf:
  assumes wf: "v_wf m p" and v: "vecs m p = Some v" and fits: "growth_fits v"
    and e: "unat (v_element_size v) \<le> length e"
    and r: "vector_push_back p (Some e) m = Some (SUCCESS, m')"
  shows "\<exists>v'. vecs m' p = Some v' \<and> v_wf m' p \<and>
             unat (v_size v') = unat (v_size v) + 1 \<and>
             v_element_size v' = v_element_size v \<and>
             v_bytes m' v' = v_bytes m v @ take (unat (v_element_size v)) e"
proof -
  note d = v_wf_D[OF wf v]
  from r d(1) obtain st1 m1 where g: "vector_check_grow p m = Some (st1, m1)"
    by (auto simp: vector_push_back_def split: Option.bind_splits)
  have st1: "st1 = SUCCESS"
  proof (rule ccontr)
    assume "st1 \<noteq> SUCCESS"
    with r g d(1) show False by (simp add: vector_push_back_def)
  qed
  from vector_check_grow_wf[OF wf v fits g[unfolded st1]] obtain v1 where
    ve: "vecs m1 = (vecs m)(p \<mapsto> v1)" and wf1: "v_wf m1 p"
    and s1: "v_size v1 = v_size v" and e1: "v_element_size v1 = v_element_size v"
    and c1: "v_size v < v_capacity v1" and b1: "v_bytes m1 v1 = v_bytes m v" by blast
  have v1: "vecs m1 p = Some v1" using ve by simp
  note d1 = v_wf_D[OF wf1 v1]
  let ?es = "unat (v_element_size v)"
  let ?src = "take ?es e"
  have cn: "v_capacity v1 \<noteq> 0" using c1 by (auto simp: word_less_nat_alt unat_0_iff[symmetric])
  from d1(6)[OF cn] e1 obtain buf where dn: "v_data v1 \<noteq> NULL"
    and buf: "bufs m1 (v_data v1) = Some buf"
    and len: "length buf = unat (v_capacity v1) * ?es" by auto
  have sc: "unat (v_size v) < unat (v_capacity v1)" using c1 by (simp add: word_less_nat_alt)
  have off: "unat (v_size v1 * v_element_size v1) = unat (v_size v) * ?es"
  proof -
    have "unat (v_size v1) \<le> unat (v_capacity v1)" using sc s1 by simp
    from unat_mult_fits[OF this d1(4)] show ?thesis using s1 e1 by simp
  qed
  have "(unat (v_size v) + 1) * ?es \<le> unat (v_capacity v1) * ?es"
    using sc by (intro mult_le_mono1) simp
  then have room: "unat (v_size v) * ?es + ?es \<le> length buf" using len by simp
  have esn: "?es \<noteq> 0" using d(2) by (simp add: unat_0_iff)
  have srcn: "?src \<noteq> []" "length ?src = ?es" using e esn by auto
  have cb: "caller_bytes e (unat (v_element_size v1)) = Some ?src"
    using e e1 by (simp add: caller_bytes_def)
  define buf' where "buf' = take (unat (v_size v) * ?es) buf @ ?src @
                            drop (unat (v_size v) * ?es + ?es) buf"
  define m2 where "m2 = m1\<lparr>bufs := (bufs m1)(v_data v1 \<mapsto> buf')\<rparr>"
  have w: "mem_write (v_data v1) (unat (v_size v) * ?es) ?src m1 = Some m2"
    using buf room srcn by (simp add: mem_write_def m2_def buf'_def)
  define v' where "v' = v1\<lparr>v_size := v_size v1 + 1\<rparr>"
  have m': "m' = m2\<lparr>vecs := (vecs m2)(p \<mapsto> v')\<rparr>"
    using r g st1 d(1) v1 cb w off by (simp add: vector_push_back_def v'_def)
  have vv: "vecs m' p = Some v'" using m' by simp
  have sz: "unat (v_size v') = unat (v_size v) + 1"
    using unat_succ_below[OF c1] s1 by (simp add: v'_def)
  have lb: "length buf' = length buf" using room srcn by (simp add: buf'_def)
  have b': "bufs m' (v_data v') = Some buf'" using m' by (simp add: m2_def v'_def)
  have le': "v_size v' \<le> v_capacity v'"
    using sz sc by (simp add: word_le_nat_alt v'_def)
  have wf': "v_wf m' p"
    by (rule v_wf_I[OF vv d(1) _ le' _ _ _ b'])
       (use d1(2,4) cn dn lb len e1 in \<open>simp_all add: v'_def\<close>)
  have "v_bytes m' v' = take ((unat (v_size v) + 1) * ?es) buf'"
    using b' sz e1 by (simp add: v_bytes_def v'_def)
  also have "\<dots> = take (unat (v_size v) * ?es) buf @ ?src"
    using room srcn by (simp add: buf'_def)
  also have "take (unat (v_size v) * ?es) buf = v_bytes m1 v1"
    using buf s1 e1 by (simp add: v_bytes_def)
  finally have vb: "v_bytes m' v' = v_bytes m v @ ?src" using b1 by simp
  have ee: "v_element_size v' = v_element_size v" using e1 by (simp add: v'_def)
  from vv wf' sz ee vb show ?thesis by blast
qed

text \<open>The buffer after the shift and the write of an insertion, as lists.\<close>

lemma insert_bytes:
  fixes buf src :: "byte list"
  assumes "a \<le> t" and "t + k \<le> length buf" and "length src = k"
  defines "buf2 \<equiv> take (a + k) buf @ take (t - a) (drop a buf) @ drop (a + k + (t - a)) buf"
  defines "buf3 \<equiv> take a buf2 @ src @ drop (a + k) buf2"
  shows "length buf2 = length buf" and "length buf3 = length buf"
    and "take (t + k) buf3 = take a (take t buf) @ src @ drop a (take t buf)"
proof -
  show l2: "length buf2 = length buf" using assms(1-3) by (simp add: buf2_def)
  show "length buf3 = length buf" using assms(1-3) l2 by (simp add: buf3_def)
  have t2: "take a buf2 = take a buf" using assms(1-3) by (simp add: buf2_def)
  have d2: "take (t - a) (drop (a + k) buf2) = take (t - a) (drop a buf)"
    using assms(1-3) by (simp add: buf2_def)
  have "take (t + k) buf3 = take a buf @ src @ take (t - a) (drop (a + k) buf2)"
    using assms(1-3) l2 by (simp add: buf3_def t2)
  also have "\<dots> = take a buf @ src @ take (t - a) (drop a buf)" by (simp only: d2)
  also have "take a buf = take a (take t buf)" using assms(1) by (simp add: min_def)
  also have "take (t - a) (drop a buf) = drop a (take t buf)" by (simp add: drop_take)
  finally show "take (t + k) buf3 = take a (take t buf) @ src @ drop a (take t buf)" .
qed

lemma vector_insert_wf:
  assumes wf: "v_wf m p" and v: "vecs m p = Some v" and fits: "growth_fits v"
    and e: "unat (v_element_size v) \<le> length e"
    and idx: "index \<le> v_size v"
    and r: "vector_insert p index (Some e) m = Some (SUCCESS, m')"
  shows "\<exists>v'. vecs m' p = Some v' \<and> v_wf m' p \<and>
             unat (v_size v') = unat (v_size v) + 1 \<and>
             v_element_size v' = v_element_size v \<and>
             v_bytes m' v' =
               take (unat index * unat (v_element_size v)) (v_bytes m v) @
               take (unat (v_element_size v)) e @
               drop (unat index * unat (v_element_size v)) (v_bytes m v)"
proof -
  note d = v_wf_D[OF wf v]
  have ni: "\<not> v_size v < index" using idx by (simp only: not_less)
  from r d(1) v ni obtain st1 m1 where g: "vector_check_grow p m = Some (st1, m1)"
    by (auto simp: vector_insert_def split: Option.bind_splits)
  have st1: "st1 = SUCCESS"
  proof (rule ccontr)
    assume "st1 \<noteq> SUCCESS"
    with r g d(1) v ni show False by (simp add: vector_insert_def)
  qed
  from vector_check_grow_wf[OF wf v fits g[unfolded st1]] obtain v1 where
    ve: "vecs m1 = (vecs m)(p \<mapsto> v1)" and wf1: "v_wf m1 p"
    and s1: "v_size v1 = v_size v" and e1: "v_element_size v1 = v_element_size v"
    and c1: "v_size v < v_capacity v1" and b1: "v_bytes m1 v1 = v_bytes m v" by blast
  have v1: "vecs m1 p = Some v1" using ve by simp
  note d1 = v_wf_D[OF wf1 v1]
  let ?es = "unat (v_element_size v)"
  let ?src = "take ?es e"
  let ?B = "v_bytes m v"
  have cn: "v_capacity v1 \<noteq> 0" using c1 by (auto simp: word_less_nat_alt unat_0_iff[symmetric])
  from d1(6)[OF cn] e1 obtain buf where dn: "v_data v1 \<noteq> NULL"
    and buf: "bufs m1 (v_data v1) = Some buf"
    and len: "length buf = unat (v_capacity v1) * ?es" by auto
  have sc: "unat (v_size v) < unat (v_capacity v1)" using c1 by (simp add: word_less_nat_alt)
  have B: "?B = take (unat (v_size v) * ?es) buf"
    using b1[symmetric] buf s1 e1 by (simp add: v_bytes_def)
  have "(unat (v_size v) + 1) * ?es \<le> unat (v_capacity v1) * ?es"
    using sc by (intro mult_le_mono1) simp
  then have room: "unat (v_size v) * ?es + ?es \<le> length buf" using len by simp
  have lB: "length ?B = unat (v_size v) * ?es" using B room by simp
  show ?thesis
  proof (cases "index = v_size v")
    case True
    have pb: "vector_push_back p (Some e) m1 = Some (SUCCESS, m')"
      using r g st1 d(1) v ni v1 True s1 by (simp add: vector_insert_def)
    have f1: "growth_fits v1" using c1 s1 by (simp add: growth_fits_def)
    from vector_push_back_wf[OF wf1 v1 f1 e[folded e1] pb] obtain v' where
      a: "vecs m' p = Some v'" "v_wf m' p" "unat (v_size v') = unat (v_size v1) + 1"
         "v_element_size v' = v_element_size v1"
      and b: "v_bytes m' v' = v_bytes m1 v1 @ take (unat (v_element_size v1)) e" by blast
    have "v_bytes m' v' = take (unat index * ?es) ?B @ ?src @ drop (unat index * ?es) ?B"
      using b b1 e1 lB True by simp
    with a s1 e1 show ?thesis by auto
  next
    case False
    then have lt: "index < v_size v" using idx by simp
    have il: "unat index < unat (v_size v)" using lt by (simp add: word_less_nat_alt)
    have ic: "unat index \<le> unat (v_capacity v1)" using il sc by simp
    have i1: "unat (index + 1) = unat index + 1" by (rule unat_succ_below[OF lt])
    have i1c: "unat (index + 1) \<le> unat (v_capacity v1)" using i1 il sc by simp
    have sub: "unat (v_size v - index) = unat (v_size v) - unat index"
      using idx by (simp add: unat_sub)
    have subc: "unat (v_size v - index) \<le> unat (v_capacity v1)" using sub sc by simp
    have o1: "unat ((index + 1) * v_element_size v) = (unat index + 1) * ?es"
      using unat_mult_fits[OF i1c d1(4)] i1 e1 by simp
    have o2: "unat (index * v_element_size v) = unat index * ?es"
      using unat_mult_fits[OF ic d1(4)] e1 by simp
    have o3: "unat ((v_size v1 - index) * v_element_size v) =
              (unat (v_size v) - unat index) * ?es"
      using unat_mult_fits[OF subc[folded s1] d1(4)] sub e1 s1 by simp
    define a where "a = unat index * ?es"
    define t where "t = unat (v_size v) * ?es"
    have at: "a \<le> t" using il by (simp add: a_def t_def)
    have ta: "(unat (v_size v) - unat index) * ?es = t - a"
      by (simp add: a_def t_def diff_mult_distrib)
    have ak: "(unat index + 1) * ?es = a + ?es" by (simp add: a_def)
    have tk: "t + ?es \<le> length buf" using room by (simp add: t_def)
    have esn: "?es \<noteq> 0" using d(2) by (simp add: unat_0_iff)
    have srcl: "length ?src = ?es" using e by simp
    have srcn: "?src \<noteq> []" using srcl esn by auto
    have tan: "t - a \<noteq> 0"
    proof -
      have "unat (v_size v) - unat index \<noteq> 0" using il by simp
      with esn show ?thesis unfolding ta[symmetric] by simp
    qed
    define bs where "bs = take (t - a) (drop a buf)"
    have lbs: "length bs = t - a" using at tk by (simp add: bs_def)
    have bsn: "bs \<noteq> []" using lbs tan by auto
    define buf2 where "buf2 = take (a + ?es) buf @ take (t - a) (drop a buf) @
                              drop (a + ?es + (t - a)) buf"
    define buf3 where "buf3 = take a buf2 @ ?src @ drop (a + ?es) buf2"
    note ib = insert_bytes[OF at tk srcl, folded buf2_def, folded buf3_def]
    define m2 where "m2 = m1\<lparr>bufs := (bufs m1)(v_data v1 \<mapsto> buf2)\<rparr>"
    define m3 where "m3 = m2\<lparr>bufs := (bufs m2)(v_data v1 \<mapsto> buf3)\<rparr>"
    have rd: "mem_read (v_data v1) a (t - a) m1 = Some bs"
      using buf at tk tan by (simp add: mem_read_def bs_def)
    have wr: "mem_write (v_data v1) (a + ?es) bs m1 = Some m2"
      using buf at tk bsn lbs by (simp add: mem_write_def m2_def buf2_def bs_def)
    have mv: "mem_move (v_data v1) (a + ?es) a (t - a) m1 = Some m2"
      using rd wr by (simp add: mem_move_def)
    have mv': "mem_move (v_data v1) (?es + a) a (t - a) m1 = Some m2"
      using mv by (simp only: add.commute)
    have b2: "bufs m2 (v_data v1) = Some buf2" by (simp add: m2_def)
    have w2: "mem_write (v_data v1) a ?src m2 = Some m3"
      using b2 srcn srcl ib(1) at tk by (simp add: mem_write_def m3_def buf3_def)
    have cb: "caller_bytes e ?es = Some ?src"
      using e by (simp add: caller_bytes_def)
    define v' where "v' = v1\<lparr>v_size := v_size v1 + 1\<rparr>"
    have ne: "index \<noteq> v_size v1" using False s1 by simp
    have m': "m' = m3\<lparr>vecs := (vecs m3)(p \<mapsto> v')\<rparr>"
      using r g st1 d(1) v ni v1 ne
      by (simp add: vector_insert_def e1 o1 o2 o3 ta ak a_def[symmetric] mv' cb w2 v'_def)
    have vv: "vecs m' p = Some v'" using m' by simp
    have sz: "unat (v_size v') = unat (v_size v) + 1"
      using unat_succ_below[OF c1] s1 by (simp add: v'_def)
    have b': "bufs m' (v_data v') = Some buf3" using m' by (simp add: m3_def v'_def)
    have le': "v_size v' \<le> v_capacity v'"
      using sz sc by (simp add: word_le_nat_alt v'_def)
    have wf': "v_wf m' p"
      by (rule v_wf_I[OF vv d(1) _ le' _ _ _ b'])
         (use d1(2,4) cn dn ib(2) len e1 in \<open>simp_all add: v'_def\<close>)
    have "v_bytes m' v' = take (t + ?es) buf3"
      using b' sz e1 by (simp add: v_bytes_def v'_def t_def add.commute)
    also have "\<dots> = take a (take t buf) @ ?src @ drop a (take t buf)" by (rule ib(3))
    finally have vb: "v_bytes m' v' = take a ?B @ ?src @ drop a ?B"
      using B by (simp add: t_def)
    have ee: "v_element_size v' = v_element_size v" using e1 by (simp add: v'_def)
    from vv wf' sz ee vb show ?thesis unfolding a_def by blast
  qed
qed

text \<open>With room left in the buffer an insertion allocates nothing and succeeds.\<close>

lemma vector_room:
  assumes wf: "v_wf m p" and v: "vecs m p = Some v" and c: "v_size v < v_capacity v"
  shows "vector_check_grow p m = Some (SUCCESS, m)"
    and "\<exists>buf. bufs m (v_data v) = Some buf \<and>
               unat (v_size v) * unat (v_element_size v) + unat (v_element_size v) \<le> length buf"
    and "unat (v_size v * v_element_size v) = unat (v_size v) * unat (v_element_size v)"
proof -
  note d = v_wf_D[OF wf v]
  let ?es = "unat (v_element_size v)"
  have nc: "\<not> v_capacity v \<le> v_size v" using c by (simp only: not_le)
  show "vector_check_grow p m = Some (SUCCESS, m)"
    using v nc by (simp add: vector_check_grow_def)
  have sc: "unat (v_size v) < unat (v_capacity v)" using c by (simp add: word_less_nat_alt)
  have cn: "v_capacity v \<noteq> 0" using c by (auto simp: word_less_nat_alt unat_0_iff[symmetric])
  from d(6)[OF cn] obtain buf where buf: "bufs m (v_data v) = Some buf"
    and len: "length buf = unat (v_capacity v) * ?es" by auto
  have "(unat (v_size v) + 1) * ?es \<le> unat (v_capacity v) * ?es"
    using sc by (intro mult_le_mono1) simp
  then have "unat (v_size v) * ?es + ?es \<le> length buf" using len by simp
  with buf show "\<exists>buf. bufs m (v_data v) = Some buf \<and>
               unat (v_size v) * ?es + ?es \<le> length buf" by blast
  have "unat (v_size v) \<le> unat (v_capacity v)" using sc by simp
  from unat_mult_fits[OF this d(4)]
  show "unat (v_size v * v_element_size v) = unat (v_size v) * ?es" .
qed

lemma vector_push_back_total:
  assumes wf: "v_wf m p" and v: "vecs m p = Some v" and c: "v_size v < v_capacity v"
    and e: "unat (v_element_size v) \<le> length e"
  shows "\<exists>m'. vector_push_back p (Some e) m = Some (SUCCESS, m')"
proof -
  note d = v_wf_D[OF wf v]
  note rm = vector_room[OF wf v c]
  let ?es = "unat (v_element_size v)"
  from rm(2) obtain buf where buf: "bufs m (v_data v) = Some buf"
    and room: "unat (v_size v) * ?es + ?es \<le> length buf" by blast
  have w: "\<exists>m2. mem_write (v_data v) (unat (v_size v) * ?es) (take ?es e) m = Some m2"
    using buf room e by (simp add: mem_write_def)
  then obtain m2 where w2: "mem_write (v_data v) (unat (v_size v) * ?es) (take ?es e) m = Some m2"
    by blast
  show ?thesis
    using d(1) v e rm(1) rm(3) w2 by (simp add: vector_push_back_def caller_bytes_def)
qed

lemma vector_insert_total:
  assumes wf: "v_wf m p" and v: "vecs m p = Some v" and c: "v_size v < v_capacity v"
    and e: "unat (v_element_size v) \<le> length e" and idx: "index \<le> v_size v"
  shows "\<exists>m'. vector_insert p index (Some e) m = Some (SUCCESS, m')"
proof (cases "index = v_size v")
  case True
  note d = v_wf_D[OF wf v]
  have ni: "\<not> v_size v < index" using idx by (simp only: not_less)
  from vector_push_back_total[OF wf v c e] obtain m' where
    "vector_push_back p (Some e) m = Some (SUCCESS, m')" by blast
  then show ?thesis
    using d(1) v ni True vector_room(1)[OF wf v c] by (simp add: vector_insert_def)
next
  case False
  note d = v_wf_D[OF wf v]
  note rm = vector_room[OF wf v c]
  let ?es = "unat (v_element_size v)"
  have ni: "\<not> v_size v < index" using idx by (simp only: not_less)
  from rm(2) obtain buf where buf: "bufs m (v_data v) = Some buf"
    and room: "unat (v_size v) * ?es + ?es \<le> length buf" by blast
  have lt: "index < v_size v" using False idx by simp
  have il: "unat index < unat (v_size v)" using lt by (simp add: word_less_nat_alt)
  have sc: "unat (v_size v) < unat (v_capacity v)" using c by (simp add: word_less_nat_alt)
  have ic: "unat index \<le> unat (v_capacity v)" using il sc by simp
  have i1: "unat (index + 1) = unat index + 1" by (rule unat_succ_below[OF lt])
  have i1c: "unat (index + 1) \<le> unat (v_capacity v)" using i1 il sc by simp
  have sub: "unat (v_size v - index) = unat (v_size v) - unat index"
    using idx by (simp add: unat_sub)
  have subc: "unat (v_size v - index) \<le> unat (v_capacity v)" using sub sc by simp
  define a where "a = unat index * ?es"
  define t where "t = unat (v_size v) * ?es"
  have at: "a \<le> t" using il by (simp add: a_def t_def)
  have o1: "unat ((index + 1) * v_element_size v) = ?es + a"
    using unat_mult_fits[OF i1c d(4)] i1 by (simp add: a_def)
  have o2: "unat (index * v_element_size v) = a"
    using unat_mult_fits[OF ic d(4)] by (simp add: a_def)
  have o3: "unat ((v_size v - index) * v_element_size v) = t - a"
    using unat_mult_fits[OF subc d(4)] sub by (simp add: a_def t_def diff_mult_distrib)
  have tk: "t + ?es \<le> length buf" using room by (simp add: t_def)
  define bs where "bs = take (t - a) (drop a buf)"
  have lbs: "length bs = t - a" using at tk by (simp add: bs_def)
  have rd: "mem_read (v_data v) a (t - a) m = Some (if t - a = 0 then [] else bs)"
    using buf at tk by (simp add: mem_read_def bs_def)
  have "\<exists>m2. mem_write (v_data v) (?es + a) (if t - a = 0 then [] else bs) m = Some m2 \<and>
              (\<exists>buf2. bufs m2 (v_data v) = Some buf2 \<and> length buf2 = length buf)"
    using buf at tk lbs by (simp add: mem_write_def)
  then obtain m2 buf2 where
    wr: "mem_write (v_data v) (?es + a) (if t - a = 0 then [] else bs) m = Some m2"
    and b2: "bufs m2 (v_data v) = Some buf2" and l2: "length buf2 = length buf" by blast
  have mv: "mem_move (v_data v) (?es + a) a (t - a) m = Some m2"
    using rd wr by (simp add: mem_move_def)
  have "\<exists>m3. mem_write (v_data v) a (take ?es e) m2 = Some m3"
    using b2 l2 at tk e by (simp add: mem_write_def)
  then obtain m3 where w3: "mem_write (v_data v) a (take ?es e) m2 = Some m3" by blast
  show ?thesis
    using d(1) v ni False rm(1) e
    by (simp add: vector_insert_def o1 o2 o3 mv caller_bytes_def w3)
qed

lemma v_bytes_length:
  assumes wf: "v_wf m p" and v: "vecs m p = Some v"
  shows "length (v_bytes m v) = unat (v_size v) * unat (v_element_size v)"
proof (cases "v_capacity v = 0")
  case True
  with v_wf_D(3)[OF wf v] have "v_size v = 0" by simp
  then show ?thesis by (simp add: v_bytes_def split: option.splits)
next
  case False
  from v_wf_D(6)[OF wf v False] obtain buf where buf: "bufs m (v_data v) = Some buf"
    and len: "length buf = unat (v_capacity v) * unat (v_element_size v)" by blast
  have "unat (v_size v) \<le> unat (v_capacity v)"
    using v_wf_D(3)[OF wf v] by (simp add: word_le_nat_alt)
  then have "unat (v_size v) * unat (v_element_size v) \<le> length buf"
    unfolding len by (rule mult_le_mono1)
  with buf show ?thesis by (simp add: v_bytes_def)
qed

section \<open>Vector: the footprint of every mutating operation\<close>

lemma vector_pop_back_step:
  assumes r: "vector_pop_back vector out m = Some (st, bs, m')"
    and v: "vecs m vector = Some v" and nn: "vector \<noteq> NULL"
  shows "\<exists>v'. vec_step m m' vector v v' \<and> v_capacity v' = v_capacity v"
proof (cases "v_size v = 0")
  case True
  with r v nn have "m' = m" by (simp add: vector_pop_back_def)
  with vec_step_same[OF v] show ?thesis by auto
next
  case False
  with r v nn have m': "m' = m\<lparr>vecs := (vecs m)(vector \<mapsto> v\<lparr>v_size := v_size v - 1\<rparr>)\<rparr>"
    by (auto simp: vector_pop_back_def split: Option.bind_splits if_splits)
  have "vec_step m m' vector v (v\<lparr>v_size := v_size v - 1\<rparr>)"
    by (rule vec_step_write[OF v _ _ m']) simp_all
  then show ?thesis by auto
qed

lemma vector_clear_step:
  assumes r: "vector_clear vector m = Some m'"
    and v: "vecs m vector = Some v" and nn: "vector \<noteq> NULL"
  shows "\<exists>v'. vec_step m m' vector v v' \<and> v_capacity v' = v_capacity v"
proof -
  from r v nn have m': "m' = m\<lparr>vecs := (vecs m)(vector \<mapsto> v\<lparr>v_size := 0\<rparr>)\<rparr>"
    by (simp add: vector_clear_def)
  have "vec_step m m' vector v (v\<lparr>v_size := 0\<rparr>)"
    by (rule vec_step_write[OF v _ _ m']) simp_all
  then show ?thesis by auto
qed

lemma vector_set_step:
  assumes r: "vector_set vector index e m = Some (st, m')"
    and v: "vecs m vector = Some v" and nn: "vector \<noteq> NULL"
  shows "vec_step m m' vector v v"
proof (cases "st = SUCCESS")
  case False
  with r v nn have "m' = m"
    by (auto simp: vector_set_def Let_def split: option.splits Option.bind_splits if_splits)
  with vec_step_same[OF v] show ?thesis by auto
next
  case True
  with r v nn obtain src off where w: "mem_write (v_data v) off src m = Some m'"
    by (auto simp: vector_set_def Let_def split: option.splits Option.bind_splits if_splits)
  have a: "vecs m' = (vecs m)(vector \<mapsto> v)" using mem_write_vecs[OF w] v by (simp add: map_upd_triv)
  show ?thesis unfolding vec_step_def using a mem_write_frame[OF w] by simp
qed

lemma vector_remove_step:
  assumes r: "vector_remove vector index m = Some (st, m')"
    and v: "vecs m vector = Some v" and nn: "vector \<noteq> NULL"
  shows "\<exists>v'. vec_step m m' vector v v' \<and> v_capacity v' = v_capacity v"
proof (cases "vector_check_index v index = SUCCESS")
  case False
  with r v nn have "m' = m" by (simp add: vector_remove_def)
  with vec_step_same[OF v] show ?thesis by auto
next
  case ok: True
  show ?thesis
  proof (cases "index = v_size v - 1")
    case True
    with r v nn ok obtain bs where "vector_pop_back vector False m = Some (st, bs, m')"
      by (auto simp: vector_remove_def)
    from vector_pop_back_step[OF this v nn] show ?thesis .
  next
    case False
    with r v nn ok obtain a b c m1 where mv: "mem_move (v_data v) a b c m = Some m1"
      and m': "m' = m1\<lparr>vecs := (vecs m1)(vector \<mapsto> v\<lparr>v_size := v_size v - 1\<rparr>)\<rparr>"
      by (auto simp: vector_remove_def split: Option.bind_splits)
    have "vec_step m m' vector v (v\<lparr>v_size := v_size v - 1\<rparr>)"
      using vec_step_write[OF v mem_move_frame[OF mv] mem_move_vecs[OF mv] m'] .
    then show ?thesis by auto
  qed
qed

lemma vector_insert_step:
  assumes r: "vector_insert vector index e m = Some (st, m')"
    and v: "vecs m vector = Some v" and nn: "vector \<noteq> NULL"
  shows "\<exists>v'. vec_step m m' vector v v' \<and> v_capacity v \<le> v_capacity v'"
proof (cases e)
  case None
  with r have "m' = m" by (simp add: vector_insert_def)
  with vec_step_same[OF v] show ?thesis by auto
next
  case (Some bs)
  show ?thesis
  proof (cases "v_size v < index")
    case True
    with r v nn Some have "m' = m" by (simp add: vector_insert_def)
    with vec_step_same[OF v] show ?thesis by auto
  next
    case False
    with r v nn Some obtain st1 m1 where g: "vector_check_grow vector m = Some (st1, m1)"
      by (auto simp: vector_insert_def split: Option.bind_splits)
    from vector_check_grow_step[OF g v nn] obtain v1 where
      s1: "vec_step m m1 vector v v1" and c1: "v_capacity v \<le> v_capacity v1" by blast
    have v1: "vecs m1 vector = Some v1" using s1 by (simp add: vec_step_def)
    show ?thesis
    proof (cases "st1 = SUCCESS")
      case ns: False
      with r g v nn Some False have "m' = m1" by (simp add: vector_insert_def)
      with s1 c1 show ?thesis by auto
    next
      case ok: True
      show ?thesis
      proof (cases "index = v_size v1")
        case True
        with r g v nn Some False ok v1
        have "vector_push_back vector (Some bs) m1 = Some (st, m')"
          by (simp add: vector_insert_def)
        from vector_push_back_step[OF this v1 nn] obtain v2 where
          s2: "vec_step m1 m' vector v1 v2" and c2: "v_capacity v1 \<le> v_capacity v2" by blast
        from vec_step_trans[OF s1 s2] order_trans[OF c1 c2] show ?thesis by blast
      next
        case ne: False
        with r g v nn Some False ok v1 obtain a b c m2 src off m3 where
          mv: "mem_move (v_data v1) a b c m1 = Some m2"
          and w: "mem_write (v_data v1) off src m2 = Some m3"
          and m': "m' = m3\<lparr>vecs := (vecs m3)(vector \<mapsto> v1\<lparr>v_size := v_size v1 + 1\<rparr>)\<rparr>"
          by (auto simp: vector_insert_def split: Option.bind_splits)
        have fr: "\<And>b. b \<noteq> v_data v1 \<Longrightarrow> bufs m3 b = bufs m1 b"
          using mem_move_frame[OF mv] mem_write_frame[OF w] by simp
        have ve: "vecs m3 = vecs m1" using mem_move_vecs[OF mv] mem_write_vecs[OF w] by simp
        have "vec_step m1 m' vector v1 (v1\<lparr>v_size := v_size v1 + 1\<rparr>)"
          using vec_step_write[OF v1 fr ve m'] .
        from vec_step_trans[OF s1 this] c1 show ?thesis by auto
      qed
    qed
  qed
qed

lemma mem_free_live: "mem_free p m = Some m' \<Longrightarrow> bufs m' b \<noteq> None \<Longrightarrow> bufs m b \<noteq> None"
  by (auto simp: mem_free_def split: if_splits)

lemma vector_shrink_to_fit_step:
  assumes r: "vector_shrink_to_fit vector m = Some (st, m')"
    and v: "vecs m vector = Some v" and nn: "vector \<noteq> NULL"
  shows "\<exists>v'. vec_step m m' vector v v'"
proof (cases "v_size v = v_capacity v")
  case True
  with r v nn have "m' = m" by (simp add: vector_shrink_to_fit_def)
  with vec_step_same[OF v] show ?thesis by auto
next
  case ne: False
  show ?thesis
  proof (cases "v_size v = 0")
    case True
    with r v nn ne obtain m1 where f: "mem_free (v_data v) m = Some m1"
      and m': "m' = m1\<lparr>vecs := (vecs m1)(vector \<mapsto> v\<lparr>v_data := NULL, v_capacity := 0\<rparr>)\<rparr>"
      by (auto simp: vector_shrink_to_fit_def split: Option.bind_splits)
    have "vec_step m m' vector v (v\<lparr>v_data := NULL, v_capacity := 0\<rparr>)"
      unfolding vec_step_def using m' mem_free_vecs[OF f] mem_free_frame[OF f] by simp
    then show ?thesis by blast
  next
    case False
    with r v nn ne obtain nd m1 where
      re: "mem_realloc (v_data v) (v_size v * v_element_size v) m = Some (nd, m1)"
      and k: "(if nd = NULL then Some (ERROR_MEMORY_ALLOCATION, m1)
          else Some (SUCCESS, m1\<lparr>vecs := (vecs m1)(vector \<mapsto>
                 v\<lparr>v_data := nd, v_capacity := v_size v\<rparr>)\<rparr>)) = Some (st, m')"
      by (simp add: vector_shrink_to_fit_def split: Option.bind_splits prod.splits)
    show ?thesis
    proof (cases "nd = NULL")
      case True
      with k have "m' = m1" by simp
      with mem_realloc_vecs[OF re] mem_realloc_fail[of "v_data v" _ m m1] re True
      have "vecs m' = vecs m" "bufs m' = bufs m" by simp_all
      from vec_step_same[OF v this] show ?thesis by auto
    next
      case nz: False
      let ?v' = "v\<lparr>v_data := nd, v_capacity := v_size v\<rparr>"
      from k nz have m': "m' = m1\<lparr>vecs := (vecs m1)(vector \<mapsto> ?v')\<rparr>" by simp
      have a: "vecs m' = (vecs m)(vector \<mapsto> ?v')" using m' mem_realloc_vecs[OF re] by simp
      have b: "bufs m' = bufs m1" using m' by simp
      have c: "v_data ?v' = v_data v \<or> v_data ?v' = NULL \<or> bufs m (v_data ?v') = None"
        using mem_realloc_frame(1)[OF re] by auto
      have d: "\<forall>b. b \<noteq> v_data v \<longrightarrow> b \<noteq> NULL \<longrightarrow> bufs m b \<noteq> None \<longrightarrow> bufs m' b = bufs m b"
        using mem_realloc_frame(2)[OF re] b by simp
      have "vec_step m m' vector v ?v'" unfolding vec_step_def using a c d by simp
      then show ?thesis by blast
    qed
  qed
qed

section \<open>Vector: what an operation does to the other structures\<close>

lemma vec_step_other: "vec_step m m' q w w' \<Longrightarrow> p \<noteq> q \<Longrightarrow> vecs m' p = vecs m p"
  by (simp add: vec_step_def)

lemma vec_step_capacity:
  assumes "vec_step m m' q w w'" and "vecs m q = Some w" and "v_capacity w \<le> v_capacity w'"
    and "vecs m p = Some v"
  shows "\<exists>v'. vecs m' p = Some v' \<and> v_capacity v \<le> v_capacity v'"
proof (cases "p = q")
  case True
  with assms show ?thesis by (simp add: vec_step_def)
next
  case False
  from vec_step_other[OF assms(1) False] assms(4) show ?thesis by simp
qed

lemma vector_struct_alloc_effect:
  assumes "vector_struct_alloc m = Some (p, m1)"
  shows "vecs m1 = vecs m" and "bufs m1 = bufs m" and "p = NULL \<or> vecs m p = None"
  using assms by (auto simp: vector_struct_alloc_def split: list.splits if_splits)

lemma vector_create_with_capacity_effect:
  assumes r: "vector_create_with_capacity es n m = Some (p, m')"
  shows "p = NULL \<Longrightarrow> vecs m' = vecs m \<and> bufs m' = bufs m"
    and "p \<noteq> NULL \<Longrightarrow> vecs m p = None \<and> es \<noteq> 0 \<and>
           (\<exists>d bs. d \<noteq> NULL \<and> bufs m d = None \<and>
              vecs m' = (vecs m)(p \<mapsto> \<lparr>v_data = d, v_size = 0,
                 v_capacity = (if n = 0 then VECTOR_INITIAL_CAPACITY else n),
                 v_element_size = es\<rparr>) \<and>
              bufs m' = (bufs m)(d \<mapsto> bs) \<and>
              length bs = unat (es * (if n = 0 then VECTOR_INITIAL_CAPACITY else n)))"
proof -
  let ?c = "if n = 0 then VECTOR_INITIAL_CAPACITY else n"
  have A: "(p = NULL \<longrightarrow> vecs m' = vecs m \<and> bufs m' = bufs m) \<and>
        (p \<noteq> NULL \<longrightarrow> vecs m p = None \<and> es \<noteq> 0 \<and>
           (\<exists>d bs. d \<noteq> NULL \<and> bufs m d = None \<and>
              vecs m' = (vecs m)(p \<mapsto> \<lparr>v_data = d, v_size = 0, v_capacity = ?c,
                 v_element_size = es\<rparr>) \<and>
              bufs m' = (bufs m)(d \<mapsto> bs) \<and> length bs = unat (es * ?c)))"
  proof (cases "es = 0")
    case True
    with r show ?thesis by (simp add: vector_create_with_capacity_def)
  next
    case False
    with r obtain q m1 where sa: "vector_struct_alloc m = Some (q, m1)"
      by (auto simp: vector_create_with_capacity_def Let_def split: Option.bind_splits)
    note se = vector_struct_alloc_effect[OF sa]
    show ?thesis
    proof (cases "q = NULL")
      case True
      with r False sa have "p = NULL" "m' = m1"
        by (simp_all add: vector_create_with_capacity_def Let_def)
      with se show ?thesis by simp
    next
      case qn: False
      with r False sa obtain d m2 where al: "mem_alloc (es * ?c) m1 = Some (d, m2)"
        by (auto simp: vector_create_with_capacity_def Let_def split: Option.bind_splits)
      show ?thesis
      proof (cases "d = NULL")
        case True
        with r False sa qn al have "p = NULL" "m' = m2"
          by (simp_all add: vector_create_with_capacity_def Let_def)
        with se mem_alloc_vecs[OF al] mem_alloc_fail[of _ m1 m2] al True show ?thesis by simp
      next
        case dn: False
        with r False sa qn al have p: "p = q"
          and m': "m' = m2\<lparr>vecs := (vecs m2)(q \<mapsto> \<lparr>v_data = d, v_size = 0, v_capacity = ?c,
                 v_element_size = es\<rparr>)\<rparr>"
          by (auto simp: vector_create_with_capacity_def Let_def)
        from al dn obtain junk rest where pl: "vplan m1 = (d, junk) # rest"
          and fr: "bufs m1 d = None"
          and m2: "m2 = m1\<lparr>bufs := (bufs m1)(d \<mapsto> fresh_bytes (unat (es * ?c)) junk),
                           vplan := rest\<rparr>"
          by (auto simp: mem_alloc_def split: if_splits list.splits)
        have 1: "vecs m p = None" using se(3) qn p by simp
        have 2: "bufs m d = None" using fr se(2) by simp
        have 3: "vecs m' = (vecs m)(p \<mapsto> \<lparr>v_data = d, v_size = 0, v_capacity = ?c,
                 v_element_size = es\<rparr>)" using m' m2 se(1) p by simp
        have 4: "bufs m' = (bufs m)(d \<mapsto> fresh_bytes (unat (es * ?c)) junk)"
          using m' m2 se(2) by simp
        have 5: "length (fresh_bytes (unat (es * ?c)) junk) = unat (es * ?c)" by simp
        have E: "\<exists>d bs. d \<noteq> NULL \<and> bufs m d = None \<and>
              vecs m' = (vecs m)(p \<mapsto> \<lparr>v_data = d, v_size = 0, v_capacity = ?c,
                 v_element_size = es\<rparr>) \<and>
              bufs m' = (bufs m)(d \<mapsto> bs) \<and> length bs = unat (es * ?c)"
          apply (rule exI[of _ d])
          apply (rule exI[of _ "fresh_bytes (unat (es * ?c)) junk"])
          using 2 3 4 5 dn apply simp
          done
        have pn: "p \<noteq> NULL" using qn p by simp
        from 1 False E pn show ?thesis by simp
      qed
    qed
  qed
  from A show "p = NULL \<Longrightarrow> vecs m' = vecs m \<and> bufs m' = bufs m" by blast
  from A show "p \<noteq> NULL \<Longrightarrow> vecs m p = None \<and> es \<noteq> 0 \<and>
           (\<exists>d bs. d \<noteq> NULL \<and> bufs m d = None \<and>
              vecs m' = (vecs m)(p \<mapsto> \<lparr>v_data = d, v_size = 0, v_capacity = ?c,
                 v_element_size = es\<rparr>) \<and>
              bufs m' = (bufs m)(d \<mapsto> bs) \<and> length bs = unat (es * ?c))" by blast
qed

lemma vector_create_with_capacity_other:
  assumes "vector_create_with_capacity es n m = Some (q, m')" and "vecs m p = Some v"
  shows "vecs m' p = Some v"
proof (cases "q = NULL")
  case True
  from vector_create_with_capacity_effect(1)[OF assms(1) True] assms(2) show ?thesis by simp
next
  case False
  from vector_create_with_capacity_effect(2)[OF assms(1) False] assms(2) show ?thesis by auto
qed

lemma vector_destroy_effect:
  assumes "vector_destroy q m = Some m'"
  shows "vecs m' = (if q = NULL then vecs m else (vecs m)(q := None))"
    and "\<And>b. bufs m' b \<noteq> None \<Longrightarrow> bufs m' b = bufs m b"
    and "\<And>b. q \<noteq> NULL \<Longrightarrow> vecs m q = Some w \<Longrightarrow> b \<noteq> v_data w \<Longrightarrow> bufs m' b = bufs m b"
  using assms
  by (auto simp: vector_destroy_def mem_free_def split: Option.bind_splits if_splits)

lemma vector_copy_loop_step:
  assumes "vector_copy_loop k i src dest m = Some (ok, m')"
    and "vecs m dest = Some w" and "dest \<noteq> NULL"
  shows "\<exists>w'. vec_step m m' dest w w' \<and> v_capacity w \<le> v_capacity w'"
  using assms
proof (induction k arbitrary: i m w)
  case 0
  then have "m' = m" by simp
  with vec_step_same[OF 0(2)] show ?case by auto
next
  case (Suc k)
  from Suc.prems(1) obtain el st m1 where
    pb: "vector_push_back dest (Some el) m = Some (st, m1)"
    and rest: "(if st \<noteq> SUCCESS then Some (False, m1)
                else vector_copy_loop k (i + 1) src dest m1) = Some (ok, m')"
    by (auto split: Option.bind_splits)
  from vector_push_back_step[OF pb Suc.prems(2,3)] obtain w1 where
    s1: "vec_step m m1 dest w w1" and c1: "v_capacity w \<le> v_capacity w1" by blast
  have w1: "vecs m1 dest = Some w1" using s1 by (simp add: vec_step_def)
  show ?case
  proof (cases "st = SUCCESS")
    case False
    with rest have "m' = m1" by simp
    with s1 c1 show ?thesis by auto
  next
    case True
    with rest have "vector_copy_loop k (i + 1) src dest m1 = Some (ok, m')" by simp
    from Suc.IH[OF this w1 Suc.prems(3)] obtain w2 where
      s2: "vec_step m1 m' dest w1 w2" and c2: "v_capacity w1 \<le> v_capacity w2" by blast
    from vec_step_trans[OF s1 s2] order_trans[OF c1 c2] show ?thesis by blast
  qed
qed

lemma vector_copy_other:
  assumes r: "vector_copy src m = Some (q, m')" and p: "vecs m p = Some v"
  shows "vecs m' p = Some v"
proof (cases "src = NULL")
  case True
  with r p show ?thesis by (simp add: vector_copy_def)
next
  case False
  with r obtain s dest m1 where s: "vecs m src = Some s"
    and cr: "vector_create_with_capacity (v_element_size s) (v_capacity s) m = Some (dest, m1)"
    by (auto simp: vector_copy_def split: Option.bind_splits)
  have p1: "vecs m1 p = Some v" by (rule vector_create_with_capacity_other[OF cr p])
  show ?thesis
  proof (cases "dest = NULL")
    case True
    with r False s cr have "m' = m1" by (simp add: vector_copy_def)
    with p1 show ?thesis by simp
  next
    case dn: False
    from vector_create_with_capacity_effect(2)[OF cr dn] p
    have ne: "p \<noteq> dest" and "\<exists>w. vecs m1 dest = Some w" by auto
    then obtain w where w: "vecs m1 dest = Some w" by blast
    from r False s cr dn obtain ok m2 where
      lp: "vector_copy_loop (unat (v_size s)) 0 src dest m1 = Some (ok, m2)"
      by (auto simp: vector_copy_def split: Option.bind_splits)
    from vector_copy_loop_step[OF lp w dn] obtain w' where st: "vec_step m1 m2 dest w w'"
      by blast
    have p2: "vecs m2 p = Some v" using vec_step_other[OF st ne] p1 by simp
    show ?thesis
    proof (cases ok)
      case True
      with r False s cr dn lp have "m' = m2" by (simp add: vector_copy_def)
      with p2 show ?thesis by simp
    next
      case nok: False
      with r False s cr dn lp have "vector_destroy dest m2 = Some m'"
        by (auto simp: vector_copy_def split: Option.bind_splits)
      from vector_destroy_effect(1)[OF this] dn ne p2 show ?thesis by simp
    qed
  qed
qed

text \<open>No operation other than \<open>shrink_to_fit\<close>, \<open>swap\<close> and \<open>destroy\<close> applied to a
  vector lowers its capacity.\<close>

lemma vector_run_capacity:
  assumes r: "vector_run op m = Some (res, m')" and p: "vecs m p = Some v"
    and nl: "\<not> lowers_capacity p op"
  shows "\<exists>v'. vecs m' p = Some v' \<and> v_capacity v \<le> v_capacity v'"
proof -
  let ?G = "\<exists>v'. vecs m' p = Some v' \<and> v_capacity v \<le> v_capacity v'"
  have same: "m' = m \<Longrightarrow> ?G" using p by simp
  have step: "\<And>q w w'. vecs m q = Some w \<Longrightarrow> vec_step m m' q w w' \<Longrightarrow>
                 v_capacity w \<le> v_capacity w' \<or> q \<noteq> p \<Longrightarrow> ?G"
  proof -
    fix q w w' assume a: "vecs m q = Some w" "vec_step m m' q w w'"
      and b: "v_capacity w \<le> v_capacity w' \<or> q \<noteq> p"
    show "?G"
    proof (cases "q = p")
      case True
      with b have "v_capacity w \<le> v_capacity w'" by simp
      from vec_step_capacity[OF a(2) a(1) this p] show ?thesis .
    next
      case False
      then have "p \<noteq> q" by simp
      from vec_step_other[OF a(2) this] p show ?thesis by simp
    qed
  qed
  show ?thesis
  proof (cases op)
    case (Create es)
    with r obtain q where "vector_create es m = Some (q, m')" by auto
    then have "m' = m \<or> vector_create_with_capacity es VECTOR_INITIAL_CAPACITY m = Some (q, m')"
      by (auto simp: vector_create_def split: if_splits)
    with same vector_create_with_capacity_other[OF _ p] show ?thesis by auto
  next
    case (CreateWithCapacity es n)
    with r obtain q where "vector_create_with_capacity es n m = Some (q, m')" by auto
    from vector_create_with_capacity_other[OF this p] show ?thesis by simp
  next
    case (Destroy q)
    with r have d: "vector_destroy q m = Some m'" by auto
    from nl Destroy have "q \<noteq> p" by simp
    with vector_destroy_effect(1)[OF d] p show ?thesis by simp
  next
    case (Copy q)
    with r obtain d where "vector_copy q m = Some (d, m')" by auto
    from vector_copy_other[OF this p] show ?thesis by simp
  next
    case (PushBack q e)
    with r obtain st where o: "vector_push_back q e m = Some (st, m')" by auto
    show ?thesis
    proof (cases "q = NULL \<or> e = None")
      case True
      with o have "m' = m" by (auto simp: vector_push_back_def split: option.splits)
      with same show ?thesis .
    next
      case False
      with o obtain w where w: "vecs m q = Some w"
        by (auto simp: vector_push_back_def vector_check_grow_def split: Option.bind_splits)
      from vector_push_back_step[OF o w] False step[OF w] show ?thesis by blast
    qed
  next
    case (PopBack q out)
    with r obtain st bs where o: "vector_pop_back q out m = Some (st, bs, m')" by auto
    show ?thesis
    proof (cases "q = NULL")
      case True
      with o have "m' = m" by (simp add: vector_pop_back_def)
      with same show ?thesis .
    next
      case False
      with o obtain w where w: "vecs m q = Some w"
        by (auto simp: vector_pop_back_def split: Option.bind_splits)
      from vector_pop_back_step[OF o w False] obtain w' where
        "vec_step m m' q w w'" "v_capacity w' = v_capacity w" by blast
      with step[OF w, of w'] show ?thesis by simp
    qed
  next
    case (Insert q i e)
    with r obtain st where o: "vector_insert q i e m = Some (st, m')" by auto
    show ?thesis
    proof (cases "q = NULL \<or> e = None")
      case True
      with o have "m' = m" by (auto simp: vector_insert_def split: option.splits)
      with same show ?thesis .
    next
      case False
      with o obtain w where w: "vecs m q = Some w"
        by (auto simp: vector_insert_def split: Option.bind_splits)
      from vector_insert_step[OF o w] False step[OF w] show ?thesis by blast
    qed
  next
    case (Remove q i)
    with r obtain st where o: "vector_remove q i m = Some (st, m')" by auto
    show ?thesis
    proof (cases "q = NULL")
      case True
      with o have "m' = m" by (simp add: vector_remove_def)
      with same show ?thesis .
    next
      case False
      with o obtain w where w: "vecs m q = Some w"
        by (auto simp: vector_remove_def split: Option.bind_splits)
      from vector_remove_step[OF o w False] obtain w' where
        "vec_step m m' q w w'" "v_capacity w' = v_capacity w" by blast
      with step[OF w, of w'] show ?thesis by simp
    qed
  next
    case (Clear q)
    with r have o: "vector_clear q m = Some m'" by auto
    show ?thesis
    proof (cases "q = NULL")
      case True
      with o have "m' = m" by (simp add: vector_clear_def)
      with same show ?thesis .
    next
      case False
      with o obtain w where w: "vecs m q = Some w"
        by (auto simp: vector_clear_def split: Option.bind_splits)
      from vector_clear_step[OF o w False] obtain w' where
        "vec_step m m' q w w'" "v_capacity w' = v_capacity w" by blast
      with step[OF w, of w'] show ?thesis by simp
    qed
  next
    case (Get q i out)
    with r have "m' = m" by auto
    with same show ?thesis .
  next
    case (Set q i e)
    with r obtain st where o: "vector_set q i e m = Some (st, m')" by auto
    show ?thesis
    proof (cases "q = NULL \<or> e = None")
      case True
      with o have "m' = m" by (auto simp: vector_set_def split: option.splits)
      with same show ?thesis .
    next
      case False
      with o obtain w where w: "vecs m q = Some w"
        by (auto simp: vector_set_def split: Option.bind_splits)
      from vector_set_step[OF o w] False step[OF w, of w] show ?thesis by simp
    qed
  next
    case (Size q)
    with r have "m' = m" by auto
    with same show ?thesis .
  next
    case (Capacity q)
    with r have "m' = m" by auto
    with same show ?thesis .
  next
    case (Empty q)
    with r have "m' = m" by auto
    with same show ?thesis .
  next
    case (Reserve q n)
    with r obtain st where o: "vector_reserve q n m = Some (st, m')" by auto
    show ?thesis
    proof (cases "q = NULL")
      case True
      with o have "m' = m" by (simp add: vector_reserve_def)
      with same show ?thesis .
    next
      case False
      with o obtain w where w: "vecs m q = Some w"
        by (auto simp: vector_reserve_def split: Option.bind_splits)
      from vector_reserve_step[OF o w False] step[OF w] show ?thesis by blast
    qed
  next
    case (ShrinkToFit q)
    with r obtain st where o: "vector_shrink_to_fit q m = Some (st, m')" by auto
    from nl ShrinkToFit have ne: "q \<noteq> p" by simp
    show ?thesis
    proof (cases "q = NULL")
      case True
      with o have "m' = m" by (simp add: vector_shrink_to_fit_def)
      with same show ?thesis .
    next
      case False
      with o obtain w where w: "vecs m q = Some w"
        by (auto simp: vector_shrink_to_fit_def split: Option.bind_splits)
      from vector_shrink_to_fit_step[OF o w False] step[OF w] ne show ?thesis by blast
    qed
  next
    case (Swap a b)
    with r have o: "vector_swap a b m = Some m'" by auto
    from nl Swap have ne: "a \<noteq> p" "b \<noteq> p" by simp_all
    show ?thesis
    proof (cases "a = NULL \<or> b = NULL")
      case True
      with o have "m' = m" by (auto simp: vector_swap_def)
      with same show ?thesis .
    next
      case False
      with o ne p show ?thesis
        by (auto simp: vector_swap_def Let_def split: Option.bind_splits)
    qed
  qed
qed

lemma vector_run_all_capacity:
  assumes "vector_run_all ops m = Some m'" and "vecs m p = Some v"
    and "\<forall>op \<in> set ops. \<not> lowers_capacity p op"
  shows "\<exists>v'. vecs m' p = Some v' \<and> v_capacity v \<le> v_capacity v'"
  using assms
proof (induction ops arbitrary: m v)
  case Nil
  then show ?case by simp
next
  case (Cons op ops)
  from Cons.prems(1) obtain res m1 where r1: "vector_run op m = Some (res, m1)"
    and rest: "vector_run_all ops m1 = Some m'"
    by (auto split: option.splits)
  from Cons.prems(3) have nl: "\<not> lowers_capacity p op"
    and nls: "\<forall>op \<in> set ops. \<not> lowers_capacity p op" by simp_all
  from vector_run_capacity[OF r1 Cons.prems(2) nl] obtain v1 where
    v1: "vecs m1 p = Some v1" and c1: "v_capacity v \<le> v_capacity v1" by blast
  from Cons.IH[OF rest v1 nls] obtain v' where
    "vecs m' p = Some v'" "v_capacity v1 \<le> v_capacity v'" by blast
  with c1 show ?case by auto
qed

section \<open>Vector: copying\<close>














section \<open>Vector: growth of a full vector\<close>

text \<open>The reallocation of a full vector succeeds when the allocator answers with a block
  that is the old one or a fresh one.\<close>

lemma vector_check_grow_total:
  assumes wf: "v_wf m p" and v: "vecs m p = Some v" and full: "v_capacity v \<le> v_size v"
    and fits: "growth_fits v"
    and pl: "vplan m = (q, junk) # rest" and q: "q \<noteq> NULL" "q = v_data v \<or> bufs m q = None"
  shows "\<exists>m1. vector_check_grow p m = Some (SUCCESS, m1)"
proof -
  note d = v_wf_D[OF wf v]
  have ns: "\<not> v_size v < v_capacity v" using full by (simp only: not_less)
  with fits obtain nc where nc: "grown_capacity (v_capacity v) = Some nc"
    and f: "unat nc * unat (v_element_size v) < 2 ^ 64"
    by (auto simp: growth_fits_def split: option.splits)
  from grown_capacity_greater[OF nc] have gt: "v_capacity v < nc" .
  then have nle: "\<not> nc \<le> v_capacity v" by (simp only: not_le)
  have "unat (nc * v_element_size v) = unat nc * unat (v_element_size v)"
    by (rule unat_mult_fits[OF order_refl f])
  moreover have "unat nc \<noteq> 0" using gt by (auto simp: word_less_nat_alt)
  moreover have "unat (v_element_size v) \<noteq> 0" using d(2) by (simp add: unat_eq_0)
  ultimately have "unat (nc * v_element_size v) \<noteq> 0" by simp
  then have nz: "nc * v_element_size v \<noteq> 0" by (simp only: unat_eq_0 not_False_eq_True)
  have "\<exists>m0. mem_realloc (v_data v) (nc * v_element_size v) m = Some (q, m0)"
  proof (cases "v_data v = NULL")
    case True
    with q have "bufs m q = None" by auto
    with True nz pl q(1) show ?thesis by (simp add: mem_realloc_def mem_alloc_def)
  next
    case False
    then have "v_capacity v \<noteq> 0" using d(5) by auto
    from d(6)[OF this] obtain buf where "bufs m (v_data v) = Some buf" by blast
    with False nz pl q show ?thesis by (auto simp: mem_realloc_def)
  qed
  then obtain m0 where re: "mem_realloc (v_data v) (nc * v_element_size v) m = Some (q, m0)"
    by blast
  have "\<exists>m1. vector_reserve p nc m = Some (SUCCESS, m1)"
    using d(1) v nle re q(1) by (simp add: vector_reserve_def)
  then show ?thesis using v full nc by (simp add: vector_check_grow_def)
qed

text \<open>Once the vector has been grown, the insertion goes on as on a vector with room.\<close>

lemma vector_push_back_after_grow:
  assumes "vector_check_grow p m = Some (SUCCESS, m1)"
    and "vector_check_grow p m1 = Some (SUCCESS, m1)" and "p \<noteq> NULL"
  shows "vector_push_back p (Some e) m = vector_push_back p (Some e) m1"
  using assms by (simp add: vector_push_back_def)

lemma vector_insert_after_grow:
  assumes "vector_check_grow p m = Some (SUCCESS, m1)"
    and "vector_check_grow p m1 = Some (SUCCESS, m1)" and "p \<noteq> NULL"
    and "vecs m p = Some v" and "vecs m1 p = Some v1" and "v_size v1 = v_size v"
    and "index \<le> v_size v"
  shows "vector_insert p index (Some e) m = vector_insert p index (Some e) m1"
proof -
  have "\<not> v_size v < index" using assms(7) by (simp only: not_less)
  with assms show ?thesis by (simp add: vector_insert_def)
qed

lemma vector_full_insertions_total:
  assumes wf: "v_wf m p" and v: "vecs m p = Some v" and full: "v_capacity v \<le> v_size v"
    and fits: "growth_fits v"
    and pl: "vplan m = (q, junk) # rest" and q: "q \<noteq> NULL" "q = v_data v \<or> bufs m q = None"
    and e: "unat (v_element_size v) \<le> length e" and idx: "index \<le> v_size v"
  shows "\<exists>m'. vector_push_back p (Some e) m = Some (SUCCESS, m')"
    and "\<exists>m'. vector_insert p index (Some e) m = Some (SUCCESS, m')"
proof -
  note d = v_wf_D[OF wf v]
  from vector_check_grow_total[OF wf v full fits pl q] obtain m1 where
    g: "vector_check_grow p m = Some (SUCCESS, m1)" by blast
  from vector_check_grow_wf[OF wf v fits g] obtain v1 where
    v1: "vecs m1 = (vecs m)(p \<mapsto> v1)" and wf1: "v_wf m1 p"
    and s1: "v_size v1 = v_size v" and e1: "v_element_size v1 = v_element_size v"
    and c1: "v_size v < v_capacity v1" by blast
  have vv: "vecs m1 p = Some v1" using v1 by simp
  have room: "v_size v1 < v_capacity v1" using c1 s1 by simp
  note g1 = vector_room(1)[OF wf1 vv room]
  have el: "unat (v_element_size v1) \<le> length e" using e e1 by simp
  from vector_push_back_total[OF wf1 vv room el]
  show "\<exists>m'. vector_push_back p (Some e) m = Some (SUCCESS, m')"
    by (simp only: vector_push_back_after_grow[OF g g1 d(1)])
  have ix: "index \<le> v_size v1" using idx s1 by simp
  from vector_insert_total[OF wf1 vv room el ix]
  show "\<exists>m'. vector_insert p index (Some e) m = Some (SUCCESS, m')"
    by (simp only: vector_insert_after_grow[OF g g1 d(1) v vv s1 idx])
qed

section \<open>Iterators of the doubly linked list\<close>

text \<open>
  Claim C10. A reverse iterator created on an empty doubly linked list has the position
  \<open>size - 1\<close> computed in \<open>size_t\<close>, which wraps around to \<open>2^64 - 1\<close> (\<open>SIZE_MAX\<close>),
  and its \<open>current\<close> is \<open>NULL\<close>. Both \<open>has_next\<close> and \<open>has_prev\<close> are false, and
  neither \<open>iter_next\<close> nor \<open>iter_prev\<close> yields an element.
\<close>

theorem reverse_iterator_on_empty_list:
  assumes "dl_inv m list" and "dlists m list = Some L" and "dl_size L = 0"
  shows "\<exists>it. doubly_list_iter_create_reverse list m = Some it \<and>
           unat (dit_position it) = 2 ^ 64 - 1 \<and>
           dit_current it = NULL \<and>
           \<not> doubly_list_iter_has_next (Some it) \<and>
           \<not> doubly_list_iter_has_prev (Some it) \<and>
           doubly_list_iter_next (Some it) out m = Some (ERROR_INVALID_INPUT, None, Some it) \<and>
           doubly_list_iter_prev (Some it) out m = Some (ERROR_INVALID_INPUT, None, Some it)"
proof -
  from assms have nn: "list \<noteq> NULL" and t: "dl_tail L = NULL"
    by (simp_all add: dl_inv_def)
  let ?it = "\<lparr>dit_list = list, dit_current = NULL, dit_position = 0 - 1\<rparr>"
  have c: "doubly_list_iter_create_reverse list m = Some ?it"
    using assms(2,3) nn t by (simp add: doubly_list_iter_create_reverse_def)
  have p: "unat (dit_position ?it) = 2 ^ 64 - 1"
    by (simp add: unsigned_minus_1_eq_mask mask_eq_exp_minus_1)
  have n: "doubly_list_iter_next (Some ?it) out m = Some (ERROR_INVALID_INPUT, None, Some ?it)"
    by (simp add: doubly_list_iter_next_def)
  have q: "doubly_list_iter_prev (Some ?it) out m = Some (ERROR_INVALID_INPUT, None, Some ?it)"
    by (simp add: doubly_list_iter_prev_def)
  show ?thesis
    using c p n q
    by (simp add: doubly_list_iter_has_next_def doubly_list_iter_has_prev_def)
qed

theorem reverse_iterator_on_empty_list_witness:
  "\<exists>it. doubly_list_iter_create_reverse 1 dm0 = Some it \<and>
           unat (dit_position it) = 2 ^ 64 - 1 \<and>
           dit_current it = NULL \<and>
           \<not> doubly_list_iter_has_next (Some it) \<and>
           \<not> doubly_list_iter_has_prev (Some it) \<and>
           doubly_list_iter_next (Some it) True dm0 = Some (ERROR_INVALID_INPUT, None, Some it) \<and>
           doubly_list_iter_prev (Some it) True dm0 = Some (ERROR_INVALID_INPUT, None, Some it)"
proof -
  have h1: "dl_inv dm0 1" by (simp add: dl_inv_def dm0_def)
  have h2: "dlists dm0 1 = Some \<lparr>dl_head = NULL, dl_tail = NULL, dl_size = 0, dl_element_size = 1\<rparr>"
    by (simp add: dm0_def)
  show ?thesis
    by (rule reverse_iterator_on_empty_list[OF h1 h2]) simp
qed

text \<open>
  What \<open>doubly_list_iter_remove\<close> does on every well-formed list, with the iterator
  standing on the node at position \<open>k\<close> (the node \<open>iter_next\<close> would yield next):
  it returns \<open>SUCCESS\<close>, it removes the element of that node and keeps all others in
  order, the size goes down by 1, and the iterator is left on the node that followed the
  removed one, or exhausted if there was none.
\<close>

lemma doubly_list_iter_remove_effect:
  assumes "dl_inv m l" and "dit_list it = l"
    and "k < length (dl_nodes m l)" and "dit_current it = dl_nodes m l ! k"
  shows "\<exists>it' m'. doubly_list_iter_remove (Some it) m = Some (SUCCESS, Some it', m') \<and>
           dl_inv m' l \<and>
           dl_contents m' l = take k (dl_contents m l) @ drop (Suc k) (dl_contents m l) \<and>
           (\<exists>s. doubly_list_size l m = Some s \<and> doubly_list_size l m' = Some (s - 1)) \<and>
           length (dl_nodes m' l) = length (dl_nodes m l) - 1 \<and>
           dit_current it' = (if Suc k < length (dl_nodes m l) then dl_nodes m l ! Suc k else NULL) \<and>
           doubly_list_iter_has_next (Some it') = (Suc k < length (dl_nodes m l)) \<and>
           (Suc k < length (dl_nodes m l) \<longrightarrow>
              dit_current it' = dl_nodes m' l ! k \<and>
              (\<exists>n. dnodes m' (dit_current it') = Some n \<and> dn_data n = dl_contents m l ! Suc k))"
proof -
  from assms(1) obtain L as where a: "dl_abs m l L as" by (auto simp: dl_inv_abs)
  have nodes: "dl_nodes m l = as" by (rule dl_abs_nodes[OF a])
  have cont: "dl_contents m l = dl_data m as" by (rule dl_abs_contents[OF a])
  from assms(3,4) nodes have k: "k < length as" and cur: "dit_current it = as ! k" by simp_all
  let ?as' = "take k as @ drop (Suc k) as"
  let ?it' = "it\<lparr>dit_current := (if Suc k < length as then as ! Suc k else NULL)\<rparr>"
  from doubly_list_iter_remove_abs[OF a k assms(2) cur] obtain m' L' where
    run: "doubly_list_iter_remove (Some it) m = Some (SUCCESS, Some ?it', m')"
    and a': "dl_abs m' l L' ?as'"
    and sz: "dl_size L' = dl_size L - 1"
    and dat: "dl_data m' ?as' = take k (dl_data m as) @ drop (Suc k) (dl_data m as)"
    by blast
  have inv': "dl_inv m' l" using a' by (auto simp: dl_inv_abs)
  have nodes': "dl_nodes m' l = ?as'" by (rule dl_abs_nodes[OF a'])
  have cont': "dl_contents m' l = take k (dl_contents m l) @ drop (Suc k) (dl_contents m l)"
    using dl_abs_contents[OF a'] dat cont by simp
  from a a' have ll: "dlists m l = Some L" "dlists m' l = Some L'" "l \<noteq> NULL"
    by (simp_all add: dl_abs_def)
  have size: "\<exists>s. doubly_list_size l m = Some s \<and> doubly_list_size l m' = Some (s - 1)"
    using ll sz by (simp add: doubly_list_size_def)
  have len: "length (dl_nodes m' l) = length (dl_nodes m l) - 1"
    using nodes nodes' k by simp
  have nn: "NULL \<notin> set as" using a by (auto simp: dl_abs_def dest: dl_chain_notnull)
  have hn: "doubly_list_iter_has_next (Some ?it') = (Suc k < length as)"
  proof (cases "Suc k < length as")
    case True
    then have "as ! Suc k \<in> set as" by simp
    with nn have "as ! Suc k \<noteq> NULL" by metis
    with True show ?thesis by (simp add: doubly_list_iter_has_next_def)
  next
    case False
    then show ?thesis by (simp add: doubly_list_iter_has_next_def)
  qed
  have follow: "Suc k < length as \<longrightarrow>
              dit_current ?it' = ?as' ! k \<and>
              (\<exists>n. dnodes m' (dit_current ?it') = Some n \<and> dn_data n = dl_data m as ! Suc k)"
  proof
    assume s: "Suc k < length as"
    have e: "?as' ! k = as ! Suc k" using s k by (simp add: nth_append)
    have kl: "k < length ?as'" using s k by simp
    from nth_mem[OF kl] e have mem: "as ! Suc k \<in> set ?as'" by (simp only:)
    from a' have "dl_chain (dnodes m') NULL (dl_head L') ?as' NULL" by (simp add: dl_abs_def)
    from dl_chain_live[OF this mem] obtain n where n: "dnodes m' (as ! Suc k) = Some n" by auto
    have "dl_data m' ?as' ! k =
            (case dnodes m' (?as' ! k) of None \<Rightarrow> [] | Some n \<Rightarrow> dn_data n)"
      unfolding dl_data_def by (rule nth_map[OF kl])
    also have "\<dots> = dn_data n" unfolding e using n by simp
    finally have "dl_data m' ?as' ! k = dn_data n" .
    moreover have "(take k (dl_data m as) @ drop (Suc k) (dl_data m as)) ! k = dl_data m as ! Suc k"
      using s k by (simp add: nth_append dl_data_def)
    ultimately have "dn_data n = dl_data m as ! Suc k" using dat by simp
    with n e s show "dit_current ?it' = ?as' ! k \<and>
              (\<exists>n. dnodes m' (dit_current ?it') = Some n \<and> dn_data n = dl_data m as ! Suc k)"
      by simp
  qed
  have all: "doubly_list_iter_remove (Some it) m = Some (SUCCESS, Some ?it', m') \<and>
           dl_inv m' l \<and>
           dl_contents m' l = take k (dl_contents m l) @ drop (Suc k) (dl_contents m l) \<and>
           (\<exists>s. doubly_list_size l m = Some s \<and> doubly_list_size l m' = Some (s - 1)) \<and>
           length (dl_nodes m' l) = length (dl_nodes m l) - 1 \<and>
           dit_current ?it' = (if Suc k < length (dl_nodes m l) then dl_nodes m l ! Suc k else NULL) \<and>
           doubly_list_iter_has_next (Some ?it') = (Suc k < length (dl_nodes m l)) \<and>
           (Suc k < length (dl_nodes m l) \<longrightarrow>
              dit_current ?it' = dl_nodes m' l ! k \<and>
              (\<exists>n. dnodes m' (dit_current ?it') = Some n \<and> dn_data n = dl_contents m l ! Suc k))"
  proof (intro conjI)
    show "doubly_list_iter_remove (Some it) m = Some (SUCCESS, Some ?it', m')" by (rule run)
    show "dl_inv m' l" by (rule inv')
    show "dl_contents m' l = take k (dl_contents m l) @ drop (Suc k) (dl_contents m l)"
      by (rule cont')
    show "\<exists>s. doubly_list_size l m = Some s \<and> doubly_list_size l m' = Some (s - 1)"
      by (rule size)
    show "length (dl_nodes m' l) = length (dl_nodes m l) - 1" by (rule len)
    show "dit_current ?it' = (if Suc k < length (dl_nodes m l) then dl_nodes m l ! Suc k else NULL)"
      unfolding nodes by simp
    show "doubly_list_iter_has_next (Some ?it') = (Suc k < length (dl_nodes m l))"
      unfolding nodes by (rule hn)
    show "Suc k < length (dl_nodes m l) \<longrightarrow>
              dit_current ?it' = dl_nodes m' l ! k \<and>
              (\<exists>n. dnodes m' (dit_current ?it') = Some n \<and> dn_data n = dl_contents m l ! Suc k)"
      unfolding nodes nodes' cont by (rule follow)
  qed
  show ?thesis
    apply (rule exI[of _ ?it'])
    apply (rule exI[of _ m'])
    apply (rule all)
    done
qed

text \<open>
  Claim C1. On the list 10, 20, 30 a forward iterator yields 10, and the removal that
  follows returns \<open>SUCCESS\<close> and leaves 10, 30: the element removed is 20, the one the
  iterator stands on, which has not been yielded, and not 10, the one it has last yielded.
  The same steps on the singly linked list remove 10 and leave 20, 30. On the doubly
  linked list a removal before anything has been yielded removes the head, and after the
  last element, 30, has been yielded the removal is refused with \<open>ERROR_INVALID_INPUT\<close>.
\<close>

theorem doubly_iter_remove_after_next:
  "next_then_remove = Some (Some [10], SUCCESS, [[10], [30]]) \<and>
   singly_next_then_remove = Some (Some [10], SUCCESS, [[20], [30]]) \<and>
   remove_before_next = Some (SUCCESS, [[20], [30]]) \<and>
   drain_then_remove = Some (Some [30], ERROR_INVALID_INPUT, [[10], [20], [30]])"
proof -
  have a: "next_then_remove = Some (Some [10], SUCCESS, [[10], [30]])" by code_simp
  have b: "singly_next_then_remove = Some (Some [10], SUCCESS, [[20], [30]])" by code_simp
  have c: "remove_before_next = Some (SUCCESS, [[20], [30]])" by code_simp
  have d: "drain_then_remove = Some (Some [30], ERROR_INVALID_INPUT, [[10], [20], [30]])"
    by code_simp
  from a b c d show ?thesis by simp
qed

section \<open>Indexed access: doubly against singly linked list\<close>

text \<open>
  Claim C7. For a well-formed doubly linked list and a well-formed singly linked list with
  the same element size and the same sequence of elements, and for every index below the
  size, \<open>doubly_list_get\<close> and \<open>singly_list_get\<close> return the same status and the
  same element: the traversal from the nearer end gives what the forward traversal gives.
  When the elements have at least \<open>element_size\<close> bytes, both return \<open>SUCCESS\<close> and the
  element at that index.
\<close>

theorem doubly_get_equals_singly_get:
  assumes "dl_inv md ld" and "sl_inv ms ls"
    and "dlists md ld = Some D" and "slists ms ls = Some S"
    and "dl_element_size D = sl_element_size S"
    and "dl_contents md ld = sl_contents ms ls"
    and "i < dl_size D"
  shows "doubly_list_get ld i output md = singly_list_get ls i output ms \<and>
         (output \<and> unat (sl_element_size S) \<le> length (sl_contents ms ls ! unat i) \<longrightarrow>
            singly_list_get ls i output ms =
              Some (SUCCESS, Some (take (unat (sl_element_size S)) (sl_contents ms ls ! unat i))))"
proof -
  from assms(1) obtain D' ds where "dl_abs md ld D' ds" by (auto simp: dl_inv_abs)
  with assms(3) have da: "dl_abs md ld D ds" by (simp add: dl_abs_def)
  from assms(2) obtain S' ss where "sl_abs ms ls S' ss" by (auto simp: sl_inv_abs)
  with assms(4) have sa: "sl_abs ms ls S ss" by (simp add: sl_abs_def)
  have dc: "dl_contents md ld = dl_data md ds" by (rule dl_abs_contents[OF da])
  have sc: "sl_contents ms ls = sl_data ms ss" by (rule sl_abs_contents[OF sa])
  have "length (dl_data md ds) = length (sl_data ms ss)" using assms(6) dc sc by simp
  then have "length ds = length ss" by (simp add: dl_data_def sl_data_def)
  moreover from da sa have "unat (dl_size D) = length ds" "unat (sl_size S) = length ss"
    by (simp_all add: dl_abs_def sl_abs_def)
  ultimately have "dl_size D = sl_size S" by (simp add: word_unat_eq_iff)
  with assms(7) have i': "i < sl_size S" by simp
  from da sa have nn: "ld \<noteq> NULL" "ls \<noteq> NULL" by (simp_all add: dl_abs_def sl_abs_def)
  show ?thesis
  proof (cases "output")
    case False
    then show ?thesis by (simp add: doubly_list_get_def singly_list_get_def)
  next
    case True
    have g1: "doubly_list_get ld i True md = map_option (\<lambda>bs. (SUCCESS, Some bs))
             (caller_bytes (dl_data md ds ! unat i) (unat (dl_element_size D)))"
      by (rule doubly_list_get_abs[OF da assms(7)])
    have g2: "singly_list_get ls i True ms = map_option (\<lambda>bs. (SUCCESS, Some bs))
             (caller_bytes (sl_data ms ss ! unat i) (unat (sl_element_size S)))"
      by (rule singly_list_get_abs[OF sa i'])
    have e: "dl_data md ds = sl_data ms ss" using assms(6) dc sc by simp
    from g1 g2 e assms(5) True sc show ?thesis by (simp add: caller_bytes_def)
  qed
qed

theorem doubly_get_equals_singly_get_witness:
  "doubly_list_get 1 2 True dm3 = singly_list_get 1 2 True sm3 \<and>
   singly_list_get 1 2 True sm3 = Some (SUCCESS, Some [30])"
proof -
  have h1: "dl_inv dm3 1" by code_simp
  have h2: "sl_inv sm3 1" by code_simp
  have h3: "dlists dm3 1 = Some \<lparr>dl_head = 11, dl_tail = 13, dl_size = 3, dl_element_size = 1\<rparr>"
    by (simp add: dm3_def)
  have h4: "slists sm3 1 = Some \<lparr>sl_head = 21, sl_tail = 23, sl_size = 3, sl_element_size = 1\<rparr>"
    by (simp add: sm3_def)
  have c1: "dl_contents dm3 1 = [[10], [20], [30]]" by code_simp
  have c2: "sl_contents sm3 1 = [[10], [20], [30]]" by code_simp
  have h6: "dl_contents dm3 1 = sl_contents sm3 1" using c1 c2 by simp
  from doubly_get_equals_singly_get[OF h1 h2 h3 h4 _ h6, of 2 True] show ?thesis
    unfolding c2 by simp
qed

section \<open>Reversal is an involution\<close>

lemma singly_list_get_same:
  assumes a: "sl_abs m l L as" and a': "sl_abs m' l L' as'"
    and e: "sl_size L' = sl_size L" "sl_element_size L' = sl_element_size L"
    and d: "sl_data m' as' = sl_data m as"
  shows "singly_list_get l i out m' = singly_list_get l i out m"
proof (cases "out")
  case False
  then show ?thesis by (simp add: singly_list_get_def)
next
  case True
  from a a' have L: "slists m l = Some L" "slists m' l = Some L'" "l \<noteq> NULL"
    by (simp_all add: sl_abs_def)
  show ?thesis
  proof (cases "i < sl_size L")
    case lt: True
    from singly_list_get_abs[OF a lt] singly_list_get_abs[OF a'] lt e d True
    show ?thesis by simp
  next
    case False
    then have "sl_size L \<le> i" by simp
    with L e True show ?thesis by (simp add: singly_list_get_def get_node_at_def)
  qed
qed

lemma doubly_list_get_same:
  assumes a: "dl_abs m l L as" and a': "dl_abs m' l L' as'"
    and e: "dl_size L' = dl_size L" "dl_element_size L' = dl_element_size L"
    and d: "dl_data m' as' = dl_data m as"
  shows "doubly_list_get l i out m' = doubly_list_get l i out m"
proof (cases "out")
  case False
  then show ?thesis by (simp add: doubly_list_get_def)
next
  case True
  from a a' have L: "dlists m l = Some L" "dlists m' l = Some L'" "l \<noteq> NULL"
    by (simp_all add: dl_abs_def)
  show ?thesis
  proof (cases "i < dl_size L")
    case lt: True
    from doubly_list_get_abs[OF a lt] doubly_list_get_abs[OF a'] lt e d True
    show ?thesis by simp
  next
    case False
    then have "dl_size L \<le> i" by simp
    with L e True show ?thesis by (simp add: doubly_list_get_def get_doubly_node_at_def)
  qed
qed

text \<open>
  Claim C8. On a well-formed singly or doubly linked list, \<open>reverse\<close> succeeds and gives
  the elements in reverse order; applied twice it gives back a well-formed list with the
  size and the elements of the original one, so that \<open>get\<close> returns the same at every
  index. Empty and single-element lists are included.
\<close>

theorem reverse_is_involution:
  "(sl_inv ms ls \<longrightarrow>
      (\<exists>m1 m2. singly_list_reverse ls ms = Some (SUCCESS, m1) \<and>
                singly_list_reverse ls m1 = Some (SUCCESS, m2) \<and>
                sl_inv m2 ls \<and>
                sl_contents m1 ls = rev (sl_contents ms ls) \<and>
                sl_contents m2 ls = sl_contents ms ls \<and>
                singly_list_size ls m2 = singly_list_size ls ms \<and>
                (\<forall>i out. singly_list_get ls i out m2 = singly_list_get ls i out ms))) \<and>
   (dl_inv md ld \<longrightarrow>
      (\<exists>m1 m2. doubly_list_reverse ld md = Some (SUCCESS, m1) \<and>
                doubly_list_reverse ld m1 = Some (SUCCESS, m2) \<and>
                dl_inv m2 ld \<and>
                dl_contents m1 ld = rev (dl_contents md ld) \<and>
                dl_contents m2 ld = dl_contents md ld \<and>
                doubly_list_size ld m2 = doubly_list_size ld md \<and>
                (\<forall>i out. doubly_list_get ld i out m2 = doubly_list_get ld i out md)))"
proof (intro conjI impI)
  assume "sl_inv ms ls"
  then obtain L as where a: "sl_abs ms ls L as" by (auto simp: sl_inv_abs)
  from singly_list_reverse_abs[OF a] obtain m1 L1 where
    r1: "singly_list_reverse ls ms = Some (SUCCESS, m1)" and a1: "sl_abs m1 ls L1 (rev as)"
    and e1: "sl_size L1 = sl_size L" "sl_element_size L1 = sl_element_size L"
    and d1: "sl_data m1 (rev as) = rev (sl_data ms as)" by blast
  from singly_list_reverse_abs[OF a1] obtain m2 L2 where
    r2: "singly_list_reverse ls m1 = Some (SUCCESS, m2)" and a2': "sl_abs m2 ls L2 (rev (rev as))"
    and e2: "sl_size L2 = sl_size L1" "sl_element_size L2 = sl_element_size L1"
    and d2': "sl_data m2 (rev (rev as)) = rev (sl_data m1 (rev as))" by blast
  from a2' have a2: "sl_abs m2 ls L2 as" by simp
  from d2' d1 have d2: "sl_data m2 as = sl_data ms as" by simp
  have i2: "sl_inv m2 ls" using a2 by (auto simp: sl_inv_abs)
  have c1: "sl_contents m1 ls = rev (sl_contents ms ls)"
    using sl_abs_contents[OF a1] sl_abs_contents[OF a] d1 by simp
  have c2: "sl_contents m2 ls = sl_contents ms ls"
    using sl_abs_contents[OF a2] sl_abs_contents[OF a] d2 by simp
  from a a2 have "slists ms ls = Some L" "slists m2 ls = Some L2"
    by (simp_all add: sl_abs_def)
  with e1 e2 have s2: "singly_list_size ls m2 = singly_list_size ls ms"
    by (simp add: singly_list_size_def)
  have g: "\<forall>i out. singly_list_get ls i out m2 = singly_list_get ls i out ms"
    using singly_list_get_same[OF a a2 _ _ d2] e1 e2 by simp
  from r1 r2 i2 c1 c2 s2 g
  show "\<exists>m1 m2. singly_list_reverse ls ms = Some (SUCCESS, m1) \<and>
                singly_list_reverse ls m1 = Some (SUCCESS, m2) \<and>
                sl_inv m2 ls \<and>
                sl_contents m1 ls = rev (sl_contents ms ls) \<and>
                sl_contents m2 ls = sl_contents ms ls \<and>
                singly_list_size ls m2 = singly_list_size ls ms \<and>
                (\<forall>i out. singly_list_get ls i out m2 = singly_list_get ls i out ms)"
    by blast
next
  assume "dl_inv md ld"
  then obtain L as where a: "dl_abs md ld L as" by (auto simp: dl_inv_abs)
  from doubly_list_reverse_abs[OF a] obtain m1 L1 where
    r1: "doubly_list_reverse ld md = Some (SUCCESS, m1)" and a1: "dl_abs m1 ld L1 (rev as)"
    and e1: "dl_size L1 = dl_size L" "dl_element_size L1 = dl_element_size L"
    and d1: "dl_data m1 (rev as) = rev (dl_data md as)" by blast
  from doubly_list_reverse_abs[OF a1] obtain m2 L2 where
    r2: "doubly_list_reverse ld m1 = Some (SUCCESS, m2)" and a2': "dl_abs m2 ld L2 (rev (rev as))"
    and e2: "dl_size L2 = dl_size L1" "dl_element_size L2 = dl_element_size L1"
    and d2': "dl_data m2 (rev (rev as)) = rev (dl_data m1 (rev as))" by blast
  from a2' have a2: "dl_abs m2 ld L2 as" by simp
  from d2' d1 have d2: "dl_data m2 as = dl_data md as" by simp
  have i2: "dl_inv m2 ld" using a2 by (auto simp: dl_inv_abs)
  have c1: "dl_contents m1 ld = rev (dl_contents md ld)"
    using dl_abs_contents[OF a1] dl_abs_contents[OF a] d1 by simp
  have c2: "dl_contents m2 ld = dl_contents md ld"
    using dl_abs_contents[OF a2] dl_abs_contents[OF a] d2 by simp
  from a a2 have "dlists md ld = Some L" "dlists m2 ld = Some L2"
    by (simp_all add: dl_abs_def)
  with e1 e2 have s2: "doubly_list_size ld m2 = doubly_list_size ld md"
    by (simp add: doubly_list_size_def)
  have g: "\<forall>i out. doubly_list_get ld i out m2 = doubly_list_get ld i out md"
    using doubly_list_get_same[OF a a2 _ _ d2] e1 e2 by simp
  from r1 r2 i2 c1 c2 s2 g
  show "\<exists>m1 m2. doubly_list_reverse ld md = Some (SUCCESS, m1) \<and>
                doubly_list_reverse ld m1 = Some (SUCCESS, m2) \<and>
                dl_inv m2 ld \<and>
                dl_contents m1 ld = rev (dl_contents md ld) \<and>
                dl_contents m2 ld = dl_contents md ld \<and>
                doubly_list_size ld m2 = doubly_list_size ld md \<and>
                (\<forall>i out. doubly_list_get ld i out m2 = doubly_list_get ld i out md)"
    by blast
qed

theorem reverse_is_involution_witness:
  "(\<exists>m1 m2. singly_list_reverse 1 sm3 = Some (SUCCESS, m1) \<and>
                singly_list_reverse 1 m1 = Some (SUCCESS, m2) \<and>
                sl_contents m1 1 = [[30], [20], [10]] \<and>
                sl_contents m2 1 = [[10], [20], [30]]) \<and>
   (\<exists>m1 m2. doubly_list_reverse 1 dm3 = Some (SUCCESS, m1) \<and>
                doubly_list_reverse 1 m1 = Some (SUCCESS, m2) \<and>
                dl_contents m1 1 = [[30], [20], [10]] \<and>
                dl_contents m2 1 = [[10], [20], [30]])"
proof -
  have h1: "sl_inv sm3 1" by code_simp
  have h2: "dl_inv dm3 1" by code_simp
  have c1: "sl_contents sm3 1 = [[10], [20], [30]]" by code_simp
  have c2: "dl_contents dm3 1 = [[10], [20], [30]]" by code_simp
  from reverse_is_involution[of sm3 1 dm3 1] h1 h2 show ?thesis
    unfolding c1 c2 by (simp only: rev.simps append.simps simp_thms) blast
qed

section \<open>Insertion into a vector\<close>

text \<open>
  Claim C4. For a well-formed vector of size \<open>n\<close> and an element of at least
  \<open>element_size\<close> bytes, \<open>vector_insert\<close> at \<open>index\<close> returns
  \<open>ERROR_INDEX_OUT_OF_BOUNDS\<close> exactly when \<open>index > n\<close>, and then leaves the memory as
  it was; with \<open>index \<le> n\<close> and room in the buffer it returns \<open>SUCCESS\<close>. After a
  successful insertion the size is \<open>n + 1\<close>, \<open>vector_get\<close> at \<open>index\<close> returns the
  inserted element, every element formerly at a position \<open>j\<close> of \<open>[index, n)\<close> is at
  \<open>j + 1\<close>, and the elements before \<open>index\<close> stay where they were.
\<close>

theorem vector_insert_shifts_elements:
  assumes wf: "v_wf m vector" and v: "vecs m vector = Some v" and fits: "growth_fits v"
    and e: "unat (v_element_size v) \<le> length e"
  shows "(v_size v < index \<longrightarrow>
            vector_insert vector index (Some e) m = Some (ERROR_INDEX_OUT_OF_BOUNDS, m)) \<and>
         (index \<le> v_size v \<and> v_size v < v_capacity v \<longrightarrow>
            (\<exists>m1. vector_insert vector index (Some e) m = Some (SUCCESS, m1))) \<and>
         (vector_insert vector index (Some e) m = Some (st, m') \<longrightarrow>
            (st = ERROR_INDEX_OUT_OF_BOUNDS) = (v_size v < index)) \<and>
         (vector_insert vector index (Some e) m = Some (SUCCESS, m') \<longrightarrow>
            vector_size vector m' = Some (v_size v + 1) \<and>
            unat (v_size v + 1) = unat (v_size v) + 1 \<and>
            vector_get vector index True m' =
              Some (SUCCESS, Some (take (unat (v_element_size v)) e)) \<and>
            (\<forall>j. index \<le> j \<and> j < v_size v \<longrightarrow>
                 vector_get vector (j + 1) True m' = vector_get vector j True m) \<and>
            (\<forall>j. j < index \<longrightarrow>
                 vector_get vector j True m' = vector_get vector j True m))"
proof -
  note d = v_wf_D[OF wf v]
  let ?es = "unat (v_element_size v)"
  let ?src = "take ?es e"
  let ?B = "v_bytes m v"
  have c1: "v_size v < index \<longrightarrow>
            vector_insert vector index (Some e) m = Some (ERROR_INDEX_OUT_OF_BOUNDS, m)"
    using d(1) v by (simp add: vector_insert_def)
  have c2: "index \<le> v_size v \<and> v_size v < v_capacity v \<longrightarrow>
            (\<exists>m1. vector_insert vector index (Some e) m = Some (SUCCESS, m1))"
    using vector_insert_total[OF wf v _ e] by blast
  have c3: "vector_insert vector index (Some e) m = Some (st, m') \<longrightarrow>
            (st = ERROR_INDEX_OUT_OF_BOUNDS) = (v_size v < index)"
    using vector_insert_effect(2)[OF _ v d(1) d(3)] by blast
  have c4: "vector_size vector m' = Some (v_size v + 1) \<and>
            unat (v_size v + 1) = unat (v_size v) + 1 \<and>
            vector_get vector index True m' = Some (SUCCESS, Some ?src) \<and>
            (\<forall>j. index \<le> j \<and> j < v_size v \<longrightarrow>
                 vector_get vector (j + 1) True m' = vector_get vector j True m) \<and>
            (\<forall>j. j < index \<longrightarrow>
                 vector_get vector j True m' = vector_get vector j True m)"
    if r: "vector_insert vector index (Some e) m = Some (SUCCESS, m')"
  proof -
    from vector_insert_effect(2)[OF r v d(1) d(3)] have idx: "index \<le> v_size v" by simp
    define a where "a = unat index * ?es"
    from vector_insert_wf[OF wf v fits e idx r] obtain v' where
      vv: "vecs m' vector = Some v'" and wf': "v_wf m' vector"
      and sz: "unat (v_size v') = unat (v_size v) + 1"
      and es: "v_element_size v' = v_element_size v"
      and vb: "v_bytes m' v' = take a ?B @ ?src @ drop a ?B" unfolding a_def by blast
    have lB: "length ?B = unat (v_size v) * ?es" by (rule v_bytes_length[OF wf v])
    have il: "unat index \<le> unat (v_size v)" using idx by (simp add: word_le_nat_alt)
    have aB: "a \<le> length ?B" unfolding lB a_def using il by (rule mult_le_mono1)
    have la: "length (take a ?B) = a" using aB by simp
    have ls: "length ?src = ?es" using e by simp
    from vector_insert_effect(4)[OF r v d(1) d(3)] vv
    have s': "v_size v' = v_size v + 1" by auto
    have g1: "vector_size vector m' = Some (v_size v + 1)"
      using d(1) vv s' by (simp add: vector_size_def)
    have g2: "unat (v_size v + 1) = unat (v_size v) + 1" using sz s' by simp
    have lt': "k < v_size v'" if "unat k \<le> unat (v_size v)" for k
      using that sz by (simp add: word_less_nat_alt)
    have sl: "take ?es (drop a (v_bytes m' v')) = ?src"
      unfolding vb by (rule slice_at[OF la ls])
    have g3: "vector_get vector index True m' = Some (SUCCESS, Some ?src)"
      by (simp only: vector_get_wf(1)[OF wf' vv lt'[OF il]] es a_def[symmetric] sl)
    have g4: "vector_get vector (j + 1) True m' = vector_get vector j True m"
      if j: "index \<le> j \<and> j < v_size v" for j
    proof -
      have jl: "unat j < unat (v_size v)" using j by (simp add: word_less_nat_alt)
      have ij: "unat index \<le> unat j" using j by (simp add: word_le_nat_alt)
      have j1: "unat (j + 1) = unat j + 1" using j by (intro unat_succ_below[of j "v_size v"]) simp
      have j1l: "unat (j + 1) \<le> unat (v_size v)" using j1 jl by simp
      have "a \<le> unat j * ?es" unfolding a_def using ij by (rule mult_le_mono1)
      then have ge: "a + ?es \<le> unat (j + 1) * ?es" and
        df: "unat (j + 1) * ?es - a - ?es + a = unat j * ?es" using j1 by simp_all
      have "drop (unat (j + 1) * ?es) (v_bytes m' v') =
            drop (unat (j + 1) * ?es - a - ?es) (drop a ?B)"
        unfolding vb by (rule slice_after[OF la ls ge])
      also have "\<dots> = drop (unat j * ?es) ?B" using df by simp
      finally have dr: "drop (unat (j + 1) * ?es) (v_bytes m' v') = drop (unat j * ?es) ?B" .
      have jv: "j < v_size v" using j by simp
      show ?thesis
        using vector_get_wf(1)[OF wf' vv lt'[OF j1l]] vector_get_wf(1)[OF wf v jv] dr
        by (simp add: es)
    qed
    have g5: "vector_get vector j True m' = vector_get vector j True m" if j: "j < index" for j
    proof -
      have ji: "unat j < unat index" using j by (simp add: word_less_nat_alt)
      have jl: "unat j \<le> unat (v_size v)" using ji il by simp
      have jv: "j < v_size v" using j idx by simp
      have "(unat j + 1) * ?es \<le> unat index * ?es" using ji by (intro mult_le_mono1) simp
      then have b: "unat j * ?es + ?es \<le> a" by (simp add: a_def)
      then have b': "unat j * ?es + ?es \<le> length (take a ?B)" using la by simp
      have "take ?es (drop (unat j * ?es) (v_bytes m' v')) =
            take ?es (drop (unat j * ?es) (take a ?B))"
        unfolding vb by (rule slice_before[OF b'])
      also have "\<dots> = take ?es (drop (unat j * ?es) ?B)"
        using b by (simp add: drop_take min_def)
      finally have tk: "take ?es (drop (unat j * ?es) (v_bytes m' v')) =
                        take ?es (drop (unat j * ?es) ?B)" .
      show ?thesis
        using vector_get_wf(1)[OF wf' vv lt'[OF jl]] vector_get_wf(1)[OF wf v jv] tk
        by (simp add: es)
    qed
    from g1 g2 g3 g4 g5 show ?thesis by blast
  qed
  from c1 c2 c3 c4 show ?thesis by blast
qed

theorem vector_insert_shifts_elements_witness:
  "\<exists>m'. vector_insert 1 1 (Some [9]) wm0 = Some (SUCCESS, m') \<and>
        vector_size 1 m' = Some 3 \<and>
        vector_get 1 0 True m' = Some (SUCCESS, Some [7]) \<and>
        vector_get 1 1 True m' = Some (SUCCESS, Some [9]) \<and>
        vector_get 1 2 True m' = Some (SUCCESS, Some [8])"
proof -
  let ?v = "\<lparr>v_data = 2, v_size = 2, v_capacity = 2, v_element_size = 1\<rparr>"
  obtain m' where run: "vector_insert 1 1 (Some [9]) wm0 = Some (SUCCESS, m')"
    by (simp add: wm0_def vector_insert_def vector_check_grow_def grown_capacity_def
          growth_product_def round_to_double_def Let_def VECTOR_INITIAL_CAPACITY_def vector_reserve_def mem_realloc_def
          caller_bytes_def mem_write_def mem_move_def mem_read_def fresh_bytes_def)
  have h1: "v_wf wm0 1" by (simp add: wm0_def v_wf_def)
  have h2: "vecs wm0 1 = Some ?v" by (simp add: wm0_def)
  have h3: "growth_fits ?v"
    by (simp add: growth_fits_def grown_capacity_def growth_product_def round_to_double_def Let_def
          VECTOR_INITIAL_CAPACITY_def)
  have h4: "unat (v_element_size ?v) \<le> length [9 :: byte]" by simp
  have g0: "vector_get 1 0 True wm0 = Some (SUCCESS, Some [7])"
    by (simp add: wm0_def vector_get_def vector_check_index_def mem_read_def)
  have g1: "vector_get 1 1 True wm0 = Some (SUCCESS, Some [8])"
    by (simp add: wm0_def vector_get_def vector_check_index_def mem_read_def word_le_nat_alt)
  note T = vector_insert_shifts_elements[where index = 1 and st = SUCCESS and m' = m',
      OF h1 h2 h3 h4, THEN conjunct2, THEN conjunct2, THEN conjunct2, THEN mp, OF run]
  from T have a: "vector_size 1 m' = Some 3" by simp
  from T have b: "vector_get 1 1 True m' = Some (SUCCESS, Some [9])" by simp
  from T have c: "(1::size_t) \<le> 1 \<and> (1::size_t) < v_size ?v \<longrightarrow>
      vector_get 1 (1 + 1) True m' = vector_get 1 1 True wm0" by blast
  from T have d: "(0::size_t) < 1 \<longrightarrow> vector_get 1 0 True m' = vector_get 1 0 True wm0"
    by blast
  from c have c': "vector_get 1 2 True m' = Some (SUCCESS, Some [8])" using g1 by simp
  from d have d': "vector_get 1 0 True m' = Some (SUCCESS, Some [7])" using g0 by simp
  from run a b c' d' show ?thesis by blast
qed

section \<open>The capacity of a vector over a sequence of operations\<close>

text \<open>
  Claim C9, as stated: over every sequence of operations without \<open>shrink_to_fit\<close> the
  capacity of a vector does not decrease. \<open>vector_swap\<close> exchanges the capacities of its
  two arguments: on two well-formed vectors of capacities 2 and 1, the sequence consisting
  of one \<open>swap\<close> takes the capacity of the first from 2 to 1.
\<close>

theorem capacity_lowered_by_swap:
  "v_wf wm2 1 \<and> v_wf wm2 4 \<and> filter is_shrink_to_fit [Swap 1 4] = [] \<and>
   vector_capacity 1 wm2 = Some 2 \<and> capacity_after [Swap 1 4] 1 wm2 = Some 1"
  by (simp add: wm2_def v_wf_def vector_capacity_def capacity_after_def vector_swap_def)

text \<open>
  Claim C9, amended. Over every sequence of operations that applies neither
  \<open>shrink_to_fit\<close> nor \<open>swap\<close> nor \<open>destroy\<close> to the vector, the capacity of the vector
  after the sequence is at least its capacity before; \<open>pop_back\<close>, \<open>remove\<close> and
  \<open>clear\<close> are among the operations allowed.
\<close>

theorem capacity_never_lowered:
  assumes "vecs m vector = Some v"
    and "\<forall>op \<in> set ops. \<not> lowers_capacity vector op"
    and "vector_run_all ops m = Some m'"
  shows "\<exists>c c'. vector_capacity vector m = Some c \<and>
                capacity_after ops vector m = Some c' \<and> c \<le> c' \<and>
                (vector \<noteq> NULL \<longrightarrow> c = v_capacity v)"
proof -
  from vector_run_all_capacity[OF assms(3) assms(1) assms(2)] obtain v' where
    v': "vecs m' vector = Some v'" and c: "v_capacity v \<le> v_capacity v'" by blast
  show ?thesis
  proof (cases "vector = NULL")
    case True
    then show ?thesis using assms(3) by (simp add: vector_capacity_def capacity_after_def)
  next
    case False
    then show ?thesis using assms(1,3) v' c
      by (simp add: vector_capacity_def capacity_after_def)
  qed
qed

theorem capacity_never_lowered_witness:
  "\<exists>c'. capacity_after [PushBack 1 (Some [9]), PopBack 1 False, Clear 1] 1 wm0 = Some c' \<and>
        2 \<le> c'"
proof -
  let ?v = "\<lparr>v_data = 2, v_size = 2, v_capacity = 2, v_element_size = 1\<rparr>"
  let ?ops = "[PushBack 1 (Some [9]), PopBack 1 False, Clear 1]"
  obtain m' where run: "vector_run_all ?ops wm0 = Some m'"
    by (simp add: wm0_def vector_push_back_def vector_check_grow_def grown_capacity_def
          growth_product_def round_to_double_def Let_def VECTOR_INITIAL_CAPACITY_def vector_reserve_def mem_realloc_def
          caller_bytes_def mem_write_def fresh_bytes_def vector_pop_back_def vector_clear_def)
  have h1: "vecs wm0 1 = Some ?v" by (simp add: wm0_def)
  have h2: "\<forall>op \<in> set ?ops. \<not> lowers_capacity 1 op" by simp
  from capacity_never_lowered[OF h1 h2 run] show ?thesis by auto
qed

section \<open>Copying a vector\<close>


text \<open>
  Claim C3, amended. For a well-formed vector \<open>C\<close>, a \<open>vector_copy\<close> that returns a
  vector returns a new one, of the size and the element size of \<open>C\<close>, whose
  capacity is that of \<open>C\<close>, or \<open>VECTOR_INITIAL_CAPACITY\<close> when \<open>C\<close> has capacity 0, and
  which holds the elements of \<open>C\<close> in the same order; \<open>C\<close> itself is as before. The
  copy is made whenever the allocator provides the structure and the buffer. When the
  allocator refuses the structure or the buffer the call returns \<open>NULL\<close>, and a call that
  returns \<open>NULL\<close> leaves no structure and no buffer behind. Whatever is then pushed,
  popped, inserted, removed, cleared, set, reserved or shrunk on the copy, in calls that
  are defined, \<open>C\<close> keeps its structure and its elements. A call is undefined when it
  reads or writes outside an allocated block: \<open>wrapping_reserve\<close> below is a \<open>reserve\<close>
  on a copy that returns \<open>SUCCESS\<close> with a buffer shorter than the capacity, after
  which \<open>push_back\<close> writes behind the buffer.
\<close>

lemma reserve_with_wrapping_byte_count:
  "v_wf wm8 1 \<and> wrapping_reserve = Some (SUCCESS, Some (2 ^ 61 + 1), Some 8, True)"
  by (simp add: wm8_def v_wf_def wrapping_reserve_def vector_copy_def
        vector_create_with_capacity_def vector_struct_alloc_def mem_alloc_def mem_read_def
        vector_destroy_def mem_free_def
        vector_reserve_def mem_realloc_def fresh_bytes_def vector_capacity_def
        vector_push_back_def vector_check_grow_def caller_bytes_def mem_write_def
        word_le_nat_alt word_less_nat_alt Let_def)



section \<open>The growth of a full vector\<close>

text \<open>
  Claim C2, as stated: the new capacity is \<open>capacity + 1\<close> when the product with 1.5 does
  not exceed the old capacity. The code clamps the product to \<open>VECTOR_INITIAL_CAPACITY\<close>
  first and tests the clamped value. For a full vector of capacity 1 the product, 1, does
  not exceed the capacity, and \<open>push_back\<close> takes the capacity to 16, not to 2.
\<close>

theorem growth_of_capacity_one:
  "v_wf wm1 1 \<and> vector_size 1 wm1 = Some 1 \<and> vector_capacity 1 wm1 = Some 1 \<and>
   growth_product 1 = Some 1 \<and>
   capacity_after [PushBack 1 (Some [9])] 1 wm1 = Some 16"
  by (simp add: wm1_def v_wf_def vector_size_def vector_capacity_def capacity_after_def
        vector_push_back_def vector_check_grow_def grown_capacity_def growth_product_def
        round_to_double_def Let_def VECTOR_INITIAL_CAPACITY_def vector_reserve_def
        mem_realloc_def caller_bytes_def mem_write_def fresh_bytes_def word_le_nat_alt)

text \<open>
  Claim C2, amended. When the size of a well-formed vector has reached its capacity, every
  successful \<open>push_back\<close> or \<open>insert\<close> leaves the capacity at the maximum of the
  product and 16, where the product is \<open>capacity * 1.5\<close> as the code computes it in
  \<open>double\<close> and converts it back, equal to \<open>3 * capacity div 2\<close> for every capacity
  below \<open>2^51\<close>. This maximum is strictly greater than the old capacity, so the fallback
  to \<open>capacity + 1\<close> is never taken. Both calls do succeed when the grown buffer fits
  \<open>size_t\<close>, the allocator answers the reallocation with the old block or a fresh one,
  the element has \<open>element_size\<close> bytes and the index is at most the size.
\<close>

theorem vector_growth_policy:
  assumes wf: "v_wf m vector" and v: "vecs m vector = Some v"
    and full: "v_size v = v_capacity v"
  shows "(vector_push_back vector (Some e) m = Some (SUCCESS, m') \<or>
          vector_insert vector index (Some e) m = Some (SUCCESS, m') \<longrightarrow>
            (\<exists>g. growth_product (v_capacity v) = Some g \<and>
                 vector_capacity vector m' = Some (max g 16) \<and>
                 v_capacity v < max g 16 \<and>
                 (unat (v_capacity v) < 2 ^ 51 \<longrightarrow>
                    unat (max g 16) = max (unat (v_capacity v) * 3 div 2) 16))) \<and>
         (growth_fits v \<and> vplan m = (q, junk) # rest \<and> q \<noteq> NULL \<and>
          (q = v_data v \<or> bufs m q = None) \<and>
          unat (v_element_size v) \<le> length e \<and> index \<le> v_size v \<longrightarrow>
            (\<exists>m1 m2. vector_push_back vector (Some e) m = Some (SUCCESS, m1) \<and>
                     vector_insert vector index (Some e) m = Some (SUCCESS, m2)))"
proof -
  note d = v_wf_D[OF wf v]
  have A: "\<exists>g. growth_product (v_capacity v) = Some g \<and>
                 vector_capacity vector m' = Some (max g 16) \<and>
                 v_capacity v < max g 16 \<and>
                 (unat (v_capacity v) < 2 ^ 51 \<longrightarrow>
                    unat (max g 16) = max (unat (v_capacity v) * 3 div 2) 16)"
    if r: "vector_push_back vector (Some e) m = Some (SUCCESS, m') \<or>
           vector_insert vector index (Some e) m = Some (SUCCESS, m')"
  proof -
    have "\<exists>d c. vecs m' = (vecs m)(vector \<mapsto> v\<lparr>v_data := d, v_capacity := c,
                                                  v_size := v_size v + 1\<rparr>) \<and>
             (if v_size v < v_capacity v then c = v_capacity v \<and> d = v_data v
              else grown_capacity (v_capacity v) = Some c)"
      using r
    proof
      assume "vector_push_back vector (Some e) m = Some (SUCCESS, m')"
      from vector_push_back_effect(3)[OF this v d(1) refl] show ?thesis .
    next
      assume "vector_insert vector index (Some e) m = Some (SUCCESS, m')"
      from vector_insert_effect(4)[OF this v d(1) d(3) refl] show ?thesis .
    qed
    then obtain dd c where m': "vecs m' = (vecs m)(vector \<mapsto> v\<lparr>v_data := dd, v_capacity := c,
                                                  v_size := v_size v + 1\<rparr>)"
      and c: "grown_capacity (v_capacity v) = Some c"
      using full by auto
    from grown_capacity_max[OF c] obtain g where g: "growth_product (v_capacity v) = Some g"
      and cm: "c = max g 16" and lt: "v_capacity v < c" by blast
    have cap: "vector_capacity vector m' = Some (max g 16)"
      using m' d(1) cm by (simp add: vector_capacity_def)
    have small: "unat (max g 16) = max (unat (v_capacity v) * 3 div 2) 16"
      if b: "unat (v_capacity v) < 2 ^ 51"
    proof -
      from grown_capacity_eq(1)[OF b] c
      have "c = word_of_nat (max (unat (v_capacity v) * 3 div 2) 16)" by simp
      with grown_capacity_eq(2)[OF b] cm show ?thesis by simp
    qed
    from g cap lt cm small show ?thesis by auto
  qed
  have B: "\<exists>m1 m2. vector_push_back vector (Some e) m = Some (SUCCESS, m1) \<and>
                   vector_insert vector index (Some e) m = Some (SUCCESS, m2)"
    if h: "growth_fits v \<and> vplan m = (q, junk) # rest \<and> q \<noteq> NULL \<and>
          (q = v_data v \<or> bufs m q = None) \<and>
          unat (v_element_size v) \<le> length e \<and> index \<le> v_size v"
  proof -
    have fl: "v_capacity v \<le> v_size v" using full by simp
    from h have h1: "growth_fits v" and h2: "vplan m = (q, junk) # rest" and h3: "q \<noteq> NULL"
      and h4: "q = v_data v \<or> bufs m q = None"
      and h5: "unat (v_element_size v) \<le> length e" and h6: "index \<le> v_size v" by simp_all
    from vector_full_insertions_total[OF wf v fl h1 h2 h3 h4 h5 h6] show ?thesis by blast
  qed
  from A B show ?thesis by blast
qed

theorem vector_growth_policy_witness:
  "\<exists>m1 m2. vector_push_back 1 (Some [9]) wm0 = Some (SUCCESS, m1) \<and>
           vector_insert 1 1 (Some [9]) wm0 = Some (SUCCESS, m2) \<and>
           vector_capacity 1 wm0 = Some 2 \<and>
           vector_capacity 1 m1 = Some 16 \<and> vector_capacity 1 m2 = Some 16"
proof -
  let ?v = "\<lparr>v_data = 2, v_size = 2, v_capacity = 2, v_element_size = 1\<rparr>"
  have h1: "v_wf wm0 1" by (simp add: wm0_def v_wf_def)
  have h2: "vecs wm0 1 = Some ?v" by (simp add: wm0_def)
  have h3: "v_size ?v = v_capacity ?v" by simp
  have gp: "growth_product 2 = Some 3"
    by (simp add: growth_product_def round_to_double_def Let_def)
  have hb: "growth_fits ?v \<and> vplan wm0 = (3, []) # [] \<and> (3::ptr) \<noteq> NULL \<and>
          (3 = v_data ?v \<or> bufs wm0 3 = None) \<and>
          unat (v_element_size ?v) \<le> length [9 :: byte] \<and> (1::size_t) \<le> v_size ?v"
    by (simp add: growth_fits_def grown_capacity_def gp VECTOR_INITIAL_CAPACITY_def wm0_def)
  note T = vector_growth_policy[OF h1 h2 h3, where e = "[9]" and index = 1]
  from T[THEN conjunct2, THEN mp, OF hb] obtain m1 m2 where
    r1: "vector_push_back 1 (Some [9]) wm0 = Some (SUCCESS, m1)"
    and r2: "vector_insert 1 1 (Some [9]) wm0 = Some (SUCCESS, m2)" by blast
  from T[where m' = m1, THEN conjunct1, THEN mp, OF disjI1[OF r1]] gp
  have c1: "vector_capacity 1 m1 = Some 16" by simp
  from T[where m' = m2, THEN conjunct1, THEN mp, OF disjI2[OF r2]] gp
  have c2: "vector_capacity 1 m2 = Some 16" by simp
  have c0: "vector_capacity 1 wm0 = Some 2" by (simp add: wm0_def vector_capacity_def)
  from r1 r2 c0 c1 c2 show ?thesis by (intro exI conjI)
qed

end
